(* ===== verification/Prelude.thy ===== *)
theory Prelude
  imports Main "HOL-Library.Word" "HOL-Library.Char_ord" "HOL-Library.List_Lexorder"
begin

text \<open>Shared vocabulary of the development.

  \<^item> Machine integers: type synonyms for the Rust widths.
  \<^item> \<open>outcome\<close>: what a Rust function does when called, it returns a value or it panics
    (an \<open>unwrap\<close> of \<open>None\<close>, an index out of bounds, an \<open>assert!\<close>, an
    \<open>unimplemented!\<close>, or an arithmetic overflow in a build with overflow checks).
  \<^item> Checked arithmetic: \<open>+\<close>, \<open>-\<close> and \<open>*\<close> on \<open>usize\<close>
    and \<open>u64\<close> written with the overflow check of the dev profile.  An operation shown never
    to panic computes the same value in the release profile, where the checks are absent.
  \<^item> \<open>BTreeMap\<close>: the ordered map of \<open>alloc::collections\<close> as an association
    list kept sorted by key.
  \<^item> The contract of the \<open>bit_field\<close> crate, which is not part of the repository, as a
    locale over its accessor functions.\<close>

unbundle bit_operations_syntax

named_theorems outcome_simps \<open>evaluation of code that may panic\<close>
named_theorems btree_simps \<open>lookups in ordered maps\<close>

type_synonym u8 = "8 word"
type_synonym u16 = "16 word"
type_synonym u32 = "32 word"
type_synonym u64 = "64 word"

section \<open>Returning and panicking\<close>

datatype 'a outcome = Returns (returned: 'a) | Panics

primrec obind :: "'a outcome \<Rightarrow> ('a \<Rightarrow> 'b outcome) \<Rightarrow> 'b outcome" where
  "obind (Returns x) f = f x"
| "obind Panics f = Panics"

primrec omap :: "('a \<Rightarrow> 'b) \<Rightarrow> 'a outcome \<Rightarrow> 'b outcome" where
  "omap f (Returns x) = Returns (f x)"
| "omap f Panics = Panics"

primrec unwrap :: "'a option \<Rightarrow> 'a outcome" where
  "unwrap None = Panics"
| "unwrap (Some x) = Returns x"

definition rust_assert :: "bool \<Rightarrow> unit outcome" where
  "rust_assert b = (if b then Returns () else Panics)"

fun ofold :: "('b \<Rightarrow> 'a \<Rightarrow> 'a outcome) \<Rightarrow> 'b list \<Rightarrow> 'a \<Rightarrow> 'a outcome" where
  "ofold f [] s = Returns s"
| "ofold f (x # xs) s = obind (f x s) (ofold f xs)"

fun ofind :: "('a \<Rightarrow> bool outcome) \<Rightarrow> 'a list \<Rightarrow> 'a option outcome" where
  "ofind p [] = Returns None"
| "ofind p (x # xs) = obind (p x) (\<lambda>b. if b then Returns (Some x) else ofind p xs)"

lemma obind_Returns_iff [outcome_simps]:
  "obind m f = Returns y \<longleftrightarrow> (\<exists>x. m = Returns x \<and> f x = Returns y)"
  by (cases m) auto

lemma obind_cong [fundef_cong]:
  "m = m' \<Longrightarrow> (\<And>x. m' = Returns x \<Longrightarrow> f x = g x) \<Longrightarrow> obind m f = obind m' g"
  by (cases m') auto

lemma obind_assoc: "obind (obind m f) g = obind m (\<lambda>x. obind (f x) g)"
  by (cases m) auto

lemma unwrap_Returns_iff [outcome_simps]: "unwrap m = Returns y \<longleftrightarrow> m = Some y"
  by (cases m) auto

lemma rust_assert_Returns_iff [outcome_simps]: "rust_assert b = Returns y \<longleftrightarrow> b"
  by (simp add: rust_assert_def)

lemma ofold_append: "ofold f (xs @ ys) s = obind (ofold f xs s) (ofold f ys)"
proof (induction xs arbitrary: s)
  case (Cons x xs)
  then show ?case by (cases "f x s") auto
qed simp

lemma ofold_invariant:
  assumes "ofold f xs s = Returns s'" and "P s"
    and "\<And>x s s'. x \<in> set xs \<Longrightarrow> P s \<Longrightarrow> f x s = Returns s' \<Longrightarrow> P s'"
  shows "P s'"
  using assms
proof (induction xs arbitrary: s)
  case (Cons x xs)
  then obtain t where "f x s = Returns t" "ofold f xs t = Returns s'"
    by (auto simp: outcome_simps)
  with Cons show ?case by (metis list.set_intros)
qed simp

lemma ofind_total:
  "(\<And>x. x \<in> set xs \<Longrightarrow> p x = Returns (P x)) \<Longrightarrow> ofind p xs = Returns (find P xs)"
  by (induction xs) auto

section \<open>Checked arithmetic on 64-bit unsigned integers\<close>

definition usize_max :: nat where
  "usize_max = 2 ^ 64 - 1"

definition uadd :: "nat \<Rightarrow> nat \<Rightarrow> nat outcome" where
  "uadd a b = (if a + b \<le> usize_max then Returns (a + b) else Panics)"

definition usub :: "nat \<Rightarrow> nat \<Rightarrow> nat outcome" where
  "usub a b = (if b \<le> a then Returns (a - b) else Panics)"

definition umul :: "nat \<Rightarrow> nat \<Rightarrow> nat outcome" where
  "umul a b = (if a * b \<le> usize_max then Returns (a * b) else Panics)"

definition div_ceil :: "nat \<Rightarrow> nat \<Rightarrow> nat" where
  "div_ceil a b = (if a mod b = 0 then a div b else a div b + 1)"

lemma uadd_Returns_iff [outcome_simps]:
  "uadd a b = Returns c \<longleftrightarrow> c = a + b \<and> a + b \<le> usize_max"
  by (auto simp: uadd_def)

lemma usub_Returns_iff [outcome_simps]: "usub a b = Returns c \<longleftrightarrow> c = a - b \<and> b \<le> a"
  by (auto simp: usub_def)

lemma umul_Returns_iff [outcome_simps]:
  "umul a b = Returns c \<longleftrightarrow> c = a * b \<and> a * b \<le> usize_max"
  by (auto simp: umul_def)

lemma div_ceil_le_mult: "0 < b \<Longrightarrow> a \<le> div_ceil a b * b"
proof -
  assume "0 < b"
  then have "a = b * (a div b) + a mod b" and "a mod b < b" by auto
  then have "a \<le> b * (a div b) + b" by linarith
  then show ?thesis by (auto simp: div_ceil_def algebra_simps)
qed

section \<open>Ordered maps\<close>

type_synonym ('k, 'v) btree = "('k \<times> 'v) list"

abbreviation bt_get :: "('k, 'v) btree \<Rightarrow> 'k \<Rightarrow> 'v option" where
  "bt_get m k \<equiv> map_of m k"

fun bt_insert :: "'k::linorder \<Rightarrow> 'v \<Rightarrow> ('k, 'v) btree \<Rightarrow> ('k, 'v) btree" where
  "bt_insert k v [] = [(k, v)]"
| "bt_insert k v ((k', v') # m) =
     (if k < k' then (k, v) # (k', v') # m
      else if k = k' then (k, v) # m
      else (k', v') # bt_insert k v m)"

definition bt_remove :: "'k \<Rightarrow> ('k, 'v) btree \<Rightarrow> ('k, 'v) btree" where
  "bt_remove k m = filter (\<lambda>(k', v). k' \<noteq> k) m"

definition bt_sorted :: "('k::linorder, 'v) btree \<Rightarrow> bool" where
  "bt_sorted m \<longleftrightarrow> sorted_wrt (<) (map fst m)"

lemma bt_get_insert [simp, btree_simps]:
  "bt_get (bt_insert k v m) k' = (if k' = k then Some v else bt_get m k')"
  by (induction k v m rule: bt_insert.induct) auto

lemma bt_get_remove [simp, btree_simps]:
  "bt_get (bt_remove k m) k' = (if k' = k then None else bt_get m k')"
  by (induction m) (auto simp: bt_remove_def)

lemma bt_keys_insert [simp, btree_simps]:
  "fst ` set (bt_insert k v m) = insert k (fst ` set m)"
  by (induction k v m rule: bt_insert.induct) auto

lemma bt_sorted_Nil [simp]: "bt_sorted []"
  by (simp add: bt_sorted_def)

lemma bt_sorted_insert [simp]: "bt_sorted m \<Longrightarrow> bt_sorted (bt_insert k v m)"
proof (induction k v m rule: bt_insert.induct)
  case (2 k v k' v' m)
  have keys: "set (map fst (bt_insert k v m)) = insert k (fst ` set m)"
    by (simp add: btree_simps)
  from 2 show ?case by (auto simp: bt_sorted_def keys simp del: set_map) auto
qed (simp add: bt_sorted_def)

lemma bt_sorted_remove [simp]: "bt_sorted m \<Longrightarrow> bt_sorted (bt_remove k m)"
  by (induction m) (auto simp: bt_sorted_def bt_remove_def)

lemma bt_sorted_distinct: "bt_sorted m \<Longrightarrow> distinct (map fst m)"
  unfolding bt_sorted_def by (induction m) (auto simp: order.strict_iff_order)

section \<open>The contract of the bit_field crate\<close>

text \<open>The kernel calls \<open>get_bit\<close> and \<open>set_bit\<close> of the \<open>bit_field\<close>
  crate on integers.  Their documentation: \<open>get_bit(i)\<close> obtains the bit at index \<open>i\<close>,
  \<open>set_bit(i, v)\<close> sets the bit at index \<open>i\<close> to \<open>v\<close>, for indices inside the
  width.\<close>

locale bit_field =
  fixes get_bit :: "'a::len word \<Rightarrow> nat \<Rightarrow> bool"
    and set_bit :: "'a word \<Rightarrow> nat \<Rightarrow> bool \<Rightarrow> 'a word"
  assumes get_bit: "i < LENGTH('a) \<Longrightarrow> get_bit w i = bit w i"
    and bit_set_bit: "i < LENGTH('a) \<Longrightarrow> j < LENGTH('a) \<Longrightarrow>
      bit (set_bit w i v) j = (if j = i then v else bit w j)"

definition word_get_bit :: "'a::len word \<Rightarrow> nat \<Rightarrow> bool" where
  "word_get_bit w i = bit w i"

definition word_set_bit :: "'a::len word \<Rightarrow> nat \<Rightarrow> bool \<Rightarrow> 'a word" where
  "word_set_bit w i v =
     (if v then w OR push_bit i 1 else w AND NOT (push_bit i 1))"

interpretation word_bits: bit_field word_get_bit word_set_bit
  by unfold_locales
    (auto simp: word_get_bit_def word_set_bit_def bit_or_iff bit_and_iff bit_not_iff bit_exp_iff)

lemma bit_field_word: "bit_field word_get_bit word_set_bit"
  by (rule word_bits.bit_field_axioms)

end
