(* ===== verification/Frame.thy ===== *)
theory Frame
  imports Prelude
begin

text \<open>The physical frame allocator, \<open>kernel/src/memory/frame.rs\<close>.

  A \<open>Bitmap\<close> is a byte slice with one bit per 4 KiB frame, set when the frame is free.  The
  \<open>BitmapFrameAllocator\<close> adds a counter of usable frames and a cursor.  Frames are numbered by
  \<open>nat\<close>; a \<open>PhysFrame\<close> is represented by its start address.  The accessors
  \<open>get_bit\<close> and \<open>set_bit\<close> of the bit_field crate are the parameters \<open>gb\<close>
  and \<open>sb\<close>.  Addresses are natural numbers; the constructors of the x86_64 crate that check them are
  here too.

  The lemmas show what each operation does to the set \<open>free_frames\<close>.  The locale
  \<open>frame_source\<close> is what the page table code relies on when it takes single frames; it is
  discharged here for \<open>allocate_frame\<close> under the invariant \<open>fa_inv\<close>.\<close>

section \<open>Bitmap\<close>

type_synonym get_bit_fn = "u8 \<Rightarrow> nat \<Rightarrow> bool"
type_synonym set_bit_fn = "u8 \<Rightarrow> nat \<Rightarrow> bool \<Rightarrow> u8"

record bitmap =
  inner :: "u8 list"

definition bitmap_new :: "u8 list \<Rightarrow> bitmap" where
  "bitmap_new buf = \<lparr>inner = replicate (length buf) 0\<rparr>"

definition bitmap_len :: "bitmap \<Rightarrow> nat" where
  "bitmap_len b = length (inner b)"

definition bitmap_get :: "get_bit_fn \<Rightarrow> bitmap \<Rightarrow> nat \<Rightarrow> bool outcome" where
  "bitmap_get gb b index =
     (if index div 8 < length (inner b)
      then Returns (gb (inner b ! (index div 8)) (index mod 8))
      else Panics)"

definition bitmap_set :: "set_bit_fn \<Rightarrow> bitmap \<Rightarrow> nat \<Rightarrow> bool \<Rightarrow> bitmap outcome" where
  "bitmap_set sb b index v =
     (if index div 8 < length (inner b)
      then Returns (b\<lparr>inner := (inner b)[index div 8 := sb (inner b ! (index div 8)) (index mod 8) v]\<rparr>)
      else Panics)"

definition bitmap_set_range :: "set_bit_fn \<Rightarrow> nat \<Rightarrow> nat \<Rightarrow> bool \<Rightarrow> bitmap \<Rightarrow> bitmap outcome" where
  "bitmap_set_range sb lo hi v b = ofold (\<lambda>i b. bitmap_set sb b i v) [lo..<hi] b"

section \<open>Addresses\<close>

definition canonical :: "nat \<Rightarrow> bool" where
  "canonical v \<longleftrightarrow> v < 2 ^ 47 \<or> 2 ^ 64 - 2 ^ 47 \<le> v \<and> v < 2 ^ 64"

text \<open>\<open>VirtAddr::new\<close> and \<open>PhysAddr::new\<close> panic on addresses outside their range.\<close>

definition virt_addr_new :: "nat \<Rightarrow> nat outcome" where
  "virt_addr_new v = (if canonical v then Returns v else Panics)"

definition phys_addr_new :: "nat \<Rightarrow> nat outcome" where
  "phys_addr_new p = (if p < 2 ^ 52 then Returns p else Panics)"

definition convert_physical_to_virtual :: "nat \<Rightarrow> nat \<Rightarrow> nat outcome" where
  "convert_physical_to_virtual hhdm physical_address = obind (uadd physical_address hhdm) virt_addr_new"

section \<open>BitmapFrameAllocator\<close>

record frame_allocator =
  bitmap :: bitmap
  usable_frames :: nat
  next_frame :: nat

text \<open>An entry of the boot loader's memory map; \<open>usable\<close> is
  \<open>entry_type == EntryType::USABLE\<close>.\<close>

record region =
  base :: nat
  len :: nat
  usable :: bool

definition add_region :: "set_bit_fn \<Rightarrow> region \<Rightarrow> bitmap \<times> nat \<times> nat \<Rightarrow> (bitmap \<times> nat \<times> nat) outcome" where
  "add_region sb r s = (case s of (b, uf, nf) \<Rightarrow>
     let start_page_index = base r div 4096; frame_count = len r div 4096 in
     obind (uadd uf frame_count) (\<lambda>uf.
     obind (uadd start_page_index frame_count) (\<lambda>end_index.
     obind (bitmap_set_range sb start_page_index end_index True b) (\<lambda>b.
     Returns (b, uf, min nf start_page_index)))))"

text \<open>\<open>raw\<close> is the memory behind the direct mapping and \<open>hhdm\<close> the offset of that
  mapping.\<close>

definition init :: "set_bit_fn \<Rightarrow> (nat \<Rightarrow> u8) \<Rightarrow> nat \<Rightarrow> region list \<Rightarrow> frame_allocator outcome" where
  "init sb raw hhdm entries =
     obind (unwrap (if entries = [] then None else Some (last entries))) (\<lambda>region.
     obind (uadd (base region) (len region)) (\<lambda>memory_size.
     let bitmap_size = div_ceil (memory_size div 4096) 8;
         usable_regions = filter usable entries in
     obind (unwrap (map_option base (find (\<lambda>r. bitmap_size \<le> len r) usable_regions))) (\<lambda>bitmap_address.
     obind (phys_addr_new bitmap_address) (\<lambda>physical_address.
     obind (convert_physical_to_virtual hhdm physical_address) (\<lambda>virtual_address.
     let b = bitmap_new (map raw [virtual_address..<virtual_address + bitmap_size]) in
     obind (ofold (add_region sb) usable_regions (b, 0, usize_max)) (\<lambda>(b, uf, nf).
     let bitmap_frame_start = bitmap_address div 4096;
         bitmap_frame_count = div_ceil bitmap_size 4096;
         bitmap_frame_end = bitmap_frame_start + bitmap_frame_count in
     obind (rust_assert (nf \<le> bitmap_frame_start)) (\<lambda>_.
     let nf = (if nf = bitmap_frame_start then bitmap_frame_end + 1 else nf) in
     obind (usub uf bitmap_frame_count) (\<lambda>uf.
     obind (bitmap_set_range sb bitmap_frame_start bitmap_frame_end False b) (\<lambda>b.
     Returns \<lparr>bitmap = b, usable_frames = uf, next_frame = nf\<rparr>)))))))))"

definition available_frames :: "frame_allocator \<Rightarrow> nat" where
  "available_frames a = usable_frames a"

text \<open>The counting loop of \<open>allocate_frames\<close> (it occurs twice in the function): from
  \<open>next\<close> over set bits until \<open>cnt\<close> of them are counted; the flag says whether they
  were found.\<close>

function count_run :: "get_bit_fn \<Rightarrow> bitmap \<Rightarrow> nat \<Rightarrow> nat \<Rightarrow> nat \<Rightarrow> (nat \<times> bool) outcome" where
  "count_run gb b cnt nxt frame_cnt =
     (if nxt < bitmap_len b then
        obind (bitmap_get gb b nxt) (\<lambda>free.
          if free then
            (if frame_cnt + 1 = cnt then Returns (nxt + 1, True)
             else count_run gb b cnt (nxt + 1) (frame_cnt + 1))
          else Returns (nxt, False))
      else Returns (nxt, False))"
  by auto
termination by (relation "measure (\<lambda>(gb, b, cnt, nxt, c). bitmap_len b - nxt)") auto

function skip_used :: "get_bit_fn \<Rightarrow> bitmap \<Rightarrow> nat \<Rightarrow> nat outcome" where
  "skip_used gb b nxt =
     (if nxt < bitmap_len b then
        obind (bitmap_get gb b nxt) (\<lambda>free. if \<not> free then skip_used gb b (nxt + 1) else Returns nxt)
      else Returns nxt)"
  by auto
termination by (relation "measure (\<lambda>(gb, b, nxt). bitmap_len b - nxt)") auto

declare count_run.simps [simp del] skip_used.simps [simp del]

lemma count_run_mono: "count_run gb b cnt nxt c = Returns (n, f) \<Longrightarrow> nxt \<le> n"
  by (induction gb b cnt nxt c rule: count_run.induct)
    (subst (asm) (2) count_run.simps, fastforce simp: outcome_simps split: if_splits)

lemma skip_used_mono: "skip_used gb b nxt = Returns n \<Longrightarrow> nxt \<le> n"
  by (induction gb b nxt rule: skip_used.induct)
    (subst (asm) (2) skip_used.simps, fastforce simp: outcome_simps split: if_splits)

text \<open>One of the two inner loops moves the cursor, so the outer loop ends.\<close>

lemma search_progress:
  assumes "nxt < bitmap_len b" "skip_used gb b nxt = Returns n" "count_run gb b cnt n 0 = Returns (n', False)"
  shows "nxt < n'"
proof (cases "nxt = n")
  case True
  with assms(1,2) have "bitmap_get gb b nxt = Returns True"
    by (subst (asm) skip_used.simps)
      (auto simp: outcome_simps split: if_splits dest: skip_used_mono)
  with True assms(1,3) show ?thesis
    by (subst (asm) count_run.simps) (auto split: if_splits dest: count_run_mono)
next
  case False
  with skip_used_mono [OF assms(2)] count_run_mono [OF assms(3)] show ?thesis by simp
qed

text \<open>The outer loop: the end of the run found, or \<open>None\<close> when the cursor reaches
  \<open>bitmap.len()\<close>.\<close>

function search_run :: "get_bit_fn \<Rightarrow> bitmap \<Rightarrow> nat \<Rightarrow> nat \<Rightarrow> nat option outcome" where
  "search_run gb b cnt nxt =
     (if bitmap_len b \<le> nxt then Returns None
      else obind (skip_used gb b nxt) (\<lambda>n.
           obind (count_run gb b cnt n 0) (\<lambda>r.
             if snd r then Returns (Some (fst r)) else search_run gb b cnt (fst r))))"
  by auto
termination
  by (relation "measure (\<lambda>(gb, b, cnt, nxt). bitmap_len b - nxt)")
    (auto simp: not_le intro!: diff_less_mono2 dest: search_progress)

declare search_run.simps [simp del]

definition allocate_frames :: "get_bit_fn \<Rightarrow> set_bit_fn \<Rightarrow> nat \<Rightarrow> frame_allocator
    \<Rightarrow> (nat option \<times> frame_allocator) outcome" where
  "allocate_frames gb sb cnt a0 =
     (if usable_frames a0 < cnt then Returns (None, a0)
      else
        let a = a0\<lparr>usable_frames := usable_frames a0 - cnt\<rparr> in
        obind (count_run gb (bitmap a) cnt (next_frame a) 0) (\<lambda>(nxt, found).
        if found then
          let a = a\<lparr>next_frame := nxt\<rparr> in
          obind (bitmap_set_range sb (nxt - cnt) nxt False (bitmap a)) (\<lambda>b.
          Returns (Some ((nxt - cnt) * 4096), a\<lparr>bitmap := b\<rparr>))
        else
          obind (search_run gb (bitmap a) cnt nxt) (\<lambda>r. case r of
            None \<Rightarrow> Returns (None, a\<lparr>usable_frames := usable_frames a + cnt\<rparr>)
          | Some nxt \<Rightarrow>
              obind (bitmap_set_range sb (nxt - cnt) nxt False (bitmap a)) (\<lambda>b.
              Returns (Some ((nxt - cnt) * 4096), a\<lparr>bitmap := b\<rparr>)))))"

definition deallocate_frames :: "set_bit_fn \<Rightarrow> nat \<Rightarrow> nat \<Rightarrow> frame_allocator \<Rightarrow> frame_allocator outcome" where
  "deallocate_frames sb frame cnt a =
     obind (uadd (usable_frames a) cnt) (\<lambda>n.
     let start_cnt = frame div 4096 in
     obind (uadd start_cnt cnt) (\<lambda>last_cnt.
     obind (bitmap_set_range sb start_cnt (last_cnt + 1) True (bitmap a)) (\<lambda>b.
     Returns (a\<lparr>usable_frames := n, bitmap := b\<rparr>))))"

definition allocate_frame :: "get_bit_fn \<Rightarrow> set_bit_fn \<Rightarrow> frame_allocator
    \<Rightarrow> (nat option \<times> frame_allocator) outcome" where
  "allocate_frame gb sb a =
     (if usable_frames a = 0 then Returns (None, a)
      else
        obind (bitmap_set sb (bitmap a) (next_frame a) False) (\<lambda>b.
        let address = next_frame a * 4096 in
        obind (ofind (bitmap_get gb b) [next_frame a + 1..<bitmap_len b]) (\<lambda>nxt.
        Returns (Some address,
          \<lparr>bitmap = b, usable_frames = usable_frames a - 1,
           next_frame = (case nxt of None \<Rightarrow> bitmap_len b | Some n \<Rightarrow> n)\<rparr>))))"

definition deallocate_frame :: "set_bit_fn \<Rightarrow> nat \<Rightarrow> frame_allocator \<Rightarrow> frame_allocator outcome" where
  "deallocate_frame sb frame a =
     obind (bitmap_set sb (bitmap a) (frame div 4096) True) (\<lambda>b.
     obind (uadd (usable_frames a) 1) (\<lambda>n.
     Returns (a\<lparr>bitmap := b, usable_frames := n\<rparr>)))"

section \<open>The set of free frames\<close>

definition frame_set :: "bitmap \<Rightarrow> nat set" where
  "frame_set b = {i. i < 8 * length (inner b) \<and> bit (inner b ! (i div 8)) (i mod 8)}"

abbreviation free_frames :: "frame_allocator \<Rightarrow> nat set" where
  "free_frames a \<equiv> frame_set (bitmap a)"

lemma finite_frame_set [simp]: "finite (frame_set b)"
  by (rule finite_subset [of _ "{..<8 * length (inner b)}"]) (auto simp: frame_set_def)

lemma frame_set_new [simp]: "frame_set (bitmap_new buf) = {}"
  by (auto simp: frame_set_def bitmap_new_def)

lemma bitmap_len_new [simp]: "bitmap_len (bitmap_new buf) = length buf"
  by (simp add: bitmap_len_def bitmap_new_def)

lemma div_mod_8_eq: "i div 8 = j div 8 \<Longrightarrow> i mod 8 = j mod 8 \<Longrightarrow> i = (j::nat)"
  by (metis div_mult_mod_eq)

locale byte_bits = bit_field gb sb for gb :: get_bit_fn and sb :: set_bit_fn
begin

lemma get_spec: "i < 8 * bitmap_len b \<Longrightarrow> bitmap_get gb b i = Returns (i \<in> frame_set b)"
  by (auto simp: bitmap_get_def frame_set_def bitmap_len_def get_bit)

lemma get_spec': "i < bitmap_len b \<Longrightarrow> bitmap_get gb b i = Returns (i \<in> frame_set b)"
  by (rule get_spec) simp

lemma set_Returns_iff: "(\<exists>b'. bitmap_set sb b i v = Returns b') \<longleftrightarrow> i < 8 * bitmap_len b"
  by (auto simp: bitmap_set_def bitmap_len_def)

lemma set_spec:
  assumes "bitmap_set sb b i v = Returns b'"
  shows "bitmap_len b' = bitmap_len b"
    and "frame_set b' = (if v then insert i (frame_set b) else frame_set b - {i})"
proof -
  from assms have i: "i div 8 < length (inner b)"
    and b': "b' = b\<lparr>inner := (inner b)[i div 8 := sb (inner b ! (i div 8)) (i mod 8) v]\<rparr>"
    by (auto simp: bitmap_set_def split: if_splits)
  show "bitmap_len b' = bitmap_len b" by (simp add: b' bitmap_len_def)
  have "j \<in> frame_set b' \<longleftrightarrow> (if j = i then v else j \<in> frame_set b)" for j
  proof (cases "j div 8 = i div 8")
    case True
    have "bit (sb (inner b ! (i div 8)) (i mod 8) v) (j mod 8) \<longleftrightarrow>
        (if j mod 8 = i mod 8 then v else bit (inner b ! (i div 8)) (j mod 8))"
      by (rule bit_set_bit) simp_all
    moreover have "j mod 8 = i mod 8 \<longleftrightarrow> j = i" using True div_mod_8_eq by blast
    moreover have "j < 8 * length (inner b)" using i True by linarith
    ultimately show ?thesis using i True by (simp add: b' frame_set_def)
  next
    case False
    then have "inner b' ! (j div 8) = inner b ! (j div 8)" and "j \<noteq> i"
      by (auto simp: b')
    then show ?thesis by (simp add: b' frame_set_def)
  qed
  note mem = this
  show "frame_set b' = (if v then insert i (frame_set b) else frame_set b - {i})"
    by (cases v) (auto simp only: set_eq_iff mem insert_iff Diff_iff empty_iff if_True if_False split: if_splits)
qed

lemma set_range_spec:
  assumes "bitmap_set_range sb lo hi v b = Returns b'"
  shows "bitmap_len b' = bitmap_len b"
    and "frame_set b' = (if v then frame_set b \<union> {lo..<hi} else frame_set b - {lo..<hi})"
proof -
  have "bitmap_len b' = bitmap_len b \<and>
      frame_set b' = (if v then frame_set b \<union> set xs else frame_set b - set xs)"
    if "ofold (\<lambda>i b. bitmap_set sb b i v) xs b = Returns b'" for xs
    using that
  proof (induction xs arbitrary: b)
    case (Cons x xs)
    then obtain b1 where b1: "bitmap_set sb b x v = Returns b1"
      and "ofold (\<lambda>i b. bitmap_set sb b i v) xs b1 = Returns b'" by (auto simp: outcome_simps)
    from Cons.IH [OF this(2)] set_spec [OF b1] show ?case by auto
  qed simp
  from this [OF assms [unfolded bitmap_set_range_def]]
  show "bitmap_len b' = bitmap_len b"
    and "frame_set b' = (if v then frame_set b \<union> {lo..<hi} else frame_set b - {lo..<hi})" by auto
qed

lemma set_range_total:
  assumes "hi \<le> 8 * bitmap_len b"
  shows "\<exists>b'. bitmap_set_range sb lo hi v b = Returns b'"
proof -
  have "\<exists>b'. ofold (\<lambda>i b. bitmap_set sb b i v) xs b = Returns b'"
    if "\<forall>x\<in>set xs. x < 8 * bitmap_len b" for xs
    using that
  proof (induction xs arbitrary: b)
    case (Cons x xs)
    then obtain b1 where b1: "bitmap_set sb b x v = Returns b1"
      using set_Returns_iff by (metis list.set_intros(1))
    with Cons.prems Cons.IH [of b1] set_spec(1) [OF b1] show ?case by simp
  qed simp
  with assms show ?thesis by (auto simp: bitmap_set_range_def)
qed

end

interpretation byte_word: byte_bits word_get_bit word_set_bit
  by unfold_locales

section \<open>Searching for a run of free frames\<close>

text \<open>\<open>fits b cnt lo s\<close>: a run of \<open>cnt\<close> free frames starts at \<open>s\<close>, not
  below \<open>lo\<close> and inside the part of the bitmap that is searched.\<close>

definition fits :: "bitmap \<Rightarrow> nat \<Rightarrow> nat \<Rightarrow> nat \<Rightarrow> bool" where
  "fits b cnt lo s \<longleftrightarrow> lo \<le> s \<and> s + cnt \<le> bitmap_len b \<and> {s..<s + cnt} \<subseteq> frame_set b"

definition first_fit :: "bitmap \<Rightarrow> nat \<Rightarrow> nat \<Rightarrow> nat \<Rightarrow> bool" where
  "first_fit b cnt lo s \<longleftrightarrow> fits b cnt lo s \<and> (\<forall>s' < s. \<not> fits b cnt lo s')"

lemma fits_beyond_gap:
  assumes "fits b cnt lo s" "0 < cnt" "lo \<le> n" "{lo..<n} \<inter> frame_set b = {}"
    and "n' - n < cnt" "n \<le> n'" "bitmap_len b \<le> n' \<or> n' \<notin> frame_set b"
  shows "fits b cnt n' s"
proof -
  from assms(1,2) have s: "s \<in> frame_set b" "lo \<le> s" by (auto simp: fits_def)
  have "n \<le> s"
  proof (rule ccontr)
    assume "\<not> n \<le> s"
    with s have "s \<in> {lo..<n} \<inter> frame_set b" by simp
    with assms(4) show False by simp
  qed
  have "n' \<le> s"
  proof (rule ccontr)
    assume "\<not> n' \<le> s"
    with \<open>n \<le> s\<close> assms(5) have "n' \<in> {s..<s + cnt}" by auto
    with assms(1,7) show False by (auto simp: fits_def)
  qed
  with assms(1) show ?thesis by (simp add: fits_def)
qed

lemma fits_weaken: "fits b cnt n' s \<Longrightarrow> n \<le> n' \<Longrightarrow> fits b cnt n s"
  by (simp add: fits_def)

context byte_bits
begin

lemma count_run_spec:
  "c < cnt \<Longrightarrow> \<exists>n f. count_run gb b cnt nxt c = Returns (n, f) \<and> nxt \<le> n \<and> {nxt..<n} \<subseteq> frame_set b \<and>
     (if f then n = nxt + (cnt - c) \<and> n \<le> bitmap_len b
      else n - nxt + c < cnt \<and> (bitmap_len b \<le> n \<or> n \<notin> frame_set b))"
proof (induction "bitmap_len b - nxt" arbitrary: nxt c rule: less_induct)
  case less
  show ?case
  proof (cases "nxt < bitmap_len b \<and> nxt \<in> frame_set b")
    case free: True
    then have unfold: "count_run gb b cnt nxt c =
        (if c + 1 = cnt then Returns (nxt + 1, True) else count_run gb b cnt (nxt + 1) (c + 1))"
      by (subst count_run.simps) (simp add: get_spec')
    show ?thesis
    proof (cases "c + 1 = cnt")
      case True
      then have "cnt - c = 1" by linarith
      show ?thesis
      proof (intro exI conjI)
        show "count_run gb b cnt nxt c = Returns (nxt + 1, True)" using unfold True by simp
        show "{nxt..<nxt + 1} \<subseteq> frame_set b" using free by simp
      qed (use free \<open>cnt - c = 1\<close> in simp_all)
    next
      case False
      have "bitmap_len b - (nxt + 1) < bitmap_len b - nxt" "c + 1 < cnt"
        using free less.prems False by (simp_all add: diff_less_mono2)
      from less.hyps [OF this] obtain n f where
        n: "count_run gb b cnt (nxt + 1) (c + 1) = Returns (n, f)" "nxt + 1 \<le> n"
          "{nxt + 1..<n} \<subseteq> frame_set b"
          "if f then n = nxt + 1 + (cnt - (c + 1)) \<and> n \<le> bitmap_len b
           else n - (nxt + 1) + (c + 1) < cnt \<and> (bitmap_len b \<le> n \<or> n \<notin> frame_set b)"
        by blast
      moreover have "{nxt..<n} \<subseteq> frame_set b"
      proof
        fix x assume "x \<in> {nxt..<n}"
        with n(3) free show "x \<in> frame_set b" by (cases "x = nxt") auto
      qed
      moreover have "if f then n = nxt + (cnt - c) \<and> n \<le> bitmap_len b
          else n - nxt + c < cnt \<and> (bitmap_len b \<le> n \<or> n \<notin> frame_set b)"
        using n(2,4) less.prems False by (cases f) auto
      ultimately show ?thesis using False unfold by (intro exI [of _ n] exI [of _ f]) simp
    qed
  next
    case False
    then have "count_run gb b cnt nxt c = Returns (nxt, False)"
      by (subst count_run.simps) (cases "nxt < bitmap_len b", simp_all add: get_spec')
    with less.prems False show ?thesis by (intro exI [of _ nxt] exI [of _ False]) auto
  qed
qed

lemma skip_used_spec:
  "\<exists>n. skip_used gb b nxt = Returns n \<and> nxt \<le> n \<and> {nxt..<n} \<inter> frame_set b = {} \<and>
     (bitmap_len b \<le> n \<or> n \<in> frame_set b)"
proof (induction "bitmap_len b - nxt" arbitrary: nxt rule: less_induct)
  case less
  show ?case
  proof (cases "nxt < bitmap_len b \<and> nxt \<notin> frame_set b")
    case True
    then have "bitmap_len b - (nxt + 1) < bitmap_len b - nxt" by (simp add: diff_less_mono2)
    from less [OF this] obtain n where n: "skip_used gb b (nxt + 1) = Returns n" "nxt + 1 \<le> n"
      "{nxt + 1..<n} \<inter> frame_set b = {}" "bitmap_len b \<le> n \<or> n \<in> frame_set b" by blast
    moreover have "skip_used gb b nxt = skip_used gb b (nxt + 1)"
      using True by (subst skip_used.simps) (simp add: get_spec')
    moreover have "{nxt..<n} \<inter> frame_set b = {}"
    proof -
      have "x \<notin> frame_set b" if "x \<in> {nxt..<n}" for x
      proof (cases "x = nxt")
        case False
        with that have "x \<in> {nxt + 1..<n}" by auto
        with n(3) show ?thesis by blast
      qed (use True in simp)
      then show ?thesis by blast
    qed
    ultimately show ?thesis using True by (intro exI [of _ n]) simp
  next
    case False
    then have "skip_used gb b nxt = Returns nxt"
      by (subst skip_used.simps) (cases "nxt < bitmap_len b", simp_all add: get_spec')
    with False show ?thesis by (intro exI [of _ nxt]) auto
  qed
qed

lemma search_run_spec:
  assumes "0 < cnt"
  shows "\<exists>r. search_run gb b cnt nxt = Returns r \<and>
     (case r of None \<Rightarrow> \<forall>s. \<not> fits b cnt nxt s
      | Some e \<Rightarrow> cnt \<le> e \<and> first_fit b cnt nxt (e - cnt))"
proof (induction "bitmap_len b - nxt" arbitrary: nxt rule: less_induct)
  case less
  show ?case
  proof (cases "bitmap_len b \<le> nxt")
    case True
    with assms show ?thesis by (subst search_run.simps) (auto simp: fits_def)
  next
    case False
    obtain n where n: "skip_used gb b nxt = Returns n" "nxt \<le> n" "{nxt..<n} \<inter> frame_set b = {}"
      using skip_used_spec by blast
    obtain e f where e: "count_run gb b cnt n 0 = Returns (e, f)" "n \<le> e" "{n..<e} \<subseteq> frame_set b"
      "if f then e = n + cnt \<and> e \<le> bitmap_len b else e - n < cnt \<and> (bitmap_len b \<le> e \<or> e \<notin> frame_set b)"
      using count_run_spec [OF assms, of b n] unfolding diff_zero add_0_right by blast
    have unfold: "search_run gb b cnt nxt = (if f then Returns (Some e) else search_run gb b cnt e)"
      using False n(1) e(1) by (subst search_run.simps) simp
    show ?thesis
    proof (cases f)
      case True
      have "\<not> fits b cnt nxt s" if "s < n" for s
      proof
        assume "fits b cnt nxt s"
        with that assms have "s \<in> {nxt..<n} \<inter> frame_set b" by (auto simp: fits_def)
        with n(3) show False by simp
      qed
      with True e n(2) show ?thesis by (simp add: unfold first_fit_def) (simp add: fits_def)
    next
      case no: False
      have "nxt < e" using search_progress [OF _ n(1)] False e(1) no by simp
      moreover have eq: "fits b cnt nxt s \<longleftrightarrow> fits b cnt e s" for s
        using fits_beyond_gap [OF _ assms n(2,3), of s e] fits_weaken [of b cnt e s nxt] e(2,4) no \<open>nxt < e\<close>
        by auto
      moreover have "bitmap_len b - e < bitmap_len b - nxt"
        using \<open>nxt < e\<close> False by (simp add: diff_less_mono2)
      moreover have "first_fit b cnt nxt = first_fit b cnt e"
        by (simp add: fun_eq_iff first_fit_def eq)
      moreover from calculation less [of e] obtain r where "search_run gb b cnt e = Returns r"
        "case r of None \<Rightarrow> \<forall>s. \<not> fits b cnt e s | Some i \<Rightarrow> cnt \<le> i \<and> first_fit b cnt e (i - cnt)"
        by blast
      ultimately show ?thesis using no unfold by (cases r) auto
    qed
  qed
qed

text \<open>The first loop of \<open>allocate_frames\<close> and the search after it find the leftmost run.\<close>

lemma allocate_frames_spec:
  assumes "0 < cnt" "cnt \<le> usable_frames a"
  shows "(\<exists>s a'. allocate_frames gb sb cnt a = Returns (Some (s * 4096), a') \<and>
            first_fit (bitmap a) cnt (next_frame a) s \<and>
            free_frames a' = free_frames a - {s..<s + cnt} \<and>
            bitmap_len (bitmap a') = bitmap_len (bitmap a) \<and>
            usable_frames a' = usable_frames a - cnt)
       \<or> (allocate_frames gb sb cnt a = Returns (None, a) \<and>
            (\<forall>s. \<not> fits (bitmap a) cnt (next_frame a) s))"
proof -
  let ?b = "bitmap a" and ?lo = "next_frame a"
  have clear: "\<exists>b'. bitmap_set_range sb (e - cnt) e False ?b = Returns b' \<and>
      bitmap_len b' = bitmap_len ?b \<and> frame_set b' = frame_set ?b - {e - cnt..<e - cnt + cnt}"
    if "first_fit ?b cnt ?lo (e - cnt)" "cnt \<le> e" for e
  proof -
    have "e \<le> 8 * bitmap_len ?b" using that by (auto simp: first_fit_def fits_def)
    then obtain b' where "bitmap_set_range sb (e - cnt) e False ?b = Returns b'"
      using set_range_total by blast
    with set_range_spec [OF this] that(2) show ?thesis by auto
  qed
  obtain n f where n: "count_run gb ?b cnt ?lo 0 = Returns (n, f)" "?lo \<le> n" "{?lo..<n} \<subseteq> frame_set ?b"
    "if f then n = ?lo + cnt \<and> n \<le> bitmap_len ?b
     else n - ?lo < cnt \<and> (bitmap_len ?b \<le> n \<or> n \<notin> frame_set ?b)"
    using count_run_spec [OF assms(1), of ?b ?lo] unfolding diff_zero add_0_right by blast
  show ?thesis
  proof (cases f)
    case True
    with n have "first_fit ?b cnt ?lo (n - cnt)" "cnt \<le> n" by (auto simp: first_fit_def fits_def)
    moreover from clear [OF this] obtain b' where b': "bitmap_set_range sb (n - cnt) n False ?b = Returns b'"
      "bitmap_len b' = bitmap_len ?b" "frame_set b' = frame_set ?b - {n - cnt..<n - cnt + cnt}" by blast
    moreover have "allocate_frames gb sb cnt a = Returns (Some ((n - cnt) * 4096),
        a\<lparr>usable_frames := usable_frames a - cnt, next_frame := n, bitmap := b'\<rparr>)"
      using assms(2) n(1) True b'(1) by (simp add: allocate_frames_def Let_def)
    ultimately show ?thesis
      by (intro disjI1 exI [of _ "n - cnt"] exI conjI) (assumption | simp add: b')+
  next
    case False
    have eq: "fits ?b cnt ?lo s \<longleftrightarrow> fits ?b cnt n s" for s
      using fits_beyond_gap [OF _ assms(1), of ?b ?lo s ?lo n] fits_weaken [of ?b cnt n s ?lo] n(2,4) False
      by auto
    obtain r where r: "search_run gb ?b cnt n = Returns r"
      "case r of None \<Rightarrow> \<forall>s. \<not> fits ?b cnt n s | Some e \<Rightarrow> cnt \<le> e \<and> first_fit ?b cnt n (e - cnt)"
      using search_run_spec [OF assms(1)] by blast
    show ?thesis
    proof (cases r)
      case None
      with r(2) eq have "\<forall>s. \<not> fits ?b cnt ?lo s" by simp
      moreover have "allocate_frames gb sb cnt a = Returns (None, a)"
        using None r(1) n(1) False assms(2) by (simp add: allocate_frames_def Let_def)
      ultimately show ?thesis by simp
    next
      case (Some e)
      with r(2) eq have "first_fit ?b cnt ?lo (e - cnt)" "cnt \<le> e" by (auto simp: first_fit_def)
      moreover from clear [OF this] obtain b' where b': "bitmap_set_range sb (e - cnt) e False ?b = Returns b'"
        "bitmap_len b' = bitmap_len ?b" "frame_set b' = frame_set ?b - {e - cnt..<e - cnt + cnt}" by blast
      moreover have "allocate_frames gb sb cnt a = Returns (Some ((e - cnt) * 4096),
          a\<lparr>usable_frames := usable_frames a - cnt, bitmap := b'\<rparr>)"
        using assms(2) n(1) r(1) Some False b'(1) by (simp add: allocate_frames_def Let_def)
      ultimately show ?thesis
        by (intro disjI1 exI [of _ "e - cnt"] exI conjI) (assumption | simp add: b')+
    qed
  qed
qed

end

section \<open>Single frames\<close>

lemma find_upt:
  "find P [lo..<hi] = None \<longleftrightarrow> (\<forall>i\<in>{lo..<hi}. \<not> P i)"
  "find P [lo..<hi] = Some n \<Longrightarrow> P n \<and> lo \<le> n \<and> n < hi \<and> (\<forall>i\<in>{lo..<n}. \<not> P i)"
proof -
  show "find P [lo..<hi] = None \<longleftrightarrow> (\<forall>i\<in>{lo..<hi}. \<not> P i)" by (auto simp: find_None_iff)
  assume "find P [lo..<hi] = Some n"
  then obtain i where i: "i < hi - lo" "P (lo + i)" "n = lo + i" "\<forall>j<i. \<not> P (lo + j)"
    by (auto simp: find_Some_iff)
  have "\<not> P k" if "k \<in> {lo..<n}" for k
  proof -
    from that i(3) have "k - lo < i" "k = lo + (k - lo)" by auto
    with i(4) show ?thesis by metis
  qed
  with i show "P n \<and> lo \<le> n \<and> n < hi \<and> (\<forall>i\<in>{lo..<n}. \<not> P i)" by auto
qed

text \<open>The frames \<open>allocate_frame\<close> can still reach: those at or above the cursor.\<close>

definition reachable_frames :: "frame_allocator \<Rightarrow> nat set" where
  "reachable_frames a = free_frames a \<inter> {next_frame a..<bitmap_len (bitmap a)}"

text \<open>The condition under which \<open>allocate_frame\<close> is right: the counter does not exceed the
  number of frames above the cursor, and the cursor stands on a free frame or at the end.\<close>

definition fa_inv :: "frame_allocator \<Rightarrow> bool" where
  "fa_inv a \<longleftrightarrow> usable_frames a \<le> card (reachable_frames a) \<and>
     (next_frame a < bitmap_len (bitmap a) \<longrightarrow> next_frame a \<in> free_frames a)"

context byte_bits
begin

lemma allocate_frame_step:
  assumes "usable_frames a \<noteq> 0" "next_frame a < 8 * bitmap_len (bitmap a)"
  shows "\<exists>a'. allocate_frame gb sb a = Returns (Some (next_frame a * 4096), a') \<and>
     free_frames a' = free_frames a - {next_frame a} \<and>
     bitmap_len (bitmap a') = bitmap_len (bitmap a) \<and>
     usable_frames a' = usable_frames a - 1 \<and>
     reachable_frames a' = free_frames a \<inter> {next_frame a + 1..<bitmap_len (bitmap a)} \<and>
     (next_frame a' < bitmap_len (bitmap a') \<longrightarrow> next_frame a' \<in> free_frames a') \<and>
     (bitmap_len (bitmap a) \<le> next_frame a + 1 \<longrightarrow> next_frame a' = bitmap_len (bitmap a))"
proof -
  obtain b where b: "bitmap_set sb (bitmap a) (next_frame a) False = Returns b"
    using assms(2) set_Returns_iff by blast
  note b' = set_spec [OF b, simplified]
  let ?find = "find (\<lambda>i. i \<in> frame_set b) [next_frame a + 1..<bitmap_len b]"
  let ?n = "case ?find of None \<Rightarrow> bitmap_len b | Some n \<Rightarrow> n"
  have find: "ofind (bitmap_get gb b) [next_frame a + 1..<bitmap_len b] = Returns ?find"
    by (rule ofind_total) (simp add: get_spec')
  let ?a = "\<lparr>bitmap = b, usable_frames = usable_frames a - 1, next_frame = ?n\<rparr>"
  have "allocate_frame gb sb a = Returns (Some (next_frame a * 4096), ?a)"
    using assms(1) b find by (simp add: allocate_frame_def)
  moreover have "reachable_frames ?a = free_frames a \<inter> {next_frame a + 1..<bitmap_len (bitmap a)}"
  proof (cases ?find)
    case None
    with find_upt(1) [of "\<lambda>i. i \<in> frame_set b" "next_frame a + 1" "bitmap_len b"] b'
    show ?thesis by (auto simp: reachable_frames_def)
  next
    case (Some n)
    from find_upt(2) [OF this] have "n \<in> frame_set b" "next_frame a + 1 \<le> n" "n < bitmap_len b"
      and gap: "\<And>i. i \<in> {next_frame a + 1..<n} \<Longrightarrow> i \<notin> frame_set b" by auto
    have "n \<le> i" if "i \<in> frame_set b" "next_frame a + 1 \<le> i" for i
      using gap [of i] that by (cases "n \<le> i") auto
    with \<open>next_frame a + 1 \<le> n\<close> have "frame_set b \<inter> {n..<bitmap_len b} = frame_set b \<inter> {next_frame a + 1..<bitmap_len b}"
      by fastforce
    moreover have "reachable_frames ?a = frame_set b \<inter> {n..<bitmap_len b}"
      unfolding reachable_frames_def Some by simp
    moreover have "frame_set b \<inter> {next_frame a + 1..<bitmap_len b} =
        free_frames a \<inter> {next_frame a + 1..<bitmap_len (bitmap a)}"
      unfolding b' by auto
    ultimately show ?thesis by simp
  qed
  moreover have "?n < bitmap_len b \<longrightarrow> ?n \<in> frame_set b"
  proof (cases ?find)
    case (Some n)
    from find_upt(2) [OF this] show ?thesis unfolding Some by simp
  qed simp
  ultimately show ?thesis using b' by (intro exI [of _ ?a] conjI impI) simp_all
qed

lemma fa_inv_reachable:
  assumes "fa_inv a" "usable_frames a \<noteq> 0"
  shows "next_frame a < bitmap_len (bitmap a)" "next_frame a \<in> free_frames a"
proof -
  from assms have "reachable_frames a \<noteq> {}" by (auto simp: fa_inv_def)
  then show "next_frame a < bitmap_len (bitmap a)" by (auto simp: reachable_frames_def)
  with assms show "next_frame a \<in> free_frames a" by (simp add: fa_inv_def)
qed

lemma allocate_frame_inv:
  assumes "fa_inv a" "usable_frames a \<noteq> 0"
  shows "\<exists>f a'. allocate_frame gb sb a = Returns (Some (f * 4096), a') \<and> f \<in> free_frames a \<and>
     free_frames a' = free_frames a - {f} \<and> fa_inv a' \<and> usable_frames a' = usable_frames a - 1"
proof -
  note nx = fa_inv_reachable [OF assms]
  then obtain a' where a': "allocate_frame gb sb a = Returns (Some (next_frame a * 4096), a')"
     "free_frames a' = free_frames a - {next_frame a}" "usable_frames a' = usable_frames a - 1"
     "reachable_frames a' = free_frames a \<inter> {next_frame a + 1..<bitmap_len (bitmap a)}"
     "next_frame a' < bitmap_len (bitmap a') \<longrightarrow> next_frame a' \<in> free_frames a'"
    using allocate_frame_step [of a] assms(2) by auto
  have "reachable_frames a = insert (next_frame a) (reachable_frames a')"
    unfolding a'(4) using nx by (auto simp: reachable_frames_def [of a])
  moreover have "finite (reachable_frames a')" "next_frame a \<notin> reachable_frames a'"
    by (auto simp: a'(4))
  ultimately have "card (reachable_frames a) = Suc (card (reachable_frames a'))" by simp
  with assms(1) a'(3,5) have "fa_inv a'" by (auto simp: fa_inv_def)
  with a' nx(2) show ?thesis by blast
qed

end

text \<open>What the users of single frames rely on.\<close>

locale frame_source =
  fixes alloc :: "'s \<Rightarrow> (nat option \<times> 's) outcome"
    and free :: "'s \<Rightarrow> nat set"
    and left :: "'s \<Rightarrow> nat"
    and inv :: "'s \<Rightarrow> bool"
  assumes alloc_some: "inv s \<Longrightarrow> left s \<noteq> 0 \<Longrightarrow>
      \<exists>f s'. alloc s = Returns (Some (f * 4096), s') \<and> f \<in> free s \<and> free s' = free s - {f} \<and>
        inv s' \<and> left s' = left s - 1"
    and alloc_none: "inv s \<Longrightarrow> left s = 0 \<Longrightarrow> alloc s = Returns (None, s)"
begin

lemma alloc_cases:
  assumes "inv s"
  obtains (some) f s' where "alloc s = Returns (Some (f * 4096), s')" "f \<in> free s" "free s' = free s - {f}"
      "inv s'" "left s = Suc (left s')"
    | (none) "alloc s = Returns (None, s)" "left s = 0"
proof (cases "left s")
  case 0
  with alloc_none [OF assms] none show thesis by blast
next
  case (Suc n)
  with alloc_some [OF assms] obtain f s' where "alloc s = Returns (Some (f * 4096), s')" "f \<in> free s"
    "free s' = free s - {f}" "inv s'" "left s' = left s - 1" by auto
  with Suc show thesis by (intro some [of f s']) auto
qed

end

lemma allocate_frame_source:
  assumes "byte_bits gb sb"
  shows "frame_source (allocate_frame gb sb) (\<lambda>a. frame_set (bitmap a)) usable_frames fa_inv"
proof
  fix s
  assume "fa_inv s" "usable_frames s \<noteq> 0"
  then show "\<exists>f s'. allocate_frame gb sb s = Returns (Some (f * 4096), s') \<and> f \<in> frame_set (bitmap s) \<and>
      frame_set (bitmap s') = frame_set (bitmap s) - {f} \<and> fa_inv s' \<and> usable_frames s' = usable_frames s - 1"
    by (rule byte_bits.allocate_frame_inv [OF assms])
qed (simp add: allocate_frame_def)

sublocale byte_bits \<subseteq> bfa: frame_source "allocate_frame gb sb" "\<lambda>a. frame_set (bitmap a)" usable_frames fa_inv
  by (rule allocate_frame_source) (rule byte_bits_axioms)

section \<open>Initialisation\<close>

definition region_frames :: "region \<Rightarrow> nat set" where
  "region_frames r = {base r div 4096..<base r div 4096 + len r div 4096}"

definition map_bytes :: "region list \<Rightarrow> nat" where
  "map_bytes entries = div_ceil ((base (last entries) + len (last entries)) div 4096) 8"

definition storage_frames :: "region \<Rightarrow> nat \<Rightarrow> nat set" where
  "storage_frames r bytes = {base r div 4096..<base r div 4096 + div_ceil bytes 4096}"

context byte_bits
begin

lemma add_region_Returns:
  assumes "add_region sb r (b, u, n) = Returns t"
  shows "\<exists>b1. bitmap_set_range sb (base r div 4096) (base r div 4096 + len r div 4096) True b = Returns b1 \<and>
     t = (b1, u + len r div 4096, min n (base r div 4096))"
  using assms by (auto simp: add_region_def Let_def outcome_simps)

lemma add_regions_spec:
  assumes "ofold (add_region sb) rs (b, u, n) = Returns (b', u', n')"
  shows "bitmap_len b' = bitmap_len b \<and> frame_set b' = frame_set b \<union> (\<Union>r\<in>set rs. region_frames r) \<and>
     u' = u + (\<Sum>r\<leftarrow>rs. len r div 4096)"
  using assms
proof (induction rs arbitrary: b u n)
  case (Cons r rs)
  then obtain b1 n1 where
    b1: "bitmap_set_range sb (base r div 4096) (base r div 4096 + len r div 4096) True b = Returns b1"
    and rest: "ofold (add_region sb) rs (b1, u + len r div 4096, n1) = Returns (b', u', n')"
    by (auto simp: outcome_simps dest: add_region_Returns)
  show ?case using Cons.IH [OF rest] set_range_spec [OF b1] by (auto simp: region_frames_def)
qed simp

lemma init_spec:
  assumes "init sb raw hhdm entries = Returns a"
  shows "\<exists>r. find (\<lambda>r. map_bytes entries \<le> len r) (filter usable entries) = Some r \<and>
     length (inner (bitmap a)) = map_bytes entries \<and>
     free_frames a = (\<Union>r\<in>set (filter usable entries). region_frames r) - storage_frames r (map_bytes entries) \<and>
     usable_frames a + div_ceil (map_bytes entries) 4096 = (\<Sum>r\<leftarrow>filter usable entries. len r div 4096)"
proof -
  have ne: "entries \<noteq> []" using assms by (auto simp: init_def)
  with assms obtain r va b u n b2 where
    r: "find (\<lambda>r. map_bytes entries \<le> len r) (filter usable entries) = Some r"
    and regions: "ofold (add_region sb) (filter usable entries)
        (bitmap_new (map raw [va..<va + map_bytes entries]), 0, usize_max) = Returns (b, u, n)"
    and u: "div_ceil (map_bytes entries) 4096 \<le> u"
    and b2: "bitmap_set_range sb (base r div 4096) (base r div 4096 + div_ceil (map_bytes entries) 4096)
        False b = Returns b2"
    and a: "bitmap a = b2" "usable_frames a = u - div_ceil (map_bytes entries) 4096"
    by (auto simp: init_def Let_def outcome_simps map_bytes_def)
  from add_regions_spec [OF regions] set_range_spec [OF b2] u show ?thesis
    by (intro exI [of _ r]) (simp add: r a storage_frames_def bitmap_len_def [symmetric])
qed

lemma deallocate_frames_spec:
  assumes "deallocate_frames sb (s * 4096) cnt a = Returns a'"
  shows "free_frames a' = free_frames a \<union> {s..s + cnt}" "usable_frames a' = usable_frames a + cnt"
    "next_frame a' = next_frame a"
proof -
  from assms obtain b where b: "bitmap_set_range sb s (s + cnt + 1) True (bitmap a) = Returns b"
    and a': "a' = a\<lparr>usable_frames := usable_frames a + cnt, bitmap := b\<rparr>"
    by (auto simp: deallocate_frames_def Let_def outcome_simps)
  show "free_frames a' = free_frames a \<union> {s..s + cnt}"
    using set_range_spec(2) [OF b] by (simp add: a' atLeastLessThanSuc_atLeastAtMost)
qed (use assms in \<open>auto simp: deallocate_frames_def Let_def outcome_simps\<close>)

lemma deallocate_frame_spec:
  assumes "deallocate_frame sb p a = Returns a'"
  shows "free_frames a' = insert (p div 4096) (free_frames a)" "usable_frames a' = usable_frames a + 1"
    "next_frame a' = next_frame a" "bitmap_len (bitmap a') = bitmap_len (bitmap a)"
proof -
  from assms obtain b where b: "bitmap_set sb (bitmap a) (p div 4096) True = Returns b"
    and a': "a' = a\<lparr>bitmap := b, usable_frames := usable_frames a + 1\<rparr>"
    by (auto simp: deallocate_frame_def Let_def outcome_simps)
  show "free_frames a' = insert (p div 4096) (free_frames a)" "bitmap_len (bitmap a') = bitmap_len (bitmap a)"
    using set_spec [OF b] by (simp_all add: a')
  show "usable_frames a' = usable_frames a + 1" "next_frame a' = next_frame a" by (simp_all add: a')
qed

end

section \<open>Properties\<close>

text \<open>C1. \<open>allocate_frames\<close> never panics and is a first-fit allocator over the part of the
  bitmap below \<open>bitmap.len()\<close>: with enough frames counted it returns the lowest run of
  \<open>cnt\<close> free frames at or above the cursor, clears exactly those bits and lowers the counter;
  when no such run exists it returns \<open>None\<close> and leaves the allocator as it was.\<close>

theorem allocate_frames_first_fit:
  assumes "byte_bits gb sb" "0 < cnt"
  shows "\<exists>r a'. allocate_frames gb sb cnt a = Returns (r, a') \<and>
     (case r of
        None \<Rightarrow> a' = a \<and> (usable_frames a < cnt \<or> (\<forall>s. \<not> fits (bitmap a) cnt (next_frame a) s))
      | Some addr \<Rightarrow> \<exists>s. addr = s * 4096 \<and> first_fit (bitmap a) cnt (next_frame a) s \<and>
          free_frames a' = free_frames a - {s..<s + cnt} \<and> usable_frames a' = usable_frames a - cnt)"
proof (cases "cnt \<le> usable_frames a")
  case True
  from byte_bits.allocate_frames_spec [OF assms this] show ?thesis
  proof (elim disjE exE conjE)
    fix s a'
    assume "allocate_frames gb sb cnt a = Returns (Some (s * 4096), a')"
      "first_fit (bitmap a) cnt (next_frame a) s" "free_frames a' = free_frames a - {s..<s + cnt}"
      "usable_frames a' = usable_frames a - cnt"
    then show ?thesis by (intro exI [of _ "Some (s * 4096)"] exI [of _ a']) auto
  next
    assume "allocate_frames gb sb cnt a = Returns (None, a)" "\<forall>s. \<not> fits (bitmap a) cnt (next_frame a) s"
    then show ?thesis by (intro exI [of _ None] exI [of _ a]) auto
  qed
next
  case False
  then show ?thesis by (intro exI [of _ None] exI [of _ a]) (simp add: allocate_frames_def)
qed

definition sample_alloc :: frame_allocator where
  "sample_alloc = \<lparr>bitmap = \<lparr>inner = [0xD6, 0, 0, 0, 0, 0, 0, 0]\<rparr>, usable_frames = 5, next_frame = 1\<rparr>"

lemma byte_bits_word: "byte_bits word_get_bit word_set_bit"
  by (rule byte_word.byte_bits_axioms)

theorem allocate_frames_first_fit_witness:
  "\<exists>r a'. allocate_frames word_get_bit word_set_bit 2 sample_alloc = Returns (r, a') \<and>
     (case r of
        None \<Rightarrow> a' = sample_alloc \<and> (usable_frames sample_alloc < 2 \<or>
          (\<forall>s. \<not> fits (bitmap sample_alloc) 2 (next_frame sample_alloc) s))
      | Some addr \<Rightarrow> \<exists>s. addr = s * 4096 \<and>
          first_fit (bitmap sample_alloc) 2 (next_frame sample_alloc) s \<and>
          free_frames a' = free_frames sample_alloc - {s..<s + 2} \<and>
          usable_frames a' = usable_frames sample_alloc - 2)"
  by (rule allocate_frames_first_fit [OF byte_bits_word]) simp

text \<open>C2. Under \<open>fa_inv\<close>, \<open>allocate_frame\<close> hands out a frame that was free, marks it
  used, counts it and keeps \<open>fa_inv\<close>, as long as the counter is not zero; at zero it returns
  \<open>None\<close> and changes nothing.  So no frame is handed out twice.\<close>

theorem allocate_frame_safe:
  assumes "byte_bits gb sb" "fa_inv a"
  shows "if usable_frames a = 0 then allocate_frame gb sb a = Returns (None, a)
     else \<exists>f a'. allocate_frame gb sb a = Returns (Some (f * 4096), a') \<and> f \<in> free_frames a \<and>
       free_frames a' = free_frames a - {f} \<and> usable_frames a' = usable_frames a - 1 \<and> fa_inv a'"
proof (cases "usable_frames a = 0")
  case False
  with byte_bits.allocate_frame_inv [OF assms] show ?thesis by auto
qed (simp add: allocate_frame_def)

lemma sample_alloc_frames: "free_frames sample_alloc = {1, 2, 4, 6, 7}"
proof -
  have "i \<in> free_frames sample_alloc \<longleftrightarrow> i \<in> {1, 2, 4, 6, 7}" for i
  proof (cases "i < 8")
    case True
    then consider "i = 0" | "i = 1" | "i = 2" | "i = 3" | "i = 4" | "i = 5" | "i = 6" | "i = 7" by linarith
    then show ?thesis by cases (simp_all add: frame_set_def sample_alloc_def)
  next
    case False
    then have "i \<notin> free_frames sample_alloc"
      by (auto simp: frame_set_def sample_alloc_def nth_Cons' )
    with False show ?thesis by auto
  qed
  then show ?thesis by blast
qed

lemma sample_alloc_inv: "fa_inv sample_alloc"
proof -
  have "reachable_frames sample_alloc = {1, 2, 4, 6, 7}"
    unfolding reachable_frames_def sample_alloc_frames by (auto simp: sample_alloc_def bitmap_len_def)
  then show ?thesis unfolding fa_inv_def sample_alloc_frames by (simp add: sample_alloc_def)
qed

text \<open>An allocator that has every frame but frame 0, with as many of them counted as the bitmap has further bytes.\<close>

definition full_alloc :: "nat \<Rightarrow> frame_allocator" where
  "full_alloc n = \<lparr>bitmap = \<lparr>inner = 0xFE # replicate n 0xFF\<rparr>, usable_frames = n, next_frame = 1\<rparr>"

lemma full_alloc_frames: "free_frames (full_alloc n) = {1..<8 * Suc n}"
proof -
  have first: "bit (0xFE :: u8) j \<longleftrightarrow> j \<noteq> 0" and rest: "bit (0xFF :: u8) j" if "j < 8" for j
    using that by (auto simp: less_Suc_eq numeral_eq_Suc)
  have "i \<in> free_frames (full_alloc n) \<longleftrightarrow> i \<in> {1..<8 * Suc n}" for i
  proof (cases "i < 8")
    case True
    then show ?thesis using first [of i] by (auto simp: frame_set_def full_alloc_def)
  next
    case False
    then have "i div 8 \<noteq> 0" by (simp add: div_eq_0_iff)
    moreover have "i div 8 - 1 < n" if "i < 8 * Suc n" using that False by (simp add: less_mult_imp_div_less)
    ultimately show ?thesis using False rest [of "i mod 8"] by (auto simp: frame_set_def full_alloc_def nth_Cons')
  qed
  then show ?thesis by blast
qed

lemma full_alloc_inv: "fa_inv (full_alloc n)"
proof -
  have "reachable_frames (full_alloc n) = {1..<Suc n}"
    unfolding reachable_frames_def full_alloc_frames by (auto simp: full_alloc_def bitmap_len_def)
  then show ?thesis unfolding fa_inv_def full_alloc_frames by (simp add: full_alloc_def bitmap_len_def)
qed

theorem allocate_frame_safe_witness:
  "if usable_frames sample_alloc = 0
     then allocate_frame word_get_bit word_set_bit sample_alloc = Returns (None, sample_alloc)
     else \<exists>f a'. allocate_frame word_get_bit word_set_bit sample_alloc = Returns (Some (f * 4096), a') \<and>
       f \<in> free_frames sample_alloc \<and> free_frames a' = free_frames sample_alloc - {f} \<and>
       usable_frames a' = usable_frames sample_alloc - 1 \<and> fa_inv a'"
  by (rule allocate_frame_safe [OF byte_bits_word sample_alloc_inv])

text \<open>After \<open>init\<close>, the free frames are exactly the frames of the usable regions of
  the memory map without the frames that hold the bitmap itself, the counter is the number of
  usable pages less those frames, and the bitmap has one bit for every frame below the end of the last
  entry.\<close>

lemma init_free_frames:
  assumes "byte_bits gb sb" "init sb raw hhdm entries = Returns a"
  shows "\<exists>r. find (\<lambda>r. map_bytes entries \<le> len r) (filter usable entries) = Some r \<and>
     (base (last entries) + len (last entries)) div 4096 \<le> 8 * length (inner (bitmap a)) \<and>
     free_frames a = (\<Union>r\<in>set (filter usable entries). region_frames r) - storage_frames r (map_bytes entries) \<and>
     usable_frames a + div_ceil (map_bytes entries) 4096 = (\<Sum>r\<leftarrow>filter usable entries. len r div 4096)"
proof -
  have "(base (last entries) + len (last entries)) div 4096 \<le> 8 * map_bytes entries"
    using div_ceil_le_mult [of 8] by (simp add: map_bytes_def mult.commute)
  with byte_bits.init_spec [OF assms] show ?thesis by auto
qed

definition sample_map :: "region list" where
  "sample_map = [\<lparr>base = 0, len = 65536, usable = True\<rparr>]"

definition sample_booted :: frame_allocator where
  "sample_booted = \<lparr>bitmap = \<lparr>inner = [0xFE, 0xFF]\<rparr>, usable_frames = 15, next_frame = 2\<rparr>"

lemmas bitmap_eval = bitmap_set_range_def bitmap_set_def bitmap_get_def word_set_bit_def word_get_bit_def
  bitmap_new_def bitmap_len_def

lemma sample_booted_init:
  "init word_set_bit (\<lambda>_. 0xAA) 0x1000000 sample_map = Returns sample_booted"
  by (simp add: init_def sample_map_def sample_booted_def div_ceil_def uadd_def usub_def usize_max_def
      phys_addr_new_def convert_physical_to_virtual_def virt_addr_new_def canonical_def
      add_region_def bitmap_eval rust_assert_def upt_rec)

lemma init_free_frames_example:
  "\<exists>r. find (\<lambda>r. map_bytes sample_map \<le> len r) (filter usable sample_map) = Some r \<and>
     (base (last sample_map) + len (last sample_map)) div 4096 \<le> 8 * length (inner (bitmap sample_booted)) \<and>
     free_frames sample_booted =
       (\<Union>r\<in>set (filter usable sample_map). region_frames r) - storage_frames r (map_bytes sample_map) \<and>
     usable_frames sample_booted + div_ceil (map_bytes sample_map) 4096 =
       (\<Sum>r\<leftarrow>filter usable sample_map. len r div 4096)"
  by (rule init_free_frames [OF byte_bits_word sample_booted_init])

text \<open>C37. \<open>Bitmap::len\<close> is the number of bytes of the bitmap but \<open>allocate_frame\<close> uses
  it as the number of frames.  Once the cursor has reached it, with at least two frames counted as
  usable, two consecutive calls return the same frame.\<close>

theorem allocate_frame_repeats:
  assumes "byte_bits gb sb" "next_frame a = bitmap_len (bitmap a)" "0 < bitmap_len (bitmap a)"
    and "2 \<le> usable_frames a"
  shows "\<exists>a1 a2. allocate_frame gb sb a = Returns (Some (bitmap_len (bitmap a) * 4096), a1) \<and>
     allocate_frame gb sb a1 = Returns (Some (bitmap_len (bitmap a) * 4096), a2)"
proof -
  from assms byte_bits.allocate_frame_step [OF assms(1), of a] obtain a1 where
    a1: "allocate_frame gb sb a = Returns (Some (bitmap_len (bitmap a) * 4096), a1)"
      "bitmap_len (bitmap a1) = bitmap_len (bitmap a)" "usable_frames a1 = usable_frames a - 1"
      "next_frame a1 = bitmap_len (bitmap a)"
    by auto
  from assms a1 byte_bits.allocate_frame_step [OF assms(1), of a1] obtain a2 where
    "allocate_frame gb sb a1 = Returns (Some (bitmap_len (bitmap a) * 4096), a2)"
    by auto
  with a1(1) show ?thesis by blast
qed

text \<open>The state just after booting on a memory map of sixteen usable pages is such a state: the
  bitmap has two bytes and the cursor is at frame 2.\<close>

theorem allocate_frame_repeats_witness:
  "init word_set_bit (\<lambda>_. 0xAA) 0x1000000 sample_map = Returns sample_booted \<and>
   (\<exists>a1 a2. allocate_frame word_get_bit word_set_bit sample_booted = Returns (Some 8192, a1) \<and>
     allocate_frame word_get_bit word_set_bit a1 = Returns (Some 8192, a2))"
  using sample_booted_init allocate_frame_repeats [OF byte_bits_word, of sample_booted]
  by (simp add: sample_booted_def bitmap_len_def)

text \<open>C38. \<open>deallocate_frames\<close> walks the inclusive range \<open>start..=start+cnt\<close>: giving a
  run back to the allocator that handed it out also marks the frame after the run as free, while the
  counter is restored exactly.\<close>

theorem allocate_deallocate_frames:
  assumes "byte_bits gb sb" "0 < cnt" "allocate_frames gb sb cnt a = Returns (Some addr, a1)"
    and "deallocate_frames sb addr cnt a1 = Returns a2"
  shows "\<exists>s. addr = s * 4096 \<and> free_frames a2 = insert (s + cnt) (free_frames a) \<and>
     usable_frames a2 = usable_frames a"
proof -
  have "cnt \<le> usable_frames a" using assms(3) by (auto simp: allocate_frames_def split: if_splits)
  with byte_bits.allocate_frames_spec [OF assms(1,2)] assms(3) obtain s where
    s: "addr = s * 4096" "first_fit (bitmap a) cnt (next_frame a) s"
      "free_frames a1 = free_frames a - {s..<s + cnt}" "usable_frames a1 = usable_frames a - cnt"
    by fastforce
  note d = byte_bits.deallocate_frames_spec [OF assms(1) assms(4) [unfolded s(1)]]
  have "{s..<s + cnt} \<subseteq> free_frames a" using s(2) by (simp add: first_fit_def fits_def)
  moreover have "{s..s + cnt} = insert (s + cnt) {s..<s + cnt}" by auto
  ultimately have "free_frames a2 = insert (s + cnt) (free_frames a)" unfolding d(1) s(3) by blast
  with s d(2) \<open>cnt \<le> usable_frames a\<close> show ?thesis by simp
qed

definition sample_taken :: frame_allocator where
  "sample_taken = \<lparr>bitmap = \<lparr>inner = [0xD0, 0, 0, 0, 0, 0, 0, 0]\<rparr>, usable_frames = 3, next_frame = 3\<rparr>"

definition sample_given :: frame_allocator where
  "sample_given = \<lparr>bitmap = \<lparr>inner = [0xDE, 0, 0, 0, 0, 0, 0, 0]\<rparr>, usable_frames = 5, next_frame = 3\<rparr>"

lemma sample_taken_eval:
  "allocate_frames word_get_bit word_set_bit 2 sample_alloc = Returns (Some 4096, sample_taken)"
  by (simp add: allocate_frames_def sample_alloc_def sample_taken_def count_run.simps bitmap_eval upt_rec)

lemma sample_given_eval: "deallocate_frames word_set_bit 4096 2 sample_taken = Returns sample_given"
  by (simp add: deallocate_frames_def sample_taken_def sample_given_def uadd_def usize_max_def bitmap_eval upt_rec)

theorem allocate_deallocate_frames_witness:
  "allocate_frames word_get_bit word_set_bit 2 sample_alloc = Returns (Some 4096, sample_taken) \<and>
   deallocate_frames word_set_bit 4096 2 sample_taken = Returns sample_given \<and>
   (\<exists>s. 4096 = s * 4096 \<and> free_frames sample_given = insert (s + 2) (free_frames sample_alloc) \<and>
     usable_frames sample_given = usable_frames sample_alloc)"
  using sample_taken_eval sample_given_eval
    allocate_deallocate_frames [OF byte_bits_word _ sample_taken_eval sample_given_eval]
  by simp

end
