(* ===== verification/PageTable.thy ===== *)
theory PageTable
  imports Frame
begin

text \<open>Page tables of the kernel and of the processes, \<open>kernel/src/memory/page_table.rs\<close>, and
  the flags of \<open>kernel/src/memory/manager.rs\<close>.

  Page table memory is a function from the physical address of a table and an index to an entry.  The
  entries are those of the x86_64 crate, which is not part of the repository: the record \<open>pte_api\<close>
  holds the accessors the kernel calls and the locale \<open>pte_ops\<close> states their documented
  behaviour.  The flags of an entry are a set of bit positions.

  \<open>walk\<close> is the translation the processor performs.  The lemmas show that \<open>deep_copy\<close>
  produces a table with the same translations that shares only leaf frames with its source, and which
  frames \<open>free_user_page_table\<close> gives back.\<close>

section \<open>Entries and flags\<close>

type_synonym page_flag = nat

abbreviation (input) PRESENT :: page_flag where "PRESENT \<equiv> 0"
abbreviation (input) WRITABLE :: page_flag where "WRITABLE \<equiv> 1"
abbreviation (input) USER_ACCESSIBLE :: page_flag where "USER_ACCESSIBLE \<equiv> 2"
abbreviation (input) HUGE_PAGE :: page_flag where "HUGE_PAGE \<equiv> 7"
abbreviation (input) NO_EXECUTE :: page_flag where "NO_EXECUTE \<equiv> 63"

datatype mapping_type = UserCode | KernelData | UserData

fun mapping_flags :: "mapping_type \<Rightarrow> page_flag set" where
  "mapping_flags UserCode = {PRESENT, WRITABLE, USER_ACCESSIBLE}"
| "mapping_flags KernelData = {PRESENT, WRITABLE, NO_EXECUTE}"
| "mapping_flags UserData = {PRESENT, WRITABLE, USER_ACCESSIBLE, NO_EXECUTE}"

definition contains :: "page_flag set \<Rightarrow> page_flag set \<Rightarrow> bool" where
  "contains fl other \<longleftrightarrow> other \<subseteq> fl"

text \<open>\<open>PageTableEntry\<close>: \<open>is_unused\<close>, \<open>flags\<close>, \<open>addr\<close>,
  \<open>set_addr\<close> and \<open>frame\<close> (the start address of the frame, or an error for an entry that
  is not present or huge).\<close>

record 'e pte_api =
  is_unused :: "'e \<Rightarrow> bool"
  flags :: "'e \<Rightarrow> page_flag set"
  addr :: "'e \<Rightarrow> nat"
  set_addr :: "nat \<Rightarrow> page_flag set \<Rightarrow> 'e"
  entry_frame :: "'e \<Rightarrow> nat option"

type_synonym 'e table_mem = "nat \<Rightarrow> nat \<Rightarrow> 'e"

definition set_entry :: "nat \<Rightarrow> nat \<Rightarrow> 'e \<Rightarrow> 'e table_mem \<Rightarrow> 'e table_mem" where
  "set_entry t i e mem = mem(t := (mem t)(i := e))"

section \<open>Copying a page table\<close>

definition new_from_allocate :: "('s \<Rightarrow> (nat option \<times> 's) outcome) \<Rightarrow> 's \<Rightarrow> (nat \<times> 's) outcome" where
  "new_from_allocate alloc s =
     obind (alloc s) (\<lambda>(r, s). case r of None \<Rightarrow> Panics | Some page_table_address \<Rightarrow> Returns (page_table_address, s))"

primrec new_from_recursion :: "'e pte_api \<Rightarrow> ('s \<Rightarrow> (nat option \<times> 's) outcome) \<Rightarrow> nat \<Rightarrow> nat \<Rightarrow> nat
    \<Rightarrow> 's \<times> 'e table_mem \<Rightarrow> ('s \<times> 'e table_mem) outcome" where
  "new_from_recursion P alloc 0 source target st =
     ofold (\<lambda>index (s, mem). let entry = mem source index in
       if is_unused P entry \<or> contains (flags P entry) {HUGE_PAGE}
       then Returns (s, set_entry target index (set_addr P (addr P entry) (flags P entry)) mem)
       else Panics) [0..<512] st"
| "new_from_recursion P alloc (Suc l) source target st =
     ofold (\<lambda>index (s, mem). let entry = mem source index in
       if l = 0 \<or> is_unused P entry \<or> contains (flags P entry) {HUGE_PAGE}
       then Returns (s, set_entry target index (set_addr P (addr P entry) (flags P entry)) mem)
       else obind (new_from_allocate alloc s) (\<lambda>(new_page_table, s).
         new_from_recursion P alloc l (addr P entry) new_page_table
           (s, set_entry target index (set_addr P new_page_table (flags P entry)) mem))) [0..<512] st"

definition deep_copy :: "'e pte_api \<Rightarrow> ('s \<Rightarrow> (nat option \<times> 's) outcome) \<Rightarrow> nat \<Rightarrow> 's \<times> 'e table_mem
    \<Rightarrow> (nat \<times> 's \<times> 'e table_mem) outcome" where
  "deep_copy P alloc source st = (case st of (s, mem) \<Rightarrow>
     obind (new_from_allocate alloc s) (\<lambda>(new_page_table, s).
     obind (new_from_recursion P alloc 4 source new_page_table (s, mem)) (\<lambda>st.
     Returns (new_page_table, st))))"

section \<open>Freeing a page table\<close>

primrec free_pages_recursion :: "'e pte_api \<Rightarrow> set_bit_fn \<Rightarrow> 'e table_mem \<Rightarrow> nat \<Rightarrow> nat
    \<Rightarrow> frame_allocator \<Rightarrow> frame_allocator outcome" where
  "free_pages_recursion P sb mem 0 physical_address a = deallocate_frame sb physical_address a"
| "free_pages_recursion P sb mem (Suc l) physical_address a =
     obind (ofold (\<lambda>index a. let entry = mem physical_address index in
         if is_unused P entry then Returns a
         else if l = 0 \<or> contains (flags P entry) {HUGE_PAGE} then
           (if contains (flags P entry) (mapping_flags UserCode) then
              (case entry_frame P entry of None \<Rightarrow> Returns a | Some f \<Rightarrow> deallocate_frame sb f a)
            else Returns a)
         else free_pages_recursion P sb mem l (addr P entry) a) [0..<512] a)
       (deallocate_frame sb physical_address)"

definition free_user_page_table :: "'e pte_api \<Rightarrow> set_bit_fn \<Rightarrow> 'e table_mem \<Rightarrow> nat
    \<Rightarrow> frame_allocator \<Rightarrow> frame_allocator outcome" where
  "free_user_page_table P sb mem physical_address a = free_pages_recursion P sb mem 4 physical_address a"

section \<open>Translation\<close>

text \<open>The processor's walk from a table of level \<open>l\<close>: the address of the leaf and the flags of
  the entries on the way.\<close>

fun walk :: "'e pte_api \<Rightarrow> 'e table_mem \<Rightarrow> nat \<Rightarrow> nat \<Rightarrow> nat list \<Rightarrow> (nat \<times> page_flag set list) option" where
  "walk P mem (Suc l) t (i # is) =
     (let e = mem t i in
      if PRESENT \<notin> flags P e then None
      else if l = 0 \<or> HUGE_PAGE \<in> flags P e then Some (addr P e, [flags P e])
      else map_option (\<lambda>(a, fs). (a, flags P e # fs)) (walk P mem l (addr P e) is))"
| "walk P mem _ t _ = None"

text \<open>An entry that refers to a further table, and the tables below a table.\<close>

definition points :: "'e pte_api \<Rightarrow> nat \<Rightarrow> 'e \<Rightarrow> bool" where
  "points P l e \<longleftrightarrow> l \<noteq> 0 \<and> \<not> is_unused P e \<and> HUGE_PAGE \<notin> flags P e"

primrec tables :: "'e pte_api \<Rightarrow> 'e table_mem \<Rightarrow> nat \<Rightarrow> nat \<Rightarrow> nat set" where
  "tables P mem 0 t = {t}"
| "tables P mem (Suc l) t = insert t (\<Union>i\<in>{i. i < 512 \<and> points P l (mem t i)}. tables P mem l (addr P (mem t i)))"

text \<open>How many tables a copy allocates.\<close>

primrec copies :: "'e pte_api \<Rightarrow> 'e table_mem \<Rightarrow> nat \<Rightarrow> nat \<Rightarrow> nat" where
  "copies P mem 0 t = 0"
| "copies P mem (Suc l) t =
     (\<Sum>i\<leftarrow>[0..<512]. if points P l (mem t i) then Suc (copies P mem l (addr P (mem t i))) else 0)"

text \<open>The leaf frames with the flags of user code: those \<open>free_pages_recursion\<close> frees.\<close>

primrec user_leaves :: "'e pte_api \<Rightarrow> 'e table_mem \<Rightarrow> nat \<Rightarrow> nat \<Rightarrow> nat set" where
  "user_leaves P mem 0 t = {}"
| "user_leaves P mem (Suc l) t =
     (\<Union>i\<in>{i. i < 512}. if points P l (mem t i) then user_leaves P mem l (addr P (mem t i))
       else if \<not> is_unused P (mem t i) \<and> contains (flags P (mem t i)) (mapping_flags UserCode)
       then set_option (entry_frame P (mem t i)) else {})"

section \<open>The contract of page table entries\<close>

locale pte_ops =
  fixes P :: "'e pte_api"
  assumes set_addr_copy [simp]: "set_addr P (addr P e) (flags P e) = e"
    and addr_set_addr [simp]: "addr P (set_addr P (f * 4096) fl) = f * 4096"
    and flags_set_addr [simp]: "flags P (set_addr P (f * 4096) fl) = fl"
    and unused_flags: "is_unused P e \<Longrightarrow> flags P e = {}"
    and unused_set_addr: "PRESENT \<in> fl \<Longrightarrow> \<not> is_unused P (set_addr P (f * 4096) fl)"
    and entry_frame: "entry_frame P e =
      (if PRESENT \<in> flags P e \<and> HUGE_PAGE \<notin> flags P e then Some (addr P e) else None)"
begin

lemma tables_self [simp]: "t \<in> tables P mem l t"
  by (cases l) simp_all

lemma tables_sub:
  "i < 512 \<Longrightarrow> points P l (mem t i) \<Longrightarrow> tables P mem l (addr P (mem t i)) \<subseteq> tables P mem (Suc l) t"
  by auto

lemma tables_cong:
  "(\<And>t'. t' \<in> tables P mem l t \<Longrightarrow> mem' t' = mem t') \<Longrightarrow> tables P mem' l t = tables P mem l t"
proof (induction l arbitrary: t)
  case (Suc l)
  have "mem' t = mem t" by (rule Suc.prems) simp
  moreover have "tables P mem' l (addr P (mem t i)) = tables P mem l (addr P (mem t i))"
    if "i < 512" "points P l (mem t i)" for i
    using that tables_sub [of i l mem t] by (intro Suc) blast
  ultimately show ?case by simp
qed simp

lemma copies_cong:
  "(\<And>t'. t' \<in> tables P mem l t \<Longrightarrow> mem' t' = mem t') \<Longrightarrow> copies P mem' l t = copies P mem l t"
proof (induction l arbitrary: t)
  case (Suc l)
  have same: "mem' t = mem t" by (rule Suc.prems) simp
  have "copies P mem' l (addr P (mem t i)) = copies P mem l (addr P (mem t i))"
    if "i < 512" "points P l (mem t i)" for i
    using that tables_sub [of i l mem t] by (intro Suc) blast
  then show ?case by (simp only: copies.simps same) (intro arg_cong [where f = sum_list] map_cong, auto)
qed simp

lemma present_points:
  "PRESENT \<in> flags P e \<Longrightarrow> HUGE_PAGE \<notin> flags P e \<Longrightarrow> l \<noteq> 0 \<Longrightarrow> points P l e"
  using unused_flags [of e] by (auto simp: points_def)

lemma walk_cong:
  assumes "\<And>t'. t' \<in> tables P mem l t \<Longrightarrow> mem' t' = mem t'" "\<forall>i\<in>set is. i < 512"
  shows "walk P mem' l t is = walk P mem l t is"
  using assms
proof (induction l arbitrary: t "is")
  case (Suc l)
  show ?case
  proof (cases "is")
    case (Cons i js)
    have same: "mem' t = mem t" by (rule Suc.prems(1)) simp
    show ?thesis
    proof (cases "points P l (mem t i)")
      case True
      have "walk P mem' l (addr P (mem t i)) js = walk P mem l (addr P (mem t i)) js"
        using Suc.prems Cons True tables_sub [of i l mem t] by (intro Suc.IH) auto
      then show ?thesis by (simp add: Cons same Let_def)
    next
      case False
      then have "PRESENT \<notin> flags P (mem t i) \<or> l = 0 \<or> HUGE_PAGE \<in> flags P (mem t i)"
        using present_points by blast
      then show ?thesis by (auto simp: Cons same Let_def)
    qed
  qed simp
qed simp

lemma walk_user_leaf:
  "walk P mem l t is = Some (a, fs) \<Longrightarrow> \<forall>i\<in>set is. i < 512 \<Longrightarrow> contains (last fs) (mapping_flags UserCode) \<Longrightarrow>
     HUGE_PAGE \<notin> last fs \<Longrightarrow> a \<in> user_leaves P mem l t"
proof (induction l arbitrary: t "is" fs)
  case (Suc l)
  then obtain i js where i: "is = i # js" "i < 512" by (cases "is") auto
  let ?e = "mem t i"
  have present: "PRESENT \<in> flags P ?e" using Suc.prems(1) i by (auto simp: Let_def split: if_splits)
  show ?case
  proof (cases "l = 0 \<or> HUGE_PAGE \<in> flags P ?e")
    case True
    with present Suc.prems i have "a = addr P ?e" "fs = [flags P ?e]" by (auto simp: Let_def)
    with Suc.prems present True have "a \<in> set_option (entry_frame P ?e)"
      "contains (flags P ?e) (mapping_flags UserCode)" "\<not> is_unused P ?e" "\<not> points P l ?e"
      using unused_flags [of ?e] by (auto simp: entry_frame points_def)
    with i(2) show ?thesis by auto
  next
    case False
    with present Suc.prems i obtain gs where gs: "walk P mem l (addr P ?e) js = Some (a, gs)" "fs = flags P ?e # gs"
      by (auto simp: Let_def)
    have "gs \<noteq> []" using gs(1) by (cases l; cases js) (auto simp: Let_def split: if_splits)
    with gs Suc.prems i have "a \<in> user_leaves P mem l (addr P ?e)" by (intro Suc.IH [OF gs(1)]) auto
    moreover have "points P l ?e" using False present present_points by blast
    ultimately show ?thesis using i(2) by auto
  qed
qed simp

end

section \<open>Copying preserves translations\<close>

definition addrs :: "nat set \<Rightarrow> nat set" where
  "addrs F = (\<lambda>f. f * 4096) ` F"

lemma addrs_iff [simp]: "f * 4096 \<in> addrs F \<longleftrightarrow> f \<in> F"
  by (auto simp: addrs_def)

lemma addrs_mono: "F \<subseteq> G \<Longrightarrow> addrs F \<subseteq> addrs G"
  by (auto simp: addrs_def)

lemma addrs_Diff: "addrs F - addrs G = addrs (F - G)"
  by (auto simp: addrs_def)

text \<open>The body of the loop of \<open>new_from_recursion\<close>.\<close>

definition copy_step :: "'e pte_api \<Rightarrow> ('s \<Rightarrow> (nat option \<times> 's) outcome) \<Rightarrow> nat \<Rightarrow> nat \<Rightarrow> nat \<Rightarrow> nat
    \<Rightarrow> 's \<times> 'e table_mem \<Rightarrow> ('s \<times> 'e table_mem) outcome" where
  "copy_step P alloc l source target index = (\<lambda>(s, mem). let entry = mem source index in
     if l = 0 \<or> is_unused P entry \<or> contains (flags P entry) {HUGE_PAGE}
     then Returns (s, set_entry target index (set_addr P (addr P entry) (flags P entry)) mem)
     else obind (new_from_allocate alloc s) (\<lambda>(new_page_table, s).
       new_from_recursion P alloc l (addr P entry) new_page_table
         (s, set_entry target index (set_addr P new_page_table (flags P entry)) mem)))"

lemma new_from_recursion_steps:
  "new_from_recursion P alloc (Suc l) source target st = ofold (copy_step P alloc l source target) [0..<512] st"
  by (simp add: copy_step_def [abs_def])

text \<open>Entry \<open>i\<close> has been copied: same flags, and the same entry or a table of the frames
  \<open>F\<close> with the same translations.\<close>

definition copied :: "'e pte_api \<Rightarrow> 'e table_mem \<Rightarrow> nat \<Rightarrow> nat \<Rightarrow> nat \<Rightarrow> nat set \<Rightarrow> 'e table_mem \<Rightarrow> nat \<Rightarrow> bool" where
  "copied P mem l source target F mem' i \<longleftrightarrow>
     (if points P l (mem source i) then
        flags P (mem' target i) = flags P (mem source i) \<and>
        tables P mem' l (addr P (mem' target i)) \<subseteq> addrs F \<and>
        (\<forall>is. (\<forall>j\<in>set is. j < 512) \<longrightarrow>
           walk P mem' l (addr P (mem' target i)) is = walk P mem l (addr P (mem source i)) is)
      else mem' target i = mem source i)"

lemma sum_list_upt_le:
  fixes c :: "nat \<Rightarrow> nat"
  shows "k < n \<Longrightarrow> sum_list (map c [0..<k]) + c k \<le> sum_list (map c [0..<n])"
proof (induction n)
  case (Suc n)
  then show ?case by (cases "k = n") auto
qed simp

locale table_copy = pte_ops P + frame_source alloc free left inv
  for P :: "'e pte_api" and alloc :: "'s \<Rightarrow> (nat option \<times> 's) outcome" and free left inv
begin

text \<open>The situation in which a copy is made: the source tables and the target are in use.\<close>

definition ready :: "nat \<Rightarrow> nat \<Rightarrow> nat \<Rightarrow> 's \<Rightarrow> 'e table_mem \<Rightarrow> bool" where
  "ready l source target s mem \<longleftrightarrow> inv s \<and> target \<notin> tables P mem l source \<and> target \<notin> addrs (free s) \<and>
     tables P mem l source \<inter> addrs (free s) = {} \<and> copies P mem l source \<le> left s"

definition done_copy :: "nat \<Rightarrow> nat \<Rightarrow> nat \<Rightarrow> 's \<Rightarrow> 'e table_mem \<Rightarrow> 's \<Rightarrow> 'e table_mem \<Rightarrow> bool" where
  "done_copy l source target s mem s' mem' \<longleftrightarrow> inv s' \<and> free s' \<subseteq> free s \<and>
     left s' + copies P mem l source = left s \<and>
     (\<forall>t. t \<noteq> target \<longrightarrow> t \<notin> addrs (free s - free s') \<longrightarrow> mem' t = mem t) \<and>
     tables P mem' l target \<subseteq> insert target (addrs (free s - free s')) \<and>
     (\<forall>is. (\<forall>j\<in>set is. j < 512) \<longrightarrow> walk P mem' l target is = walk P mem l source is)"

lemma copied_frame:
  assumes "copied P mem l source target F mem1 i"
    and "mem2 target i = mem1 target i" "\<And>t. t \<in> addrs F \<Longrightarrow> mem2 t = mem1 t" "F \<subseteq> G"
  shows "copied P mem l source target G mem2 i"
proof (cases "points P l (mem source i)")
  case True
  let ?t = "addr P (mem1 target i)"
  from assms(1) True have t: "tables P mem1 l ?t \<subseteq> addrs F" by (simp add: copied_def)
  with assms(3) have same: "\<And>t'. t' \<in> tables P mem1 l ?t \<Longrightarrow> mem2 t' = mem1 t'" by blast
  from tables_cong [OF this] t addrs_mono [OF assms(4)] have "tables P mem2 l ?t \<subseteq> addrs G" by simp
  with walk_cong [OF same] assms(1,2) True show ?thesis by (simp add: copied_def)
next
  case False
  with assms(1,2) show ?thesis by (simp add: copied_def)
qed

definition cost :: "'e table_mem \<Rightarrow> nat \<Rightarrow> nat \<Rightarrow> nat \<Rightarrow> nat" where
  "cost mem l source i =
     (if points P l (mem source i) then Suc (copies P mem l (addr P (mem source i))) else 0)"

definition partial_copy :: "nat \<Rightarrow> nat \<Rightarrow> nat \<Rightarrow> 's \<Rightarrow> 'e table_mem \<Rightarrow> nat \<Rightarrow> 's \<Rightarrow> 'e table_mem \<Rightarrow> bool" where
  "partial_copy l source target s mem k s' mem' \<longleftrightarrow> inv s' \<and> free s' \<subseteq> free s \<and>
     left s' + sum_list (map (cost mem l source) [0..<k]) = left s \<and>
     (\<forall>t. t \<noteq> target \<longrightarrow> t \<notin> addrs (free s - free s') \<longrightarrow> mem' t = mem t) \<and>
     (\<forall>i<k. copied P mem l source target (free s - free s') mem' i)"

lemma copies_cost: "copies P mem (Suc l) source = sum_list (map (cost mem l source) [0..<512])"
  by (simp add: cost_def [abs_def])

lemma copy_leaf_step:
  assumes "ready (Suc l) source target s mem" "partial_copy l source target s mem k s1 mem1"
    and "\<not> points P l (mem source k)"
  shows "copy_step P alloc l source target k (s1, mem1) = Returns (s1, set_entry target k (mem source k) mem1) \<and>
     partial_copy l source target s mem (Suc k) s1 (set_entry target k (mem source k) mem1)"
proof
  have "source \<noteq> target" "source \<notin> addrs (free s - free s1)"
    using assms(1) tables_self [of source mem "Suc l"] addrs_mono [of "free s - free s1" "free s"]
    by (auto simp: ready_def)
  then have src: "mem1 source = mem source" using assms(2) by (simp add: partial_copy_def)
  with assms(3) show "copy_step P alloc l source target k (s1, mem1) =
      Returns (s1, set_entry target k (mem source k) mem1)"
    by (auto simp: copy_step_def points_def contains_def)
  have "copied P mem l source target (free s - free s1) (set_entry target k (mem source k) mem1) i" if "i < Suc k" for i
  proof (cases "i = k")
    case True
    with assms(3) show ?thesis by (simp add: copied_def set_entry_def)
  next
    case False
    with that have c: "copied P mem l source target (free s - free s1) mem1 i"
      using assms(2) by (simp add: partial_copy_def)
    have "target \<notin> addrs (free s - free s1)"
      using assms(1) addrs_mono [of "free s - free s1" "free s"] by (auto simp: ready_def)
    then show ?thesis by (intro copied_frame [OF c]) (use False in \<open>auto simp: set_entry_def\<close>)
  qed
  with assms(2,3) show "partial_copy l source target s mem (Suc k) s1 (set_entry target k (mem source k) mem1)"
    by (simp add: partial_copy_def cost_def set_entry_def)
qed

lemma copy_table_step:
  assumes IH: "\<And>source target s mem. ready l source target s mem \<Longrightarrow> 0 < l \<Longrightarrow>
      \<exists>s' mem'. new_from_recursion P alloc l source target (s, mem) = Returns (s', mem') \<and>
        done_copy l source target s mem s' mem'"
    and rdy: "ready (Suc l) source target s mem" and part: "partial_copy l source target s mem k s1 mem1"
    and k: "k < 512" and pt: "points P l (mem source k)"
  shows "\<exists>s2 mem2. copy_step P alloc l source target k (s1, mem1) = Returns (s2, mem2) \<and>
     partial_copy l source target s mem (Suc k) s2 mem2"
proof -
  let ?sub = "addr P (mem source k)"
  have sub: "tables P mem l ?sub \<subseteq> tables P mem (Suc l) source" using tables_sub [of k l mem source] k pt by blast
  have used: "tables P mem (Suc l) source \<inter> addrs (free s) = {}" "target \<notin> tables P mem (Suc l) source"
    "target \<notin> addrs (free s)" and inv1: "inv s1" and sub1: "free s1 \<subseteq> free s"
    and agree: "\<And>t. t \<noteq> target \<Longrightarrow> t \<notin> addrs (free s - free s1) \<Longrightarrow> mem1 t = mem t"
    using rdy part by (auto simp: ready_def partial_copy_def)
  have src: "mem1 t = mem t" if "t \<in> tables P mem (Suc l) source" for t
    using that used addrs_mono [of "free s - free s1" "free s"] by (intro agree) auto
  have cost: "cost mem l source k = Suc (copies P mem l ?sub)" using pt by (simp add: cost_def)
  have "sum_list (map (cost mem l source) [0..<k]) + cost mem l source k \<le> left s"
    using sum_list_upt_le [OF k, of "cost mem l source"] rdy by (simp only: ready_def copies_cost) linarith
  with part cost have left1: "Suc (copies P mem l ?sub) \<le> left s1" by (simp add: partial_copy_def)
  from inv1 obtain f s1' where f: "alloc s1 = Returns (Some (f * 4096), s1')" "f \<in> free s1"
    "free s1' = free s1 - {f}" "inv s1'" "left s1 = Suc (left s1')"
    by (cases rule: alloc_cases) (use left1 in auto)
  let ?mem1 = "set_entry target k (set_addr P (f * 4096) (flags P (mem source k))) mem1"
  have sub_same: "?mem1 t = mem t" if "t \<in> tables P mem l ?sub" for t
    using that sub used(2) src by (auto simp: set_entry_def)
  have tabs: "tables P ?mem1 l ?sub = tables P mem l ?sub" by (rule tables_cong) (rule sub_same)
  have cops: "copies P ?mem1 l ?sub = copies P mem l ?sub" by (rule copies_cong) (rule sub_same)
  have disj: "tables P mem l ?sub \<inter> addrs (free s) = {}" using sub used(1) by blast
  have fs: "f * 4096 \<in> addrs (free s)" "addrs (free s1') \<subseteq> addrs (free s)"
    using f sub1 addrs_mono [of "free s1'" "free s"] by auto
  have "ready l ?sub (f * 4096) s1' ?mem1"
    unfolding ready_def tabs cops using f left1 disj fs by auto
  from IH [OF this] pt obtain s2 mem2 where
    rec: "new_from_recursion P alloc l ?sub (f * 4096) (s1', ?mem1) = Returns (s2, mem2)"
    and dc: "done_copy l ?sub (f * 4096) s1' ?mem1 s2 mem2"
    by (auto simp: points_def)
  have new: "t \<in> addrs (free s - free s2)" if "t = f * 4096 \<or> t \<in> addrs (free s1' - free s2)" for t
    using that f sub1 dc addrs_mono [of "free s1' - free s2" "free s - free s2"]
    by (auto simp: done_copy_def)
  have mem2: "mem2 t = ?mem1 t" if "t \<notin> addrs (free s1)" for t
  proof -
    have "t \<noteq> f * 4096" "t \<notin> addrs (free s1' - free s2)"
      using that f(2,3) addrs_mono [of "free s1' - free s2" "free s1"] by auto
    then show ?thesis using dc by (simp add: done_copy_def)
  qed
  have target: "mem2 target = ?mem1 target" using mem2 [of target] used(3) addrs_mono [OF sub1] by blast
  have old: "mem2 t = mem1 t" if "t \<in> addrs (free s - free s1)" for t
  proof -
    have "t \<notin> addrs (free s1)" "t \<in> addrs (free s)" using that addrs_Diff [of "free s" "free s1"] by auto
    with mem2 [of t] used(3) show ?thesis by (auto simp: set_entry_def)
  qed
  have "copied P mem l source target (free s - free s2) mem2 i" if "i < Suc k" for i
  proof (cases "i = k")
    case True
    have w: "walk P ?mem1 l ?sub is = walk P mem l ?sub is" if "\<forall>j\<in>set is. j < 512" for "is"
      by (rule walk_cong [OF _ that]) (rule sub_same)
    have "mem2 target k = set_addr P (f * 4096) (flags P (mem source k))"
      using target by (simp add: set_entry_def)
    moreover have "tables P mem2 l (f * 4096) \<subseteq> addrs (free s - free s2)"
      using dc new unfolding done_copy_def by blast
    ultimately show ?thesis using True pt dc w by (auto simp: copied_def done_copy_def)
  next
    case False
    with that have c: "copied P mem l source target (free s - free s1) mem1 i"
      using part by (simp add: partial_copy_def)
    show ?thesis
      by (rule copied_frame [OF c]) (use False target old dc f(3) in \<open>auto simp: set_entry_def done_copy_def\<close>)
  qed
  moreover have "mem2 t = mem t" if "t \<noteq> target" "t \<notin> addrs (free s - free s2)" for t
  proof -
    have "t \<notin> addrs (free s1' - free s2)" "t \<noteq> f * 4096" using that new by blast+
    then have "mem2 t = ?mem1 t" using dc by (simp add: done_copy_def)
    moreover have "free s - free s1 \<subseteq> free s - free s2" using dc f(3) by (auto simp: done_copy_def)
    ultimately show ?thesis using that agree [of t] addrs_mono by (auto simp: set_entry_def)
  qed
  moreover have "copy_step P alloc l source target k (s1, mem1) = Returns (s2, mem2)"
    using pt src [OF tables_self] f(1) rec
    by (simp add: copy_step_def new_from_allocate_def points_def contains_def)
  ultimately show ?thesis using dc f part cost cops sub1
    by (intro exI [of _ s2] exI [of _ mem2]) (auto simp: partial_copy_def done_copy_def)
qed

lemma copy_steps:
  assumes IH: "\<And>source target s mem. ready l source target s mem \<Longrightarrow> 0 < l \<Longrightarrow>
      \<exists>s' mem'. new_from_recursion P alloc l source target (s, mem) = Returns (s', mem') \<and>
        done_copy l source target s mem s' mem'"
    and rdy: "ready (Suc l) source target s mem" and "k \<le> 512"
  shows "\<exists>s' mem'. ofold (copy_step P alloc l source target) [0..<k] (s, mem) = Returns (s', mem') \<and>
     partial_copy l source target s mem k s' mem'"
  using \<open>k \<le> 512\<close>
proof (induction k)
  case 0
  with rdy show ?case by (auto simp: ready_def partial_copy_def)
next
  case (Suc k)
  then obtain s1 mem1 where 1: "ofold (copy_step P alloc l source target) [0..<k] (s, mem) = Returns (s1, mem1)"
    "partial_copy l source target s mem k s1 mem1" by auto
  have "\<exists>s2 mem2. copy_step P alloc l source target k (s1, mem1) = Returns (s2, mem2) \<and>
      partial_copy l source target s mem (Suc k) s2 mem2"
    using copy_leaf_step [OF rdy 1(2)] copy_table_step [OF IH rdy 1(2)] Suc.prems
    by (cases "points P l (mem source k)") auto
  then obtain s2 mem2 where "copy_step P alloc l source target k (s1, mem1) = Returns (s2, mem2)"
    "partial_copy l source target s mem (Suc k) s2 mem2" by blast
  with 1(1) show ?case by (intro exI [of _ s2] exI [of _ mem2]) (simp add: ofold_append)
qed

lemma partial_copy_done:
  assumes "partial_copy l source target s mem 512 s' mem'"
  shows "done_copy (Suc l) source target s mem s' mem'"
proof -
  have c: "copied P mem l source target (free s - free s') mem' i" if "i < 512" for i
    using assms that by (simp add: partial_copy_def)
  have "tables P mem' (Suc l) target \<subseteq> insert target (addrs (free s - free s'))"
  proof -
    have "tables P mem' l (addr P (mem' target i)) \<subseteq> addrs (free s - free s')"
      if "i < 512" "points P l (mem' target i)" for i
      using c [OF that(1)] that(2) by (cases "points P l (mem source i)") (simp_all add: copied_def)
    then show ?thesis by auto
  qed
  moreover have "walk P mem' (Suc l) target is = walk P mem (Suc l) source is" if "\<forall>j\<in>set is. j < 512" for "is"
  proof (cases "is")
    case (Cons i js)
    with that have i: "i < 512" "\<forall>j\<in>set js. j < 512" by auto
    show ?thesis
    proof (cases "points P l (mem source i)")
      case True
      with c [OF i(1)] i(2) Cons show ?thesis by (simp add: copied_def Let_def points_def)
    next
      case False
      then have "mem' target i = mem source i" using c [OF i(1)] by (simp add: copied_def)
      moreover have "PRESENT \<notin> flags P (mem source i) \<or> l = 0 \<or> HUGE_PAGE \<in> flags P (mem source i)"
        using False present_points by blast
      ultimately show ?thesis by (auto simp: Cons Let_def)
    qed
  qed simp
  ultimately show ?thesis
    using assms unfolding done_copy_def partial_copy_def copies_cost by blast
qed

theorem copy_tables:
  "ready l source target s mem \<Longrightarrow> 0 < l \<Longrightarrow>
     \<exists>s' mem'. new_from_recursion P alloc l source target (s, mem) = Returns (s', mem') \<and>
       done_copy l source target s mem s' mem'"
proof (induction l arbitrary: source target s mem)
  case (Suc l)
  from copy_steps [OF Suc.IH Suc.prems(1), of 512] show ?case
    unfolding new_from_recursion_steps by (auto intro: partial_copy_done)
qed simp

end

section \<open>Freeing\<close>

lemma ofold_union:
  assumes "ofold f xs a = Returns a'"
    and "\<And>x a a'. x \<in> set xs \<Longrightarrow> f x a = Returns a' \<Longrightarrow> F a' = F a \<union> g x"
  shows "F a' = F a \<union> (\<Union>x\<in>set xs. g x)"
  using assms
proof (induction xs arbitrary: a)
  case (Cons x xs)
  then obtain b where "f x a = Returns b" "ofold f xs b = Returns a'" by (auto simp: outcome_simps)
  with Cons have "F b = F a \<union> g x" "F a' = F b \<union> (\<Union>x\<in>set xs. g x)" by auto
  then show ?case by auto
qed simp

lemma free_pages_spec:
  assumes "byte_bits gb sb"
  shows "free_pages_recursion P sb mem l t a = Returns a' \<Longrightarrow>
     free_frames a' = free_frames a \<union> (\<lambda>x. x div 4096) ` (tables P mem l t \<union> user_leaves P mem l t)"
proof (induction l arbitrary: t a a')
  case 0
  then show ?case using byte_bits.deallocate_frame_spec [OF assms, of t a a'] by simp
next
  case (Suc l)
  let ?h = "\<lambda>x::nat. x div 4096"
  let ?step = "\<lambda>index a. let entry = mem t index in
         if is_unused P entry then Returns a
         else if l = 0 \<or> contains (flags P entry) {HUGE_PAGE} then
           (if contains (flags P entry) (mapping_flags UserCode) then
              (case entry_frame P entry of None \<Rightarrow> Returns a | Some f \<Rightarrow> deallocate_frame sb f a)
            else Returns a)
         else free_pages_recursion P sb mem l (addr P entry) a"
  let ?k = "\<lambda>i. (if points P l (mem t i)
       then tables P mem l (addr P (mem t i)) \<union> user_leaves P mem l (addr P (mem t i))
       else if \<not> is_unused P (mem t i) \<and> contains (flags P (mem t i)) (mapping_flags UserCode)
       then set_option (entry_frame P (mem t i)) else {})"
  let ?g = "\<lambda>i. ?h ` ?k i"
  from Suc.prems obtain b where b: "ofold ?step [0..<512] a = Returns b" "deallocate_frame sb t b = Returns a'"
    by (auto simp only: free_pages_recursion.simps obind_Returns_iff)
  have "free_frames b = free_frames a \<union> (\<Union>i\<in>set [0..<512]. ?g i)"
  proof (rule ofold_union [OF b(1)])
    fix i a a'
    assume step: "?step i a = Returns a'"
    show "free_frames a' = free_frames a \<union> ?g i"
    proof (cases "points P l (mem t i)")
      case True
      with step have "free_pages_recursion P sb mem l (addr P (mem t i)) a = Returns a'"
        by (simp add: points_def contains_def Let_def)
      from Suc.IH [OF this] True show ?thesis by simp
    next
      case False
      with step show ?thesis
        by (auto simp: points_def Let_def contains_def byte_bits.deallocate_frame_spec(1) [OF assms]
            split: if_splits option.splits)
    qed
  qed
  with byte_bits.deallocate_frame_spec(1) [OF assms b(2)]
  have "free_frames a' = free_frames a \<union> insert (?h t) (\<Union>i\<in>{i. i < 512}. ?g i)" by auto
  moreover have "tables P mem (Suc l) t \<union> user_leaves P mem (Suc l) t = insert t (\<Union>i\<in>{i. i < 512}. ?k i)"
    unfolding tables.simps user_leaves.simps by (rule set_eqI) (auto split: if_splits)
  ultimately show ?case by (simp only: image_insert image_UN)
qed

section \<open>Properties\<close>

lemma deep_copy_spec:
  assumes bb: "byte_bits gb sb" and po: "pte_ops P" and inv: "fa_inv a"
    and used: "tables P mem 4 source \<inter> addrs (free_frames a) = {}"
    and enough: "copies P mem 4 source < usable_frames a"
  shows "\<exists>new a' mem'. deep_copy P (allocate_frame gb sb) source (a, mem) = Returns (new, a', mem') \<and>
     new \<in> addrs (free_frames a) \<and>
     (\<forall>t. t \<notin> addrs (free_frames a) \<longrightarrow> mem' t = mem t) \<and>
     tables P mem' 4 new \<subseteq> addrs (free_frames a - free_frames a') \<and> fa_inv a' \<and>
     (\<forall>is. (\<forall>j\<in>set is. j < 512) \<longrightarrow> walk P mem' 4 new is = walk P mem 4 source is)"
proof -
  have tc: "table_copy P (allocate_frame gb sb) (\<lambda>a. free_frames a) usable_frames fa_inv"
    using po allocate_frame_source [OF bb] by (rule table_copy.intro)
  obtain f a1 where f: "allocate_frame gb sb a = Returns (Some (f * 4096), a1)" "f \<in> free_frames a"
    "free_frames a1 = free_frames a - {f}" "fa_inv a1" "usable_frames a1 = usable_frames a - 1"
    using byte_bits.allocate_frame_inv [OF bb inv] enough by auto
  have a1: "addrs (free_frames a1) \<subseteq> addrs (free_frames a)" using f(3) by (intro addrs_mono) auto
  have "table_copy.ready P (\<lambda>a. free_frames a) usable_frames fa_inv 4 source (f * 4096) a1 mem"
    unfolding table_copy.ready_def [OF tc] using f a1 used enough addrs_iff [of f "free_frames a"]
    by auto
  from table_copy.copy_tables [OF tc this] obtain a2 mem2 where
    rec: "new_from_recursion P (allocate_frame gb sb) 4 source (f * 4096) (a1, mem) = Returns (a2, mem2)"
    and d: "table_copy.done_copy P (\<lambda>a. free_frames a) usable_frames fa_inv 4 source (f * 4096) a1 mem a2 mem2"
    by auto
  note d = d [unfolded table_copy.done_copy_def [OF tc]]
  have new: "insert (f * 4096) (addrs (free_frames a1 - free_frames a2)) \<subseteq> addrs (free_frames a - free_frames a2)"
    using f(2,3) d addrs_mono [of "free_frames a1 - free_frames a2" "free_frames a - free_frames a2"] by auto
  have "deep_copy P (allocate_frame gb sb) source (a, mem) = Returns (f * 4096, a2, mem2)"
    using f(1) rec by (simp add: deep_copy_def new_from_allocate_def)
  moreover have "mem2 t = mem t" if "t \<notin> addrs (free_frames a)" for t
  proof -
    have "t \<noteq> f * 4096" "t \<notin> addrs (free_frames a1 - free_frames a2)"
      using that f(2) new addrs_mono [of "free_frames a - free_frames a2" "free_frames a"] by auto
    with d show ?thesis by blast
  qed
  ultimately show ?thesis using d new f(2)
    by (intro exI [of _ "f * 4096"] exI [of _ a2] exI [of _ mem2]) auto
qed

text \<open>C16. \<open>deep_copy\<close> of a page table whose tables are in use, with enough frames left, returns a
  table that translates every address exactly as the source does, with the same flags on the way; it
  builds the copy from frames that were free and leaves the source's tables as they were.\<close>

theorem deep_copy_translations:
  assumes "byte_bits gb sb" "pte_ops P" "fa_inv a"
    and "tables P mem 4 source \<inter> addrs (free_frames a) = {}"
    and "copies P mem 4 source < usable_frames a"
  shows "\<exists>new a' mem'. deep_copy P (allocate_frame gb sb) source (a, mem) = Returns (new, a', mem') \<and>
     tables P mem' 4 new \<subseteq> addrs (free_frames a - free_frames a') \<and>
     (\<forall>t\<in>tables P mem 4 source. mem' t = mem t) \<and> fa_inv a' \<and>
     (\<forall>is. (\<forall>j\<in>set is. j < 512) \<longrightarrow> walk P mem' 4 new is = walk P mem 4 source is)"
proof -
  have "t \<notin> addrs (free_frames a)" if "t \<in> tables P mem 4 source" for t using that assms(4) by blast
  with deep_copy_spec [OF assms] show ?thesis by blast
qed

text \<open>C39. Ending a process frees frames of the kernel.  The process' table is a copy of the kernel's and
  shares its leaves; \<open>free_user_page_table\<close> gives back every leaf whose flags contain those of
  user code, so a frame the kernel table maps with such flags (the kernel heap is mapped as
  \<open>UserData\<close>) is marked free while the kernel still maps it.\<close>

theorem exit_frees_kernel_frames:
  assumes "byte_bits gb sb" "pte_ops P" "fa_inv a"
    and "tables P mem 4 kroot \<inter> addrs (free_frames a) = {}"
    and "copies P mem 4 kroot < usable_frames a"
    and "deep_copy P (allocate_frame gb sb) kroot (a, mem) = Returns (new, a', mem')"
    and "walk P mem 4 kroot is = Some (p, fs)" "\<forall>i\<in>set is. i < 512"
    and "contains (last fs) (mapping_flags UserCode)" "HUGE_PAGE \<notin> last fs"
    and "free_user_page_table P sb mem' new a1 = Returns a2"
  shows "p div 4096 \<in> free_frames a2 \<and> walk P mem' 4 kroot is = Some (p, fs)"
proof -
  from deep_copy_spec [OF assms(1-5)] assms(6) have new: "walk P mem' 4 new is = Some (p, fs)"
    and same: "\<And>t. t \<notin> addrs (free_frames a) \<Longrightarrow> mem' t = mem t"
    using assms(7,8) by auto
  have "p \<in> user_leaves P mem' 4 new"
    using pte_ops.walk_user_leaf [OF assms(2) new assms(8-10)] .
  with free_pages_spec [OF assms(1) assms(11) [unfolded free_user_page_table_def]]
  have "p div 4096 \<in> free_frames a2" by blast
  moreover have "mem' t = mem t" if "t \<in> tables P mem 4 kroot" for t
    using that assms(4) by (intro same) blast
  from pte_ops.walk_cong [OF assms(2) this assms(8)] assms(7)
  have "walk P mem' 4 kroot is = Some (p, fs)" by simp
  ultimately show ?thesis by simp
qed

subsection \<open>A concrete page table\<close>

text \<open>Entries as pairs of an address and flags.\<close>

definition pair_pte :: "(nat \<times> page_flag set) pte_api" where
  "pair_pte = \<lparr>is_unused = (\<lambda>e. e = (0, {})), flags = snd, addr = fst, set_addr = Pair,
     entry_frame = (\<lambda>e. if PRESENT \<in> snd e \<and> HUGE_PAGE \<notin> snd e then Some (fst e) else None)\<rparr>"

lemma pair_pte_simps [simp]:
  "is_unused pair_pte e \<longleftrightarrow> e = (0, {})" "flags pair_pte e = snd e" "addr pair_pte e = fst e"
  "set_addr pair_pte a fl = (a, fl)"
  "entry_frame pair_pte e = (if PRESENT \<in> snd e \<and> HUGE_PAGE \<notin> snd e then Some (fst e) else None)"
  by (simp_all add: pair_pte_def)

interpretation pair_pte: pte_ops pair_pte
  by unfold_locales auto

interpretation pair_copy: table_copy pair_pte "allocate_frame word_get_bit word_set_bit"
  "\<lambda>a. frame_set (bitmap a)" usable_frames fa_inv
  by unfold_locales

text \<open>One page mapped through the tables at frames 8 to 11, as the kernel maps its heap.\<close>

definition chain_mem :: "(nat \<times> page_flag set) table_mem" where
  "chain_mem t i =
     (if i = 0 \<and> t \<in> {32768, 36864, 40960, 45056} then (t + 4096, mapping_flags UserData) else (0, {}))"

lemma tables_index_0:
  assumes "\<And>i. i \<noteq> 0 \<Longrightarrow> \<not> points P l (mem t i)"
  shows "tables P mem (Suc l) t = insert t (if points P l (mem t 0) then tables P mem l (addr P (mem t 0)) else {})"
proof -
  have "{i. i < 512 \<and> points P l (mem t i)} \<subseteq> {0}" using assms by blast
  then have "{i. i < 512 \<and> points P l (mem t i)} = (if points P l (mem t 0) then {0} else {})" by auto
  then show ?thesis by simp
qed

lemma upt_512: "[0..<512] = 0 # [1..<512::nat]"
  by (subst upt_conv_Cons) (simp_all only: One_nat_def zero_less_numeral)

lemma copies_index_0:
  assumes "\<And>i. i \<noteq> 0 \<Longrightarrow> \<not> points P l (mem t i)"
  shows "copies P mem (Suc l) t = (if points P l (mem t 0) then Suc (copies P mem l (addr P (mem t 0))) else 0)"
proof -
  have "map (\<lambda>i. if points P l (mem t i) then Suc (copies P mem l (addr P (mem t i))) else 0) [1..<512]
      = map (\<lambda>_. 0) [1..<512]"
    using assms by (intro map_cong) auto
  then show ?thesis unfolding copies.simps upt_512 list.map sum_list.Cons by simp
qed

lemma ofold_index_0:
  assumes "\<And>i a. i \<noteq> 0 \<Longrightarrow> f i a = Returns a"
  shows "ofold f [0..<512] a = f 0 a"
proof -
  have "ofold f xs b = Returns b" if "\<forall>x\<in>set xs. x \<noteq> 0" for xs b
    using that assms by (induction xs) auto
  then have "ofold f [1..<512] b = Returns b" for b by (metis atLeastLessThan_iff not_one_le_zero set_upt)
  then have "obind m (ofold f [1..<512]) = m" for m by (cases m) (simp_all only: obind.simps)
  then show ?thesis unfolding upt_512 ofold.simps .
qed

lemma ofold_settled:
  assumes "f 0 a = Returns b" "\<And>i. i \<noteq> 0 \<Longrightarrow> f i b = Returns b"
  shows "ofold f [0..<512] a = Returns b"
proof -
  have "ofold f xs b = Returns b" if "\<forall>x\<in>set xs. x \<noteq> 0" for xs
    using that assms(2) by (induction xs) auto
  then have "ofold f [1..<512] b = Returns b" by (metis atLeastLessThan_iff not_one_le_zero set_upt)
  with assms(1) show ?thesis unfolding upt_512 ofold.simps by simp
qed

lemma copy_chain:
  assumes "copy_step pair_pte alloc l source target 0 (s, mem) = Returns (s', mem')"
    and "\<And>i. i \<noteq> 0 \<Longrightarrow> mem' source i = (0, {}) \<and> mem' target i = (0, {})"
  shows "new_from_recursion pair_pte alloc (Suc l) source target (s, mem) = Returns (s', mem')"
  unfolding new_from_recursion_steps
proof (rule ofold_settled)
  show "copy_step pair_pte alloc l source target 0 (s, mem) = Returns (s', mem')" by (rule assms)
qed (use assms(2) in \<open>auto simp: copy_step_def set_entry_def fun_eq_iff\<close>)

lemma level_4: "(4::nat) = Suc (Suc (Suc (Suc 0)))"
  by simp

lemma chain_points [simp]:
  "points pair_pte l (chain_mem t i) \<longleftrightarrow> l \<noteq> 0 \<and> i = 0 \<and> t \<in> {32768, 36864, 40960, 45056}"
  by (auto simp: points_def chain_mem_def)

lemma points_pair [simp]: "points pair_pte l (a, fl) \<longleftrightarrow> l \<noteq> 0 \<and> (a, fl) \<noteq> (0, {}) \<and> HUGE_PAGE \<notin> fl"
  by (auto simp: points_def)

lemma chain_mem_0 [simp]:
  "chain_mem 32768 0 = (36864, mapping_flags UserData)" "chain_mem 36864 0 = (40960, mapping_flags UserData)"
  "chain_mem 40960 0 = (45056, mapping_flags UserData)" "chain_mem 45056 0 = (49152, mapping_flags UserData)"
  by (simp_all add: chain_mem_def)

lemma set_entry_apply: "set_entry t i e mem t' i' = (if t' = t \<and> i' = i then e else mem t' i')"
  by (simp add: set_entry_def)

lemma chain_tables: "tables pair_pte chain_mem 4 32768 = {32768, 36864, 40960, 45056}"
  unfolding level_4 by (simp add: tables_index_0 del: tables.simps(2))

lemma chain_copies: "copies pair_pte chain_mem 4 32768 = 3"
  unfolding level_4 by (simp add: copies_index_0 del: copies.simps(2))

lemma chain_unused: "tables pair_pte chain_mem 4 32768 \<inter> addrs (free_frames sample_alloc) = {}"
  by (simp add: chain_tables sample_alloc_frames addrs_def)

lemma chain_enough: "copies pair_pte chain_mem 4 32768 < usable_frames sample_alloc"
  by (simp add: chain_copies sample_alloc_def)

lemma chain_walk:
  "walk pair_pte chain_mem 4 32768 [0, 0, 0, 0] =
     Some (49152, replicate 4 (mapping_flags UserData))"
  unfolding level_4 by (simp add: chain_mem_def)

theorem deep_copy_translations_witness:
  "\<exists>new a' mem'. deep_copy pair_pte (allocate_frame word_get_bit word_set_bit) 32768 (sample_alloc, chain_mem) =
       Returns (new, a', mem') \<and>
     tables pair_pte mem' 4 new \<subseteq> addrs (free_frames sample_alloc - free_frames a') \<and>
     (\<forall>t\<in>tables pair_pte chain_mem 4 32768. mem' t = chain_mem t) \<and> fa_inv a' \<and>
     (\<forall>is. (\<forall>j\<in>set is. j < 512) \<longrightarrow>
       walk pair_pte mem' 4 new is = walk pair_pte chain_mem 4 32768 is)"
  by (rule deep_copy_translations [OF byte_bits_word pair_pte.pte_ops_axioms sample_alloc_inv
        chain_unused chain_enough])

text \<open>The copy of that table, and the allocator after it.\<close>

definition copy_mem :: "(nat \<times> page_flag set) table_mem" where
  "copy_mem = set_entry 24576 0 (49152, mapping_flags UserData)
     (set_entry 16384 0 (24576, mapping_flags UserData)
     (set_entry 8192 0 (16384, mapping_flags UserData)
     (set_entry 4096 0 (8192, mapping_flags UserData) chain_mem)))"

definition frames_left :: "u8 \<Rightarrow> nat \<Rightarrow> nat \<Rightarrow> frame_allocator" where
  "frames_left b n nxt = \<lparr>bitmap = \<lparr>inner = [b, 0, 0, 0, 0, 0, 0, 0]\<rparr>, usable_frames = n, next_frame = nxt\<rparr>"

lemma frames_left_alloc:
  "allocate_frame word_get_bit word_set_bit sample_alloc = Returns (Some 4096, frames_left 0xD4 4 2)"
  "allocate_frame word_get_bit word_set_bit (frames_left 0xD4 4 2) = Returns (Some 8192, frames_left 0xD0 3 4)"
  "allocate_frame word_get_bit word_set_bit (frames_left 0xD0 3 4) = Returns (Some 16384, frames_left 0xC0 2 6)"
  "allocate_frame word_get_bit word_set_bit (frames_left 0xC0 2 6) = Returns (Some 24576, frames_left 0x80 1 7)"
  by (simp_all add: allocate_frame_def frames_left_def sample_alloc_def bitmap_eval upt_rec)

lemma deep_copy_chain:
  "deep_copy pair_pte (allocate_frame word_get_bit word_set_bit) 32768 (sample_alloc, chain_mem) =
     Returns (4096, frames_left 0x80 1 7, copy_mem)"
proof -
  let ?al = "allocate_frame word_get_bit word_set_bit" and ?UD = "mapping_flags UserData"
  let ?m1 = "set_entry 4096 0 (8192, ?UD) chain_mem"
  let ?m2 = "set_entry 8192 0 (16384, ?UD) ?m1"
  let ?m3 = "set_entry 16384 0 (24576, ?UD) ?m2"
  note eval = copy_step_def new_from_allocate_def frames_left_alloc contains_def set_entry_apply
  have unused: "copy_mem t i = (0, {})" if "i \<noteq> 0" for t i
    using that by (simp add: copy_mem_def set_entry_apply chain_mem_def)
  have 1: "new_from_recursion pair_pte ?al (Suc 0) 45056 24576 (frames_left 0x80 1 7, ?m3) =
      Returns (frames_left 0x80 1 7, copy_mem)"
    by (rule copy_chain) (simp add: eval copy_mem_def, simp add: unused)
  have 2: "new_from_recursion pair_pte ?al (Suc (Suc 0)) 40960 16384 (frames_left 0xC0 2 6, ?m2) =
      Returns (frames_left 0x80 1 7, copy_mem)"
    by (rule copy_chain) (use 1 in \<open>simp add: eval del: new_from_recursion.simps\<close>, simp add: unused)
  have 3: "new_from_recursion pair_pte ?al (Suc (Suc (Suc 0))) 36864 8192 (frames_left 0xD0 3 4, ?m1) =
      Returns (frames_left 0x80 1 7, copy_mem)"
    by (rule copy_chain) (use 2 in \<open>simp add: eval del: new_from_recursion.simps\<close>, simp add: unused)
  have 4: "new_from_recursion pair_pte ?al (Suc (Suc (Suc (Suc 0)))) 32768 4096 (frames_left 0xD4 4 2, chain_mem) =
      Returns (frames_left 0x80 1 7, copy_mem)"
    by (rule copy_chain) (use 3 in \<open>simp add: eval del: new_from_recursion.simps\<close>, simp add: unused)
  note 4 [folded level_4]
  then show ?thesis
    by (simp add: deep_copy_def new_from_allocate_def frames_left_alloc del: new_from_recursion.simps)
qed

lemma free_chain:
  "\<exists>a. free_user_page_table pair_pte word_set_bit copy_mem 4096 (frames_left 0x80 1 7) = Returns a"
proof -
  have unused: "copy_mem t i = (0, {})" if "i \<noteq> 0" for t i
    using that by (simp add: copy_mem_def set_entry_apply chain_mem_def)
  have step: "free_pages_recursion pair_pte word_set_bit copy_mem (Suc l) t a =
      obind (if is_unused pair_pte (copy_mem t 0) then Returns a
         else if l = 0 \<or> contains (flags pair_pte (copy_mem t 0)) {HUGE_PAGE} then
           (if contains (flags pair_pte (copy_mem t 0)) (mapping_flags UserCode) then
              (case entry_frame pair_pte (copy_mem t 0) of None \<Rightarrow> Returns a
                | Some f \<Rightarrow> deallocate_frame word_set_bit f a)
            else Returns a)
         else free_pages_recursion pair_pte word_set_bit copy_mem l (addr pair_pte (copy_mem t 0)) a)
       (deallocate_frame word_set_bit t)" for l t a
    unfolding free_pages_recursion.simps Let_def by (subst ofold_index_0) (simp_all only: unused pair_pte_simps if_True simp_thms)
  have mem: "copy_mem 4096 0 = (8192, mapping_flags UserData)" "copy_mem 8192 0 = (16384, mapping_flags UserData)"
    "copy_mem 16384 0 = (24576, mapping_flags UserData)" "copy_mem 24576 0 = (49152, mapping_flags UserData)"
    by (simp_all add: copy_mem_def set_entry_apply)
  show ?thesis
    unfolding free_user_page_table_def level_4 step
    by (simp add: mem contains_def step deallocate_frame_def frames_left_def bitmap_eval uadd_def usize_max_def
        del: free_pages_recursion.simps(2))
qed

theorem exit_frees_kernel_frames_witness:
  "deep_copy pair_pte (allocate_frame word_get_bit word_set_bit) 32768 (sample_alloc, chain_mem) =
     Returns (4096, frames_left 0x80 1 7, copy_mem) \<and>
   (\<exists>a2. free_user_page_table pair_pte word_set_bit copy_mem 4096 (frames_left 0x80 1 7) = Returns a2 \<and>
     12 \<in> free_frames a2 \<and>
     walk pair_pte copy_mem 4 32768 [0, 0, 0, 0] = Some (12 * 4096, replicate 4 (mapping_flags UserData)))"
proof -
  obtain a2 where a2: "free_user_page_table pair_pte word_set_bit copy_mem 4096 (frames_left 0x80 1 7) = Returns a2"
    using free_chain by blast
  have "49152 div 4096 \<in> free_frames a2 \<and>
      walk pair_pte copy_mem 4 32768 [0, 0, 0, 0] = Some (49152, replicate 4 (mapping_flags UserData))"
    by (rule exit_frees_kernel_frames [OF byte_bits_word pair_pte.pte_ops_axioms sample_alloc_inv
          chain_unused chain_enough deep_copy_chain chain_walk _ _ _ a2])
      (simp_all add: contains_def)
  with deep_copy_chain a2 show ?thesis by simp
qed

end
