(* ===== verification/MemoryManager.thy ===== *)
theory MemoryManager
  imports PageTable
begin

text \<open>Mapping of address ranges: \<open>MemoryManager\<close> of \<open>kernel/src/memory/manager.rs\<close>,
  \<open>write_to_mapped_address\<close>, the kernel heap (\<open>kernel_heap.rs\<close>), the user stack
  (\<open>task/stack.rs\<close>) and the loading of program segments (\<open>task/process.rs\<close>).

  The mapper is the x86_64 crate's \<open>OffsetPageTable\<close>, not part of the repository: the record
  \<open>mapper\<close> holds the operations the kernel calls, over an abstract page table, and
  \<open>mapper_laws\<close> states what their documentation promises.  The operations work on the pair of
  the page table and the global frame allocator.\<close>

section \<open>Addresses\<close>

definition convert_virtual_to_physical :: "nat \<Rightarrow> nat \<Rightarrow> nat outcome" where
  "convert_virtual_to_physical hhdm virtual_address = obind (usub virtual_address hhdm) phys_addr_new"

definition containing_page :: "nat \<Rightarrow> nat" where
  "containing_page a = a - a mod 4096"

definition page_range_inclusive :: "nat \<Rightarrow> nat \<Rightarrow> nat list" where
  "page_range_inclusive start_page end_page =
     map (\<lambda>i. i * 4096) [start_page div 4096..<end_page div 4096 + 1]"

section \<open>The mapper\<close>

datatype map_to_error = FrameAllocationFailed | PageAlreadyMapped nat | ParentEntryHugePage

record 'pt mapper =
  map_to :: "nat \<Rightarrow> nat \<Rightarrow> page_flag set \<Rightarrow> 'pt \<times> frame_allocator \<Rightarrow> (map_to_error + unit) \<times> 'pt \<times> frame_allocator"
  unmap_4k :: "nat \<Rightarrow> 'pt \<Rightarrow> nat option \<times> 'pt"
  unmap_2m :: "nat \<Rightarrow> 'pt \<Rightarrow> nat option \<times> 'pt"
  unmap_1g :: "nat \<Rightarrow> 'pt \<Rightarrow> nat option \<times> 'pt"
  translate_addr :: "'pt \<Rightarrow> nat \<Rightarrow> nat option"

type_synonym 'pt memory_state = "'pt \<times> frame_allocator"

section \<open>Ranges\<close>

definition range_pages :: "nat \<Rightarrow> nat \<Rightarrow> nat list outcome" where
  "range_pages start_address n_bytes =
     obind (uadd start_address n_bytes) (\<lambda>e. obind (virt_addr_new e) (\<lambda>e.
     obind (usub e 1) (\<lambda>e. obind (virt_addr_new e) (\<lambda>e.
     Returns (page_range_inclusive (containing_page start_address) (containing_page e))))))"

fun alloc_pages :: "get_bit_fn \<Rightarrow> set_bit_fn \<Rightarrow> 'pt mapper \<Rightarrow> page_flag set \<Rightarrow> nat list \<Rightarrow> 'pt memory_state
    \<Rightarrow> ((map_to_error + unit) \<times> 'pt memory_state) outcome" where
  "alloc_pages gb sb M fl [] st = Returns (Inr (), st)"
| "alloc_pages gb sb M fl (page # pages) (pt, a) =
     obind (allocate_frame gb sb a) (\<lambda>(r, a). case r of
       None \<Rightarrow> Returns (Inl FrameAllocationFailed, pt, a)
     | Some frame \<Rightarrow> (case map_to M page frame fl (pt, a) of
         (Inl e, st) \<Rightarrow> Returns (Inl e, st)
       | (Inr _, st) \<Rightarrow> alloc_pages gb sb M fl pages st))"

definition alloc_range :: "get_bit_fn \<Rightarrow> set_bit_fn \<Rightarrow> 'pt mapper \<Rightarrow> nat \<Rightarrow> nat \<Rightarrow> page_flag set \<Rightarrow> 'pt memory_state
    \<Rightarrow> ((map_to_error + unit) \<times> 'pt memory_state) outcome" where
  "alloc_range gb sb M start_address n_bytes fl st =
     obind (range_pages start_address n_bytes) (\<lambda>page_range. alloc_pages gb sb M fl page_range st)"

definition dealloc_page :: "set_bit_fn \<Rightarrow> 'pt mapper \<Rightarrow> nat \<Rightarrow> 'pt memory_state \<Rightarrow> 'pt memory_state outcome" where
  "dealloc_page sb M page st = (case st of (pt, a) \<Rightarrow>
     (case unmap_4k M page pt of
        (None, pt) \<Rightarrow> Panics
      | (Some frame, pt) \<Rightarrow> obind (deallocate_frame sb frame a) (\<lambda>a. Returns (pt, a))))"

definition dealloc_range :: "set_bit_fn \<Rightarrow> 'pt mapper \<Rightarrow> nat \<Rightarrow> nat \<Rightarrow> 'pt memory_state \<Rightarrow> 'pt memory_state outcome" where
  "dealloc_range sb M start_address n_bytes st =
     obind (range_pages start_address n_bytes) (\<lambda>page_range. ofold (dealloc_page sb M) page_range st)"

section \<open>DMA memory and explicit mappings\<close>

definition alloc_for_dma :: "get_bit_fn \<Rightarrow> set_bit_fn \<Rightarrow> nat \<Rightarrow> nat \<Rightarrow> frame_allocator
    \<Rightarrow> ((nat \<times> nat) \<times> frame_allocator) outcome" where
  "alloc_for_dma gb sb hhdm cnt a =
     obind (allocate_frames gb sb cnt a) (\<lambda>(r, a).
     obind (unwrap r) (\<lambda>phys.
     obind (phys_addr_new phys) (\<lambda>phys.
     obind (convert_physical_to_virtual hhdm phys) (\<lambda>virt.
     Returns ((phys, virt), a)))))"

definition dealloc_for_dma :: "set_bit_fn \<Rightarrow> nat \<Rightarrow> nat \<Rightarrow> nat \<Rightarrow> frame_allocator \<Rightarrow> frame_allocator outcome" where
  "dealloc_for_dma sb hhdm virt_addr cnt a =
     obind (convert_virtual_to_physical hhdm virt_addr) (\<lambda>phys.
     deallocate_frames sb (containing_page phys) cnt a)"

definition map_expect :: "(map_to_error + unit) \<times> 'pt memory_state \<Rightarrow> 'pt memory_state outcome" where
  "map_expect r = (case r of (Inl _, _) \<Rightarrow> Panics | (Inr _, st) \<Rightarrow> Returns st)"

definition do_map_to :: "'pt mapper \<Rightarrow> nat \<Rightarrow> nat \<Rightarrow> page_flag set \<Rightarrow> 'pt memory_state \<Rightarrow> 'pt memory_state outcome" where
  "do_map_to M virt phys fl st =
     obind (virt_addr_new virt) (\<lambda>virt.
     obind (phys_addr_new phys) (\<lambda>phys.
     let page = containing_page virt; frame = containing_page phys in
     (case map_to M page frame fl st of
        (Inr _, st) \<Rightarrow> Returns st
      | (Inl FrameAllocationFailed, _) \<Rightarrow> Panics
      | (Inl (PageAlreadyMapped _), (pt, a)) \<Rightarrow>
          (case translate_addr M pt virt of
             None \<Rightarrow> Panics
           | Some p \<Rightarrow>
               if p \<noteq> phys then
                 (case unmap_4k M page pt of
                    (None, _) \<Rightarrow> Panics
                  | (Some _, pt) \<Rightarrow> map_expect (map_to M page frame fl (pt, a)))
               else Returns (pt, a))
      | (Inl ParentEntryHugePage, (pt, a)) \<Rightarrow>
          (case unmap_2m M virt pt of
             (Some _, pt) \<Rightarrow> map_expect (map_to M page frame fl (pt, a))
           | (None, pt) \<Rightarrow>
               (case unmap_1g M virt pt of
                  (Some _, pt) \<Rightarrow> map_expect (map_to M page frame fl (pt, a))
                | (None, _) \<Rightarrow> Panics)))))"

definition map_virt_to_phys :: "'pt mapper \<Rightarrow> nat \<Rightarrow> nat \<Rightarrow> nat \<Rightarrow> page_flag set \<Rightarrow> 'pt memory_state
    \<Rightarrow> 'pt memory_state outcome" where
  "map_virt_to_phys M virt phys n_bytes fl st =
     ofold (\<lambda>i st. obind (uadd virt (i * 4096)) (\<lambda>v. obind (uadd phys (i * 4096)) (\<lambda>p. do_map_to M v p fl st)))
       [0..<n_bytes div 4096] st"

definition do_map_phys :: "get_bit_fn \<Rightarrow> set_bit_fn \<Rightarrow> 'pt mapper \<Rightarrow> nat \<Rightarrow> page_flag set \<Rightarrow> 'pt memory_state
    \<Rightarrow> 'pt memory_state outcome" where
  "do_map_phys gb sb M virt fl st = (case st of (pt, a) \<Rightarrow>
     obind (allocate_frame gb sb a) (\<lambda>(r, a). obind (unwrap r) (\<lambda>phys. do_map_to M virt phys fl (pt, a))))"

definition map_phys :: "get_bit_fn \<Rightarrow> set_bit_fn \<Rightarrow> 'pt mapper \<Rightarrow> nat \<Rightarrow> nat \<Rightarrow> page_flag set \<Rightarrow> 'pt memory_state
    \<Rightarrow> 'pt memory_state outcome" where
  "map_phys gb sb M virt n_bytes fl st =
     ofold (\<lambda>i st. obind (uadd virt (i * 4096)) (\<lambda>v. do_map_phys gb sb M v fl st)) [0..<n_bytes div 4096] st"

section \<open>Writing through a page table, heap, stack and program segments\<close>

definition write_to_mapped_address :: "'pt mapper \<Rightarrow> nat \<Rightarrow> 'pt \<Rightarrow> u8 list \<Rightarrow> nat \<Rightarrow> (nat \<Rightarrow> u8) \<Rightarrow> (nat \<Rightarrow> u8) outcome" where
  "write_to_mapped_address M hhdm pt buffer address raw =
     ofold (\<lambda>(offset, byte) raw.
       obind (uadd address offset) (\<lambda>v. obind (virt_addr_new v) (\<lambda>v.
       obind (unwrap (translate_addr M pt v)) (\<lambda>physical_address.
       obind (convert_physical_to_virtual hhdm physical_address) (\<lambda>virtual_address.
       Returns (raw(virtual_address := byte))))))) (enumerate 0 buffer) raw"

definition HEAP_START :: nat where "HEAP_START = 0x114514000000"
definition HEAP_SIZE :: nat where "HEAP_SIZE = 64 * 1024 * 1024"

definition alloc_range_unwrap :: "get_bit_fn \<Rightarrow> set_bit_fn \<Rightarrow> 'pt mapper \<Rightarrow> nat \<Rightarrow> nat \<Rightarrow> page_flag set \<Rightarrow> 'pt memory_state
    \<Rightarrow> 'pt memory_state outcome" where
  "alloc_range_unwrap gb sb M start_address n_bytes fl st =
     obind (alloc_range gb sb M start_address n_bytes fl st) map_expect"

definition init_heap :: "get_bit_fn \<Rightarrow> set_bit_fn \<Rightarrow> 'pt mapper \<Rightarrow> 'pt memory_state \<Rightarrow> 'pt memory_state outcome" where
  "init_heap gb sb M st = alloc_range_unwrap gb sb M HEAP_START HEAP_SIZE (mapping_flags UserData) st"

definition USER_STACK_END :: nat where "USER_STACK_END = 0x7ffffefff000"
definition USER_STACK_SIZE :: nat where "USER_STACK_SIZE = 256 * 1024"

definition user_stack_new :: "get_bit_fn \<Rightarrow> set_bit_fn \<Rightarrow> 'pt mapper \<Rightarrow> 'pt memory_state
    \<Rightarrow> (nat \<times> 'pt memory_state) outcome" where
  "user_stack_new gb sb M st =
     obind (alloc_range_unwrap gb sb M (USER_STACK_END - USER_STACK_SIZE) USER_STACK_SIZE (mapping_flags UserData) st)
       (\<lambda>st. Returns (USER_STACK_END, st))"

text \<open>A segment of the parsed executable: its address, its size and its data.\<close>

record segment =
  seg_address :: nat
  seg_size :: nat
  seg_data :: "u8 list option"

definition map_segment :: "get_bit_fn \<Rightarrow> set_bit_fn \<Rightarrow> 'pt mapper \<Rightarrow> nat \<Rightarrow> segment \<Rightarrow> 'pt memory_state \<times> (nat \<Rightarrow> u8)
    \<Rightarrow> ('pt memory_state \<times> (nat \<Rightarrow> u8)) outcome" where
  "map_segment gb sb M hhdm seg st = (case st of (ms, raw) \<Rightarrow>
     obind (virt_addr_new (seg_address seg)) (\<lambda>address.
     obind (alloc_range_unwrap gb sb M address (seg_size seg) (mapping_flags UserCode) ms) (\<lambda>ms.
     (case seg_data seg of
        None \<Rightarrow> Returns (ms, raw)
      | Some data \<Rightarrow>
          obind (write_to_mapped_address M hhdm (fst ms) data address raw) (\<lambda>raw. Returns (ms, raw))))))"

definition map_segments :: "get_bit_fn \<Rightarrow> set_bit_fn \<Rightarrow> 'pt mapper \<Rightarrow> nat \<Rightarrow> segment list \<Rightarrow> 'pt memory_state \<times> (nat \<Rightarrow> u8)
    \<Rightarrow> ('pt memory_state \<times> (nat \<Rightarrow> u8)) outcome" where
  "map_segments gb sb M hhdm segments st = ofold (map_segment gb sb M hhdm) segments st"

section \<open>What the mapper promises\<close>

text \<open>\<open>tr pt v\<close> is the result of \<open>Translate::translate\<close> of the crate: the physical address of \<open>v\<close> and the flags of
  its page; \<open>translate_addr\<close> is documented as its address.  A successful \<open>map_to\<close> with flags that contain \<open>PRESENT\<close> and
  not \<open>HUGE_PAGE\<close> maps exactly the page it names, with these flags; a failing one maps nothing.  Both take from the frame
  allocator at most one frame for each of the three lower levels of tables.  The documented errors are that the
  allocator had no frame left for a table and that the page is mapped already, by itself or inside a huge page.\<close>

definition mapper_laws :: "'pt mapper \<Rightarrow> ('pt \<Rightarrow> nat \<Rightarrow> (nat \<times> page_flag set) option) \<Rightarrow> bool" where
  "mapper_laws M tr \<longleftrightarrow>
     (\<forall>pt v. translate_addr M pt v = map_option fst (tr pt v)) \<and>
     (\<forall>n f fl pt a u pt' a'. PRESENT \<in> fl \<longrightarrow> HUGE_PAGE \<notin> fl \<longrightarrow> canonical (n * 4096) \<longrightarrow>
        map_to M (n * 4096) (f * 4096) fl (pt, a) = (Inr u, pt', a') \<longrightarrow>
        (\<forall>v. tr pt' v = (if v div 4096 = n then Some (f * 4096 + v mod 4096, fl) else tr pt v))) \<and>
     (\<forall>n f fl pt a e pt' a'. map_to M (n * 4096) f fl (pt, a) = (Inl e, pt', a') \<longrightarrow> tr pt' = tr pt \<and>
        (if e = FrameAllocationFailed then usable_frames a < 3 else tr pt (n * 4096) \<noteq> None)) \<and>
     (\<forall>n f fl pt a r pt' a'. map_to M n f fl (pt, a) = (r, pt', a') \<longrightarrow> fa_inv a \<longrightarrow>
        fa_inv a' \<and> free_frames a' \<subseteq> free_frames a \<and> usable_frames a \<le> usable_frames a' + 3)"

lemma mapper_laws_D:
  assumes "mapper_laws M tr"
  shows "translate_addr M pt v = map_option fst (tr pt v)"
    and "PRESENT \<in> fl \<Longrightarrow> HUGE_PAGE \<notin> fl \<Longrightarrow> canonical (n * 4096) \<Longrightarrow>
      map_to M (n * 4096) (f * 4096) fl (pt, a) = (Inr u, pt', a') \<Longrightarrow>
      tr pt' v = (if v div 4096 = n then Some (f * 4096 + v mod 4096, fl) else tr pt v)"
    and "map_to M (n * 4096) q fl (pt, a) = (Inl e, pt', a') \<Longrightarrow> tr pt' = tr pt \<and> (usable_frames a < 3 \<or> tr pt (n * 4096) \<noteq> None)"
    and "map_to M p q fl (pt, a) = (r, pt', a') \<Longrightarrow> fa_inv a \<Longrightarrow>
      fa_inv a' \<and> free_frames a' \<subseteq> free_frames a \<and> usable_frames a \<le> usable_frames a' + 3"
proof -
  note laws = assms [unfolded mapper_laws_def]
  show "translate_addr M pt v = map_option fst (tr pt v)" using laws [THEN conjunct1] by blast
  show "PRESENT \<in> fl \<Longrightarrow> HUGE_PAGE \<notin> fl \<Longrightarrow> canonical (n * 4096) \<Longrightarrow>
      map_to M (n * 4096) (f * 4096) fl (pt, a) = (Inr u, pt', a') \<Longrightarrow>
      tr pt' v = (if v div 4096 = n then Some (f * 4096 + v mod 4096, fl) else tr pt v)"
    using laws [THEN conjunct2, THEN conjunct1] by blast
  show "map_to M (n * 4096) q fl (pt, a) = (Inl e, pt', a') \<Longrightarrow> tr pt' = tr pt \<and> (usable_frames a < 3 \<or> tr pt (n * 4096) \<noteq> None)"
    using laws [THEN conjunct2, THEN conjunct2, THEN conjunct1] by (cases "e = FrameAllocationFailed") (metis (full_types))+
  show "map_to M p q fl (pt, a) = (r, pt', a') \<Longrightarrow> fa_inv a \<Longrightarrow>
      fa_inv a' \<and> free_frames a' \<subseteq> free_frames a \<and> usable_frames a \<le> usable_frames a' + 3"
    using laws [THEN conjunct2, THEN conjunct2, THEN conjunct2] by blast
qed

text \<open>The pages \<open>ns\<close> have been mapped with the flags \<open>fl\<close> to distinct frames that were free.\<close>

definition mapped_to :: "('pt \<Rightarrow> nat \<Rightarrow> (nat \<times> page_flag set) option) \<Rightarrow> page_flag set \<Rightarrow> nat set
    \<Rightarrow> 'pt memory_state \<Rightarrow> 'pt memory_state \<Rightarrow> (nat \<Rightarrow> nat) \<Rightarrow> bool" where
  "mapped_to tr fl ns st st' fr \<longleftrightarrow> inj_on fr ns \<and> fr ` ns \<subseteq> free_frames (snd st) - free_frames (snd st') \<and>
     (\<forall>v. tr (fst st') v =
       (if v div 4096 \<in> ns then Some (fr (v div 4096) * 4096 + v mod 4096, fl) else tr (fst st) v))"

lemma mapped_to_Cons:
  assumes "mapped_to tr fl ns (pt2, a2) (pt', a') fr" "n \<notin> ns"
    and "\<And>v. tr pt2 v = (if v div 4096 = n then Some (f * 4096 + v mod 4096, fl) else tr pt v)"
    and "f \<in> free_frames a" "free_frames a2 \<subseteq> free_frames a - {f}" "free_frames a' \<subseteq> free_frames a2"
  shows "mapped_to tr fl (insert n ns) (pt, a) (pt', a') (fr(n := f))"
  using assms unfolding mapped_to_def by (auto simp: inj_on_def)

lemma alloc_pages_spec:
  assumes bb: "byte_bits gb sb" and laws: "mapper_laws M tr" and fl: "PRESENT \<in> fl" "HUGE_PAGE \<notin> fl"
  shows "fa_inv a \<Longrightarrow> distinct ns \<Longrightarrow> \<forall>n\<in>set ns. canonical (n * 4096) \<Longrightarrow>
    \<exists>r pt' a'. alloc_pages gb sb M fl (map (\<lambda>i. i * 4096) ns) (pt, a) = Returns (r, pt', a') \<and>
      fa_inv a' \<and> free_frames a' \<subseteq> free_frames a \<and>
      (case r of
         Inr _ \<Rightarrow> \<exists>fr. mapped_to tr fl (set ns) (pt, a) (pt', a') fr
       | Inl e \<Rightarrow> usable_frames a < 4 * length ns \<or> (\<exists>n\<in>set ns. tr pt (n * 4096) \<noteq> None))"
proof (induction ns arbitrary: pt a)
  case Nil
  then show ?case by (intro exI [of _ "Inr ()"] exI [of _ pt] exI [of _ a]) (auto simp: mapped_to_def)
next
  case (Cons n ns)
  show ?case
  proof (cases "usable_frames a = 0")
    case True
    then show ?thesis using Cons.prems
      by (intro exI [of _ "Inl FrameAllocationFailed"] exI [of _ pt] exI [of _ a]) (auto simp: allocate_frame_def)
  next
    case False
    obtain f a1 where f: "allocate_frame gb sb a = Returns (Some (f * 4096), a1)" "f \<in> free_frames a"
      "free_frames a1 = free_frames a - {f}" "fa_inv a1" "usable_frames a1 = usable_frames a - 1"
      using byte_bits.allocate_frame_inv [OF bb Cons.prems(1) False] by blast
    obtain r pt2 a2 where m: "map_to M (n * 4096) (f * 4096) fl (pt, a1) = (r, pt2, a2)"
      by (metis prod_cases3)
    have a2: "fa_inv a2" "free_frames a2 \<subseteq> free_frames a1" "usable_frames a1 \<le> usable_frames a2 + 3"
      using mapper_laws_D(4) [OF laws m f(4)] by auto
    show ?thesis
    proof (cases r)
      case (Inl e)
      then have "usable_frames a1 < 3 \<or> tr pt (n * 4096) \<noteq> None" using mapper_laws_D(3) [OF laws m [unfolded Inl]] by blast
      then show ?thesis using f m a2 Inl
        by (intro exI [of _ "Inl e"] exI [of _ pt2] exI [of _ a2]) auto
    next
      case (Inr u)
      note tr2 = mapper_laws_D(2) [OF laws fl _ m [unfolded Inr]]
      have n: "canonical (n * 4096)" "n \<notin> set ns" "distinct ns" "\<forall>n\<in>set ns. canonical (n * 4096)" using Cons.prems by auto
      obtain r' pt' a' where rest: "alloc_pages gb sb M fl (map (\<lambda>i. i * 4096) ns) (pt2, a2) = Returns (r', pt', a')"
        "fa_inv a'" "free_frames a' \<subseteq> free_frames a2"
        "case r' of Inr _ \<Rightarrow> \<exists>fr. mapped_to tr fl (set ns) (pt2, a2) (pt', a') fr
         | Inl e \<Rightarrow> usable_frames a2 < 4 * length ns \<or> (\<exists>n\<in>set ns. tr pt2 (n * 4096) \<noteq> None)"
        using Cons.IH [OF a2(1) n(3,4), of pt2] by blast
      have run: "alloc_pages gb sb M fl (map (\<lambda>i. i * 4096) (n # ns)) (pt, a) = Returns (r', pt', a')"
        using f m Inr rest by simp
      have "case r' of Inr _ \<Rightarrow> \<exists>fr. mapped_to tr fl (set (n # ns)) (pt, a) (pt', a') fr
         | Inl e \<Rightarrow> usable_frames a < 4 * length (n # ns) \<or> (\<exists>n\<in>set (n # ns). tr pt (n * 4096) \<noteq> None)"
      proof (cases r')
        case (Inl e)
        have "tr pt2 (k * 4096) = tr pt (k * 4096)" if "k \<in> set ns" for k using tr2 [OF n(1)] n(2) that by auto
        then show ?thesis using rest(4) Inl a2(3) f(5) by auto
      next
        case (Inr u')
        then obtain fr where "mapped_to tr fl (set ns) (pt2, a2) (pt', a') fr" using rest(4) by auto
        from mapped_to_Cons [OF this n(2) tr2 [OF n(1)] f(2) _ rest(3)] a2(2) f(3) Inr show ?thesis by auto
      qed
      then show ?thesis using run rest(2,3) a2(2) f(3) by (intro exI [of _ r'] exI [of _ pt'] exI [of _ a']) blast
    qed
  qed
qed

section \<open>Properties\<close>

lemma range_pages_spec:
  assumes "0 < n_bytes" "start + n_bytes < 2 ^ 47"
  shows "range_pages start n_bytes =
     Returns (map (\<lambda>i. i * 4096) [start div 4096..<(start + n_bytes - 1) div 4096 + 1])"
proof -
  have page: "containing_page x div 4096 = x div 4096" for x
    by (simp add: containing_page_def minus_mod_eq_mult_div)
  have "start + n_bytes - 1 < 2 ^ 47" using assms by linarith
  then show ?thesis using assms
    by (simp add: range_pages_def uadd_def usub_def usize_max_def virt_addr_new_def canonical_def
        page_range_inclusive_def page)
qed


text \<open>A mapper over a partial function from pages to frames and flags; it needs no tables.\<close>

definition flat_translate :: "(nat \<Rightarrow> (nat \<times> page_flag set) option) \<Rightarrow> nat \<Rightarrow> (nat \<times> page_flag set) option" where
  "flat_translate pt v = map_option (\<lambda>(g, fl). (g * 4096 + v mod 4096, fl)) (pt (v div 4096))"

definition flat_mapper :: "(nat \<Rightarrow> (nat \<times> page_flag set) option) mapper" where
  "flat_mapper = \<lparr>
     map_to = (\<lambda>p f fl (pt, a). case pt (p div 4096) of
        Some (g, _) \<Rightarrow> (Inl (PageAlreadyMapped (g * 4096)), pt, a)
      | None \<Rightarrow> (Inr (), pt(p div 4096 \<mapsto> (f div 4096, fl)), a)),
     unmap_4k = (\<lambda>p pt. (map_option (\<lambda>(g, _). g * 4096) (pt (p div 4096)), pt(p div 4096 := None))),
     unmap_2m = (\<lambda>p pt. (None, pt)), unmap_1g = (\<lambda>p pt. (None, pt)),
     translate_addr = (\<lambda>pt v. map_option fst (flat_translate pt v))\<rparr>"

lemma flat_mapper_laws: "mapper_laws flat_mapper flat_translate"
  by (auto simp: mapper_laws_def flat_mapper_def flat_translate_def fun_eq_iff split: option.splits)


text \<open>C22. \<open>write_to_mapped_address\<close> stores a buffer so that it is read back through the page table:
  if the addresses of the buffer are mapped, each to its own physical address, the write succeeds, the
  byte at offset \<open>i\<close> is found at the direct mapping of the translation of \<open>address + i\<close>,
  and no other byte changes.\<close>

theorem write_to_mapped_address_reads_back:
  assumes "\<And>i. i < length buffer \<Longrightarrow> translate_addr M pt (address + i) = Some (phys i)"
    and "inj_on phys {..<length buffer}" "address + length buffer < 2 ^ 47"
    and "\<And>i. i < length buffer \<Longrightarrow> phys i < 2 ^ 46" "canonical hhdm" "2 ^ 63 \<le> hhdm" "hhdm + 2 ^ 46 \<le> usize_max"
  shows "\<exists>raw'. write_to_mapped_address M hhdm pt buffer address raw = Returns raw' \<and>
     (\<forall>i < length buffer. raw' (phys i + hhdm) = buffer ! i) \<and>
     (\<forall>v. v \<notin> (\<lambda>i. phys i + hhdm) ` {..<length buffer} \<longrightarrow> raw' v = raw v)"
  using assms(1-4)
proof (induction buffer rule: rev_induct)
  case Nil
  then show ?case by (simp add: write_to_mapped_address_def)
next
  case (snoc b buffer)
  let ?n = "length buffer"
  have inj: "inj_on phys {..<?n}" using snoc.prems(2) by (rule inj_on_subset) auto
  have "\<exists>raw'. write_to_mapped_address M hhdm pt buffer address raw = Returns raw' \<and>
     (\<forall>i < ?n. raw' (phys i + hhdm) = buffer ! i) \<and>
     (\<forall>v. v \<notin> (\<lambda>i. phys i + hhdm) ` {..<?n} \<longrightarrow> raw' v = raw v)"
    using snoc.prems inj by (intro snoc.IH) simp_all
  then obtain raw1 where raw1: "write_to_mapped_address M hhdm pt buffer address raw = Returns raw1"
    "\<And>i. i < ?n \<Longrightarrow> raw1 (phys i + hhdm) = buffer ! i"
    "\<And>v. v \<notin> (\<lambda>i. phys i + hhdm) ` {..<?n} \<Longrightarrow> raw1 v = raw v" by blast
  have phys: "phys ?n < 2 ^ 46" "translate_addr M pt (address + ?n) = Some (phys ?n)" using snoc.prems by auto
  have new: "phys i \<noteq> phys ?n" if "i < ?n" for i
    using that snoc.prems(2) by (auto simp: inj_on_def dest: bspec [of _ _ i])
  have "write_to_mapped_address M hhdm pt (buffer @ [b]) address raw = Returns (raw1(phys ?n + hhdm := b))"
    using raw1(1) phys snoc.prems(3) assms(5-7)
    by (simp add: write_to_mapped_address_def enumerate_append_eq ofold_append uadd_def usize_max_def
        virt_addr_new_def canonical_def convert_physical_to_virtual_def)
  with raw1(2,3) new show ?case
    by (intro exI [of _ "raw1(phys ?n + hhdm := b)"]) (auto simp: nth_append less_Suc_eq lessThan_Suc)
qed

theorem write_to_mapped_address_reads_back_witness:
  "\<exists>raw'. write_to_mapped_address flat_mapper 0xFFFF800000000000 [1 \<mapsto> (3, {PRESENT})] [0xAA, 0xBB] 4096 (\<lambda>_. 0) = Returns raw' \<and>
     (\<forall>i < length [0xAA, 0xBB::u8]. raw' ((12288 + i) + 0xFFFF800000000000) = [0xAA, 0xBB] ! i) \<and>
     (\<forall>v. v \<notin> (\<lambda>i. (12288 + i) + 0xFFFF800000000000) ` {..<length [0xAA, 0xBB::u8]} \<longrightarrow> raw' v = 0)"
proof (rule write_to_mapped_address_reads_back)
  fix i
  assume "i < length [0xAA, 0xBB::u8]"
  then have "(4096 + i) div 4096 = 1" "(4096 + i) mod 4096 = i" by auto
  then show "translate_addr flat_mapper [1 \<mapsto> (3, {PRESENT})] (4096 + i) = Some (12288 + i)"
    by (simp add: flat_mapper_def flat_translate_def)
  show "12288 + i < 2 ^ 46" using \<open>i < length [0xAA, 0xBB::u8]\<close> by simp
qed (simp_all add: canonical_def usize_max_def inj_on_def)

end
