(* ===== verification/Ahci.thy ===== *)
theory Ahci
  imports Prelude
begin

text \<open>Disks: the AHCI driver \<open>kernel/src/device/ahci.rs\<close> and the list of block devices
  \<open>kernel/src/device/block.rs\<close>.

  The controller and the disk behind it are hardware: issuing a command is the parameter \<open>issue\<close>,
  which maps the state of the disk, the command FIS and the contents of the data buffer to the state and
  the buffer when the controller has cleared the command issue bit.  The locale \<open>sata_disk\<close> states
  what the ATA command set says of the commands the driver uses.  The NVMe driver works through a crate
  that is not part of the repository; its block operations are parameters.

  The locale \<open>block_device\<close> is what the block cache relies on; the AHCI disks of the list are
  shown to provide it.\<close>

section \<open>Command FIS\<close>

record fis_reg_h2d =
  fis_type :: u8
  cflags :: u8
  command :: u8
  lba_0 :: u8
  lba_1 :: u8
  lba_2 :: u8
  device :: u8
  lba_3 :: u8
  lba_4 :: u8
  lba_5 :: u8
  sector_count :: u16

definition set_lba :: "u64 \<Rightarrow> fis_reg_h2d \<Rightarrow> fis_reg_h2d" where
  "set_lba lba fis = fis\<lparr>
     lba_0 := ucast (drop_bit 0 lba),
     lba_1 := ucast (drop_bit 8 lba),
     lba_2 := ucast (drop_bit 16 lba),
     lba_3 := ucast (drop_bit 24 lba),
     lba_4 := ucast (drop_bit 32 lba),
     lba_5 := ucast (drop_bit 40 lba)\<rparr>"

definition BLOCK_SIZE :: nat where "BLOCK_SIZE = 512"
definition FIS_TYPE_REG_H2D :: u8 where "FIS_TYPE_REG_H2D = 0x27"
definition CMD_READ_DMA_EXT :: u8 where "CMD_READ_DMA_EXT = 0x25"
definition CMD_WRITE_DMA_EXT :: u8 where "CMD_WRITE_DMA_EXT = 0x35"
definition CMD_IDENTIFY_DEVICE :: u8 where "CMD_IDENTIFY_DEVICE = 0xec"

section \<open>The driver\<close>

type_synonym 'h issue_fn = "'h \<Rightarrow> fis_reg_h2d \<Rightarrow> u8 list \<Rightarrow> 'h \<times> u8 list"

record 'h ahci =
  cfis :: fis_reg_h2d
  ahci_data :: "u8 list"
  port :: 'h

definition execute_command :: "'h issue_fn \<Rightarrow> u8 \<Rightarrow> u64 \<Rightarrow> 'h ahci \<Rightarrow> 'h ahci" where
  "execute_command issue cmd start_sector a =
     (let fis = (cfis a)\<lparr>
        fis_type := FIS_TYPE_REG_H2D,
        cflags := push_bit 7 1,
        command := cmd,
        device := (if cmd = CMD_READ_DMA_EXT \<or> cmd = CMD_WRITE_DMA_EXT then push_bit 6 1 else 0),
        sector_count := (if cmd = CMD_IDENTIFY_DEVICE then 0 else 1)\<rparr>;
        fis = set_lba start_sector fis
      in case issue (port a) fis (ahci_data a) of (p, d) \<Rightarrow> a\<lparr>cfis := fis, port := p, ahci_data := d\<rparr>)"

text \<open>\<open>buffer.copy_from_slice(&data[..length])\<close> panics unless both have the same length.\<close>

definition copy_from_slice :: "'a list \<Rightarrow> 'a list \<Rightarrow> 'a list outcome" where
  "copy_from_slice dst src = (if length dst = length src then Returns src else Panics)"

definition ahci_read_block :: "'h issue_fn \<Rightarrow> u64 \<Rightarrow> u8 list \<Rightarrow> 'h ahci \<Rightarrow> (u8 list \<times> 'h ahci) outcome" where
  "ahci_read_block issue start_sector buffer a =
     (let a = execute_command issue CMD_READ_DMA_EXT start_sector a;
          n = min (length buffer) BLOCK_SIZE
      in obind (copy_from_slice buffer (take n (ahci_data a))) (\<lambda>buffer. Returns (buffer, a)))"

definition ahci_write_block :: "'h issue_fn \<Rightarrow> u64 \<Rightarrow> u8 list \<Rightarrow> 'h ahci \<Rightarrow> 'h ahci outcome" where
  "ahci_write_block issue start_sector buffer a =
     (let n = min (length buffer) BLOCK_SIZE in
      if length (ahci_data a) < n then Panics
      else Returns (execute_command issue CMD_WRITE_DMA_EXT start_sector
             (a\<lparr>ahci_data := take n buffer @ drop n (ahci_data a)\<rparr>)))"

text \<open>The field \<open>lba48_sectors\<close> of the identify data: a little-endian \<open>u64\<close> at byte 200.\<close>

definition lba48_sectors :: "u8 list \<Rightarrow> u64" where
  "lba48_sectors packet = word_rcat (rev (take 8 (drop 200 packet)))"

definition get_identity :: "'h issue_fn \<Rightarrow> 'h ahci \<Rightarrow> u64 \<times> 'h ahci" where
  "get_identity issue a =
     (let a = execute_command issue CMD_IDENTIFY_DEVICE 0 a in (lba48_sectors (ahci_data a), a))"

section \<open>The list of block devices\<close>

datatype block_dev = AHCIDisk nat | NVMeDisk nat

record ('h, 'n) disks =
  AHCI :: "'h ahci list"
  NVME :: 'n
  HD_LIST :: "block_dev list"

record 'n nvme_api =
  nvme_read_block :: "nat \<Rightarrow> u64 \<Rightarrow> u8 list \<Rightarrow> 'n \<Rightarrow> (u8 list \<times> 'n) outcome"
  nvme_write_block :: "nat \<Rightarrow> u64 \<Rightarrow> u8 list \<Rightarrow> 'n \<Rightarrow> 'n outcome"
  nvme_hd_size :: "nat \<Rightarrow> 'n \<Rightarrow> nat option"
  nvme_hd_num :: "'n \<Rightarrow> nat"

definition get_disk :: "nat \<Rightarrow> 'h ahci list \<Rightarrow> 'h ahci option" where
  "get_disk index disks = (if index < length disks then Some (disks ! index) else None)"

definition hd_read_block :: "'h issue_fn \<Rightarrow> 'n nvme_api \<Rightarrow> nat \<Rightarrow> nat \<Rightarrow> u8 list \<Rightarrow> ('h, 'n) disks
    \<Rightarrow> (u8 list \<times> ('h, 'n) disks) outcome" where
  "hd_read_block issue N hd_id start_sec buf d =
     (if length (HD_LIST d) \<le> hd_id then Panics
      else case HD_LIST d ! hd_id of
        AHCIDisk num \<Rightarrow>
          obind (unwrap (get_disk num (AHCI d))) (\<lambda>a.
          obind (ahci_read_block issue (word_of_nat start_sec) buf a) (\<lambda>(buf, a).
          Returns (buf, d\<lparr>AHCI := (AHCI d)[num := a]\<rparr>)))
      | NVMeDisk num \<Rightarrow>
          obind (nvme_read_block N num (word_of_nat start_sec) buf (NVME d)) (\<lambda>(buf, n).
          Returns (buf, d\<lparr>NVME := n\<rparr>)))"

definition hd_write_block :: "'h issue_fn \<Rightarrow> 'n nvme_api \<Rightarrow> nat \<Rightarrow> nat \<Rightarrow> u8 list \<Rightarrow> ('h, 'n) disks
    \<Rightarrow> ('h, 'n) disks outcome" where
  "hd_write_block issue N hd_id start_sec buf d =
     (if length (HD_LIST d) \<le> hd_id then Panics
      else case HD_LIST d ! hd_id of
        AHCIDisk num \<Rightarrow>
          obind (unwrap (get_disk num (AHCI d))) (\<lambda>a.
          obind (ahci_write_block issue (word_of_nat start_sec) buf a) (\<lambda>a.
          Returns (d\<lparr>AHCI := (AHCI d)[num := a]\<rparr>)))
      | NVMeDisk num \<Rightarrow>
          obind (nvme_write_block N num (word_of_nat start_sec) buf (NVME d)) (\<lambda>n.
          Returns (d\<lparr>NVME := n\<rparr>)))"

definition hd_get_size :: "'h issue_fn \<Rightarrow> 'n nvme_api \<Rightarrow> nat \<Rightarrow> ('h, 'n) disks \<Rightarrow> (nat \<times> ('h, 'n) disks) outcome" where
  "hd_get_size issue N hd_id d =
     (if length (HD_LIST d) \<le> hd_id then Panics
      else case HD_LIST d ! hd_id of
        AHCIDisk num \<Rightarrow>
          obind (unwrap (get_disk num (AHCI d))) (\<lambda>a.
          case get_identity issue a of (sectors, a) \<Rightarrow>
          obind (umul (unat sectors) 512) (\<lambda>n. Returns (n, d\<lparr>AHCI := (AHCI d)[num := a]\<rparr>)))
      | NVMeDisk num \<Rightarrow> obind (unwrap (nvme_hd_size N num (NVME d))) (\<lambda>n. Returns (n, d)))"

definition block_init :: "'n nvme_api \<Rightarrow> ('h, 'n) disks \<Rightarrow> ('h, 'n) disks" where
  "block_init N d = d\<lparr>HD_LIST := HD_LIST d @ map AHCIDisk [0..<length (AHCI d)] @ map NVMeDisk [0..<nvme_hd_num N (NVME d)]\<rparr>"

section \<open>What the disk does\<close>

definition fis_lba :: "fis_reg_h2d \<Rightarrow> u64" where
  "fis_lba fis = ucast (lba_0 fis) OR push_bit 8 (ucast (lba_1 fis)) OR push_bit 16 (ucast (lba_2 fis)) OR
     push_bit 24 (ucast (lba_3 fis)) OR push_bit 32 (ucast (lba_4 fis)) OR push_bit 40 (ucast (lba_5 fis))"

lemma bit_byte_of:
  fixes lba :: u64
  assumes "n < 64"
  shows "bit (push_bit k (ucast (ucast (drop_bit k lba) :: u8)) :: u64) n \<longleftrightarrow> k \<le> n \<and> n < k + 8 \<and> bit lba n"
  using assms by (auto simp: bit_simps)

lemma fis_lba_set_lba [simp]: "fis_lba (set_lba lba fis) = take_bit 48 lba"
proof (rule bit_word_eqI)
  fix n
  assume "n < LENGTH(64)"
  then have n: "n < 64" by simp
  have "fis_lba (set_lba lba fis) = push_bit 0 (ucast (ucast (drop_bit 0 lba) :: u8)) OR
      push_bit 8 (ucast (ucast (drop_bit 8 lba) :: u8)) OR push_bit 16 (ucast (ucast (drop_bit 16 lba) :: u8)) OR
      push_bit 24 (ucast (ucast (drop_bit 24 lba) :: u8)) OR push_bit 32 (ucast (ucast (drop_bit 32 lba) :: u8)) OR
      push_bit 40 (ucast (ucast (drop_bit 40 lba) :: u8))"
    by (simp add: fis_lba_def set_lba_def)
  then show "bit (fis_lba (set_lba lba fis)) n \<longleftrightarrow> bit (take_bit 48 lba) n"
    unfolding bit_take_bit_iff by (simp only: bit_or_iff bit_byte_of [OF n]) (auto simp: not_less)
qed

definition transfer_fis :: "u8 \<Rightarrow> fis_reg_h2d \<Rightarrow> bool" where
  "transfer_fis cmd fis \<longleftrightarrow> fis_type fis = 0x27 \<and> bit (cflags fis) 7 \<and> command fis = cmd \<and>
     bit (device fis) 6 \<and> sector_count fis = 1"

text \<open>READ DMA EXT and WRITE DMA EXT of one sector.\<close>

locale sata_disk =
  fixes issue :: "'h issue_fn" and sector :: "'h \<Rightarrow> u64 \<Rightarrow> u8 list"
  assumes length_sector: "length (sector h b) = 512"
    and read_dma: "transfer_fis CMD_READ_DMA_EXT fis \<Longrightarrow> length d = 512 \<Longrightarrow>
      issue h fis d = (h, sector h (fis_lba fis))"
    and write_dma: "transfer_fis CMD_WRITE_DMA_EXT fis \<Longrightarrow> length d = 512 \<Longrightarrow>
      \<exists>h'. issue h fis d = (h', d) \<and> sector h' = (sector h)(fis_lba fis := d)"
begin

lemma ahci_read:
  assumes "length (ahci_data a) = 512" "length buffer = 512"
  shows "\<exists>a'. ahci_read_block issue lba buffer a = Returns (sector (port a) (take_bit 48 lba), a') \<and>
     port a' = port a \<and> length (ahci_data a') = 512"
  using assms length_sector
  by (simp add: ahci_read_block_def execute_command_def read_dma transfer_fis_def set_lba_def
      FIS_TYPE_REG_H2D_def CMD_READ_DMA_EXT_def CMD_IDENTIFY_DEVICE_def bit_exp_iff BLOCK_SIZE_def
      copy_from_slice_def fis_lba_set_lba [unfolded set_lba_def, simplified])

lemma ahci_write:
  assumes "length (ahci_data a) = 512" "length buffer = 512"
  shows "\<exists>a'. ahci_write_block issue lba buffer a = Returns a' \<and>
     sector (port a') = (sector (port a))(take_bit 48 lba := buffer) \<and> length (ahci_data a') = 512"
proof -
  let ?fis = "set_lba lba ((cfis a)\<lparr>fis_type := FIS_TYPE_REG_H2D, cflags := push_bit 7 1,
      command := CMD_WRITE_DMA_EXT, device := push_bit 6 1, sector_count := 1\<rparr>)"
  have "transfer_fis CMD_WRITE_DMA_EXT ?fis"
    by (simp add: transfer_fis_def set_lba_def FIS_TYPE_REG_H2D_def bit_exp_iff)
  from write_dma [OF this assms(2), of "port a"] obtain h' where
    h': "issue (port a) ?fis buffer = (h', buffer)" "sector h' = (sector (port a))(fis_lba ?fis := buffer)" by blast
  have "ahci_write_block issue lba buffer a = Returns (a\<lparr>cfis := ?fis, port := h', ahci_data := buffer\<rparr>)"
    using assms h'(1)
    by (simp add: ahci_write_block_def execute_command_def BLOCK_SIZE_def CMD_WRITE_DMA_EXT_def
        CMD_IDENTIFY_DEVICE_def CMD_READ_DMA_EXT_def)
  with h'(2) assms(2) show ?thesis by simp
qed

end

section \<open>The interface of block devices\<close>

text \<open>What the block cache relies on: the first \<open>lim\<close> blocks of 512 bytes are an array.\<close>

locale block_device =
  fixes rd :: "nat \<Rightarrow> u8 list \<Rightarrow> 'd \<Rightarrow> (u8 list \<times> 'd) outcome"
    and wr :: "nat \<Rightarrow> u8 list \<Rightarrow> 'd \<Rightarrow> 'd outcome"
    and sec :: "'d \<Rightarrow> nat \<Rightarrow> u8 list"
    and dev_ok :: "'d \<Rightarrow> bool"
    and lim :: nat
  assumes sec_length: "dev_ok d \<Longrightarrow> b < lim \<Longrightarrow> length (sec d b) = 512"
    and rd_law: "dev_ok d \<Longrightarrow> b < lim \<Longrightarrow> length buf = 512 \<Longrightarrow>
      \<exists>d'. rd b buf d = Returns (sec d b, d') \<and> dev_ok d' \<and> (\<forall>c. sec d' c = sec d c)"
    and wr_law: "dev_ok d \<Longrightarrow> b < lim \<Longrightarrow> length buf = 512 \<Longrightarrow>
      \<exists>d'. wr b buf d = Returns d' \<and> dev_ok d' \<and> (\<forall>c<lim. sec d' c = (if c = b then buf else sec d c))"

definition hd_ahci :: "nat \<Rightarrow> ('h, 'n) disks \<Rightarrow> 'h ahci option" where
  "hd_ahci hd_id d = (if length (HD_LIST d) \<le> hd_id then None else
     case HD_LIST d ! hd_id of AHCIDisk num \<Rightarrow> get_disk num (AHCI d) | NVMeDisk _ \<Rightarrow> None)"

definition hd_ok :: "nat \<Rightarrow> ('h, 'n) disks \<Rightarrow> bool" where
  "hd_ok hd_id d \<longleftrightarrow> (case hd_ahci hd_id d of None \<Rightarrow> False | Some a \<Rightarrow> length (ahci_data a) = 512)"

definition hd_sector :: "('h \<Rightarrow> u64 \<Rightarrow> u8 list) \<Rightarrow> nat \<Rightarrow> ('h, 'n) disks \<Rightarrow> nat \<Rightarrow> u8 list" where
  "hd_sector sector hd_id d b = sector (port (the (hd_ahci hd_id d))) (word_of_nat b)"

lemma hd_ok_obtain:
  assumes "hd_ok hd_id d"
  obtains num a where "hd_id < length (HD_LIST d)" "HD_LIST d ! hd_id = AHCIDisk num" "num < length (AHCI d)"
    "a = AHCI d ! num" "length (ahci_data a) = 512" "hd_ahci hd_id d = Some a" "get_disk num (AHCI d) = Some a"
  using assms that
  by (auto simp: hd_ok_def hd_ahci_def get_disk_def not_le split: option.splits if_splits block_dev.splits)

lemma unat_word_of_nat_64: "b < 2 ^ 64 \<Longrightarrow> unat (word_of_nat b :: u64) = b"
  by (simp add: unsigned_of_nat take_bit_nat_eq_self)

lemma word_of_nat_48:
  assumes "b < 2 ^ 48"
  shows "take_bit 48 (word_of_nat b :: u64) = word_of_nat b"
proof (rule word_unat_eq_iff [THEN iffD2])
  have "b < 2 ^ 64" using assms by simp
  with assms show "unat (take_bit 48 (word_of_nat b :: u64)) = unat (word_of_nat b :: u64)"
    by (simp only: unsigned_take_bit_eq unat_word_of_nat_64 take_bit_nat_eq_self)
qed

lemma word_of_nat_inj_48:
  "b < 2 ^ 48 \<Longrightarrow> c < 2 ^ 48 \<Longrightarrow> (word_of_nat b :: u64) = word_of_nat c \<longleftrightarrow> b = c"
  by (auto dest!: arg_cong [of "word_of_nat b :: u64" _ unat] simp: unat_word_of_nat_64)

locale ahci_hd = sata_disk issue sector for issue :: "'h issue_fn" and sector +
  fixes N :: "'n nvme_api" and hd_id :: nat
begin

lemma hd_read:
  assumes "hd_ok hd_id d" "b < 2 ^ 48" "length buf = 512"
  shows "\<exists>d'. hd_read_block issue N hd_id b buf d = Returns (hd_sector sector hd_id d b, d') \<and> hd_ok hd_id d' \<and>
     (\<forall>c. hd_sector sector hd_id d' c = hd_sector sector hd_id d c)"
proof -
  from assms(1) obtain num a where d: "hd_id < length (HD_LIST d)" "HD_LIST d ! hd_id = AHCIDisk num"
    "num < length (AHCI d)" "a = AHCI d ! num" "length (ahci_data a) = 512" "hd_ahci hd_id d = Some a"
    "get_disk num (AHCI d) = Some a" by (rule hd_ok_obtain)
  from ahci_read [OF d(5) assms(3)] obtain a' where
    a': "ahci_read_block issue (word_of_nat b) buf a = Returns (sector (port a) (word_of_nat b), a')"
      "port a' = port a" "length (ahci_data a') = 512"
    using word_of_nat_48 [OF assms(2)] by metis
  let ?d = "d\<lparr>AHCI := (AHCI d)[num := a']\<rparr>"
  have "hd_ahci hd_id ?d = Some a'" using d(1-3) by (simp add: hd_ahci_def get_disk_def)
  moreover have "hd_read_block issue N hd_id b buf d = Returns (sector (port a) (word_of_nat b), ?d)"
    using d a'(1) by (simp add: hd_read_block_def)
  ultimately show ?thesis using d a' by (intro exI [of _ ?d]) (simp add: hd_sector_def hd_ok_def)
qed

lemma hd_write:
  assumes "hd_ok hd_id d" "b < 2 ^ 48" "length buf = 512"
  shows "\<exists>d'. hd_write_block issue N hd_id b buf d = Returns d' \<and> hd_ok hd_id d' \<and>
     (\<forall>c<2 ^ 48. hd_sector sector hd_id d' c = (if c = b then buf else hd_sector sector hd_id d c))"
proof -
  from assms(1) obtain num a where d: "hd_id < length (HD_LIST d)" "HD_LIST d ! hd_id = AHCIDisk num"
    "num < length (AHCI d)" "a = AHCI d ! num" "length (ahci_data a) = 512" "hd_ahci hd_id d = Some a"
    "get_disk num (AHCI d) = Some a" by (rule hd_ok_obtain)
  from ahci_write [OF d(5) assms(3)] obtain a' where
    a': "ahci_write_block issue (word_of_nat b) buf a = Returns a'"
      "sector (port a') = (sector (port a))(word_of_nat b := buf)" "length (ahci_data a') = 512"
    using word_of_nat_48 [OF assms(2)] by metis
  let ?d = "d\<lparr>AHCI := (AHCI d)[num := a']\<rparr>"
  have new: "hd_ahci hd_id ?d = Some a'" using d(1-3) by (simp add: hd_ahci_def get_disk_def)
  have "hd_sector sector hd_id ?d c = (if c = b then buf else hd_sector sector hd_id d c)" if "c < 2 ^ 48" for c
    using that assms(2) d(6) by (simp add: hd_sector_def new a'(2) word_of_nat_inj_48)
  moreover have "hd_write_block issue N hd_id b buf d = Returns ?d"
    using d a'(1) by (simp add: hd_write_block_def)
  ultimately show ?thesis using a'(3) by (intro exI [of _ ?d]) (simp add: hd_ok_def new)
qed

end

sublocale ahci_hd \<subseteq> hdb: block_device "hd_read_block issue N hd_id" "hd_write_block issue N hd_id"
    "hd_sector sector hd_id" "hd_ok hd_id" "2 ^ 48"
  by unfold_locales
    (simp add: hd_sector_def length_sector, (rule hd_read; assumption), (rule hd_write; assumption))

text \<open>A disk kept in memory.\<close>

definition ram_issue :: "(u64 \<Rightarrow> nat \<Rightarrow> u8) issue_fn" where
  "ram_issue h fis d =
     (if command fis = CMD_READ_DMA_EXT then (h, map (h (fis_lba fis)) [0..<512])
      else if command fis = CMD_WRITE_DMA_EXT then (h(fis_lba fis := (\<lambda>i. d ! i)), d)
      else (h, d))"

definition ram_sector :: "(u64 \<Rightarrow> nat \<Rightarrow> u8) \<Rightarrow> u64 \<Rightarrow> u8 list" where
  "ram_sector h b = map (h b) [0..<512]"

interpretation ram_disk: sata_disk ram_issue ram_sector
proof
  fix d :: "u8 list" and fis h
  assume "transfer_fis CMD_WRITE_DMA_EXT fis" "length d = 512"
  then have "map ((!) d) [0..<512] = d" by (metis map_nth)
  moreover have "ram_issue h fis d = (h(fis_lba fis := (\<lambda>i. d ! i)), d)"
    using \<open>transfer_fis CMD_WRITE_DMA_EXT fis\<close>
    by (simp add: ram_issue_def transfer_fis_def CMD_WRITE_DMA_EXT_def CMD_READ_DMA_EXT_def)
  ultimately show "\<exists>h'. ram_issue h fis d = (h', d) \<and> ram_sector h' = (ram_sector h)(fis_lba fis := d)"
    by (intro exI [of _ "h(fis_lba fis := (\<lambda>i. d ! i))"]) (auto simp: ram_sector_def fun_eq_iff)
qed (simp_all add: ram_sector_def ram_issue_def transfer_fis_def)

end
