(* ===== verification/BlockCache.thy ===== *)
theory BlockCache
  imports Ahci
begin

text \<open>Byte access to disks: the block cache \<open>kernel/src/fs/vfs/cache.rs\<close>, the disk inode
  \<open>fs/vfs/dev/block.rs\<close> and the partition inode \<open>fs/vfs/dev/partition.rs\<close>.

  The state is the pair of the cache of the inode, an ordered map from block numbers to buffers of 512
  bytes, and the device.  The refinement is to an array of bytes: \<open>flat\<close> is the contents of the
  disk as the inode sees it, and \<open>read_at\<close> and \<open>write_at\<close> read and update it.  The lemmas
  are proved once over the contract \<open>block_device\<close>.\<close>

section \<open>CacheManager\<close>

type_synonym caches = "(nat, u8 list) btree"

definition cache_new :: "u8 list" where
  "cache_new = replicate 512 0"

definition has_cache_on :: "nat \<Rightarrow> caches \<Rightarrow> bool" where
  "has_cache_on block cs \<longleftrightarrow> bt_get cs block \<noteq> None"

definition add_cache :: "nat \<Rightarrow> u8 list \<Rightarrow> caches \<Rightarrow> caches" where
  "add_cache block_id cache cs = bt_insert block_id cache cs"

text \<open>The first part of both loops: a block that is not in the cache is read from the device.\<close>

definition cache_fill :: "(nat \<Rightarrow> u8 list \<Rightarrow> 'd \<Rightarrow> (u8 list \<times> 'd) outcome) \<Rightarrow> nat \<Rightarrow> caches \<times> 'd
    \<Rightarrow> (caches \<times> 'd) outcome" where
  "cache_fill rd block_id st = (case st of (cs, d) \<Rightarrow>
     if \<not> has_cache_on block_id cs then
       obind (rd block_id cache_new d) (\<lambda>(new_cache, d). Returns (add_cache block_id new_cache cs, d))
     else Returns (cs, d))"

definition slice_write :: "'a list \<Rightarrow> nat \<Rightarrow> nat \<Rightarrow> 'a list \<Rightarrow> 'a list outcome" where
  "slice_write buf start n src =
     (if start + n \<le> length buf \<and> length src = n then Returns (take start buf @ src @ drop (start + n) buf)
      else Panics)"

definition slice_read :: "'a list \<Rightarrow> nat \<Rightarrow> nat \<Rightarrow> 'a list outcome" where
  "slice_read buf start n = (if start + n \<le> length buf then Returns (take n (drop start buf)) else Panics)"

definition read_block_step :: "(nat \<Rightarrow> u8 list \<Rightarrow> 'd \<Rightarrow> (u8 list \<times> 'd) outcome) \<Rightarrow> nat \<Rightarrow> nat
    \<Rightarrow> u8 list \<times> caches \<times> 'd \<Rightarrow> (u8 list \<times> caches \<times> 'd) outcome" where
  "read_block_step rd start_block block_id s = (case s of (buf, st) \<Rightarrow>
     obind (cache_fill rd block_id st) (\<lambda>(cs, d).
     obind (unwrap (bt_get cs block_id)) (\<lambda>cache.
     obind (slice_write buf ((block_id - start_block) * 512) 512 cache) (\<lambda>buf.
     Returns (buf, cs, d)))))"

definition read_from_cache :: "(nat \<Rightarrow> u8 list \<Rightarrow> 'd \<Rightarrow> (u8 list \<times> 'd) outcome) \<Rightarrow> nat \<Rightarrow> u8 list \<Rightarrow> caches \<times> 'd
    \<Rightarrow> (u8 list \<times> caches \<times> 'd) outcome" where
  "read_from_cache rd start_block buf st =
     ofold (read_block_step rd start_block) [start_block..<start_block + length buf div 512] (buf, st)"

definition write_block_step :: "(nat \<Rightarrow> u8 list \<Rightarrow> 'd \<Rightarrow> (u8 list \<times> 'd) outcome) \<Rightarrow> nat \<Rightarrow> u8 list \<Rightarrow> nat
    \<Rightarrow> caches \<times> 'd \<Rightarrow> (caches \<times> 'd) outcome" where
  "write_block_step rd start_block buf block_id st =
     obind (cache_fill rd block_id st) (\<lambda>(cs, d).
     obind (unwrap (bt_get cs block_id)) (\<lambda>cache.
     obind (slice_read buf ((block_id - start_block) * 512) 512) (\<lambda>part.
     obind (copy_from_slice cache part) (\<lambda>cache.
     Returns (bt_insert block_id cache cs, d)))))"

definition write_to_cache :: "(nat \<Rightarrow> u8 list \<Rightarrow> 'd \<Rightarrow> (u8 list \<times> 'd) outcome) \<Rightarrow> nat \<Rightarrow> u8 list \<Rightarrow> caches \<times> 'd
    \<Rightarrow> (caches \<times> 'd) outcome" where
  "write_to_cache rd start_block buf st =
     ofold (write_block_step rd start_block buf) [start_block..<start_block + length buf div 512] st"

definition flush_cache :: "(nat \<Rightarrow> u8 list \<Rightarrow> 'd \<Rightarrow> 'd outcome) \<Rightarrow> caches \<times> 'd \<Rightarrow> (caches \<times> 'd) outcome" where
  "flush_cache wr st = (case st of (cs, d) \<Rightarrow>
     obind (ofold (\<lambda>(block_id, cache) d. wr block_id cache d) cs d) (\<lambda>d. Returns (cs, d)))"

section \<open>BlockInode and PartitionInode\<close>

text \<open>The sector range of an access: the first sector, and the size of the temporary buffer.\<close>

definition sector_range :: "nat \<Rightarrow> nat \<Rightarrow> (nat \<times> nat) outcome" where
  "sector_range offset n =
     obind (uadd offset n) (\<lambda>end.
     obind (usub end 1) (\<lambda>last_byte.
     let start_sector_id = offset div 512; end_sector_id = last_byte div 512 in
     obind (usub end_sector_id start_sector_id) (\<lambda>k.
     Returns (start_sector_id, (k + 1) * 512))))"

definition block_read_at :: "(nat \<Rightarrow> u8 list \<Rightarrow> 'd \<Rightarrow> (u8 list \<times> 'd) outcome) \<Rightarrow> nat \<Rightarrow> u8 list \<Rightarrow> caches \<times> 'd
    \<Rightarrow> (nat \<times> u8 list \<times> caches \<times> 'd) outcome" where
  "block_read_at rd offset buf st =
     obind (sector_range offset (length buf)) (\<lambda>(start_sector_id, buffer_size).
     obind (read_from_cache rd start_sector_id (replicate buffer_size 0) st) (\<lambda>(tmp, st).
     obind (slice_read tmp (offset mod 512) (length buf)) (\<lambda>buf.
     Returns (length buf, buf, st))))"

definition block_write_at :: "(nat \<Rightarrow> u8 list \<Rightarrow> 'd \<Rightarrow> (u8 list \<times> 'd) outcome) \<Rightarrow> (nat \<Rightarrow> u8 list \<Rightarrow> 'd \<Rightarrow> 'd outcome)
    \<Rightarrow> nat \<Rightarrow> u8 list \<Rightarrow> caches \<times> 'd \<Rightarrow> (nat \<times> caches \<times> 'd) outcome" where
  "block_write_at rd wr offset buf st =
     obind (sector_range offset (length buf)) (\<lambda>(start_sector_id, buffer_size).
     obind (read_from_cache rd start_sector_id (replicate buffer_size 0) st) (\<lambda>(tmp, st).
     obind (slice_write tmp (offset mod 512) (length buf) buf) (\<lambda>tmp.
     obind (write_to_cache rd start_sector_id tmp st) (\<lambda>st.
     obind (flush_cache wr st) (\<lambda>st.
     Returns (length buf, st))))))"

definition partition_read_at :: "(nat \<Rightarrow> u8 list \<Rightarrow> 'd \<Rightarrow> (u8 list \<times> 'd) outcome) \<Rightarrow> nat \<Rightarrow> nat \<Rightarrow> u8 list \<Rightarrow> caches \<times> 'd
    \<Rightarrow> (nat \<times> u8 list \<times> caches \<times> 'd) outcome" where
  "partition_read_at rd part_offset offset buf st =
     obind (uadd part_offset offset) (\<lambda>offset. block_read_at rd offset buf st)"

definition partition_write_at :: "(nat \<Rightarrow> u8 list \<Rightarrow> 'd \<Rightarrow> (u8 list \<times> 'd) outcome) \<Rightarrow> (nat \<Rightarrow> u8 list \<Rightarrow> 'd \<Rightarrow> 'd outcome)
    \<Rightarrow> nat \<Rightarrow> nat \<Rightarrow> u8 list \<Rightarrow> caches \<times> 'd \<Rightarrow> (nat \<times> caches \<times> 'd) outcome" where
  "partition_write_at rd wr part_offset offset buf st =
     obind (uadd part_offset offset) (\<lambda>offset. block_write_at rd wr offset buf st)"

section \<open>The disk as an array of bytes\<close>

definition view :: "('d \<Rightarrow> nat \<Rightarrow> u8 list) \<Rightarrow> caches \<times> 'd \<Rightarrow> nat \<Rightarrow> u8 list" where
  "view sec st b = (case bt_get (fst st) b of Some c \<Rightarrow> c | None \<Rightarrow> sec (snd st) b)"

definition flat :: "('d \<Rightarrow> nat \<Rightarrow> u8 list) \<Rightarrow> caches \<times> 'd \<Rightarrow> nat \<Rightarrow> u8" where
  "flat sec st i = view sec st (i div 512) ! (i mod 512)"

definition cache_inv :: "nat \<Rightarrow> caches \<Rightarrow> bool" where
  "cache_inv lim cs \<longleftrightarrow> bt_sorted cs \<and> (\<forall>b c. bt_get cs b = Some c \<longrightarrow> b < lim \<and> length c = 512)"

lemma concat_blocks:
  assumes "\<And>b. s \<le> b \<Longrightarrow> b < s + k \<Longrightarrow> length (f b) = 512"
  shows "length (concat (map f [s..<s + k])) = k * 512"
    and "j < k * 512 \<Longrightarrow> concat (map f [s..<s + k]) ! j = f (s + j div 512) ! (j mod 512)"
proof -
  have len: "length (concat (map f [s..<s + k])) = k * 512"
    if "\<And>b. s \<le> b \<Longrightarrow> b < s + k \<Longrightarrow> length (f b) = 512" for k
    using that by (induction k) auto
  show "length (concat (map f [s..<s + k])) = k * 512" by (rule len) (rule assms)
  show "j < k * 512 \<Longrightarrow> concat (map f [s..<s + k]) ! j = f (s + j div 512) ! (j mod 512)"
    using assms
  proof (induction k)
    case (Suc k)
    then have l: "length (concat (map f [s..<s + k])) = k * 512" by (intro len) auto
    show ?case
    proof (cases "j < k * 512")
      case True
      with Suc l show ?thesis by (simp add: nth_append)
    next
      case False
      with Suc.prems(1) have "j div 512 = k" by auto
      then have "j mod 512 = j - k * 512" by (simp add: minus_div_mult_eq_mod [symmetric])
      with \<open>j div 512 = k\<close> False l show ?thesis by (simp add: nth_append)
    qed
  qed simp
qed

text \<open>The sectors \<open>s..<s + k\<close> of an access of \<open>n\<close> bytes at \<open>offset\<close>.\<close>

lemma sector_range_spec:
  assumes "0 < n" "offset + n \<le> usize_max"
  obtains s k where "sector_range offset n = Returns (s, k * 512)" "s = offset div 512" "0 < k"
    "s + k = (offset + n - 1) div 512 + 1" "offset mod 512 + n \<le> k * 512" "offset = s * 512 + offset mod 512"
proof -
  let ?s = "offset div 512" and ?e = "(offset + n - 1) div 512"
  have le: "?s \<le> ?e" using assms(1) by (intro div_le_mono) simp
  have off: "offset = ?s * 512 + offset mod 512" by simp
  have last: "offset + n - 1 < (?e + 1) * 512" using mod_less_divisor [of 512 "offset + n - 1"]
      div_mult_mod_eq [of "offset + n - 1" 512] by (simp add: algebra_simps)
  have "offset mod 512 + n \<le> (?e - ?s + 1) * 512"
    using off last le assms(1) by (simp only: diff_mult_distrib add_mult_distrib) linarith
  then show thesis using le off assms
    by (intro that [of ?s "?e - ?s + 1"]) (auto simp: sector_range_def uadd_def usub_def Let_def)
qed

lemma splice_nth:
  assumes "m + length buf \<le> length tmp" "j < length tmp"
  shows "(take m tmp @ buf @ drop (m + length buf) tmp) ! j =
     (if m \<le> j \<and> j < m + length buf then buf ! (j - m) else tmp ! j)"
proof -
  consider "j < m" | "m \<le> j" "j < m + length buf" | "m + length buf \<le> j" by linarith
  then show ?thesis using assms by cases (auto simp: nth_append)
qed

lemma block_index: "(s * 512 + j) div 512 = s + j div 512" "(s * 512 + j) mod 512 = j mod (512::nat)"
  by simp_all

context block_device
begin

definition st_ok :: "caches \<times> 'd \<Rightarrow> bool" where
  "st_ok st \<longleftrightarrow> cache_inv lim (fst st) \<and> dev_ok (snd st)"

lemma length_view: "st_ok st \<Longrightarrow> b < lim \<Longrightarrow> length (view sec st b) = 512"
  by (auto simp: st_ok_def cache_inv_def view_def sec_length split: option.splits)

lemma fill_spec:
  assumes "st_ok st" "b < lim"
  shows "\<exists>cs d. cache_fill rd b st = Returns (cs, d) \<and> st_ok (cs, d) \<and> bt_get cs b = Some (view sec st b) \<and>
     view sec (cs, d) = view sec st"
proof -
  obtain cs0 d0 where st: "st = (cs0, d0)" by (cases st)
  show ?thesis
  proof (cases "bt_get cs0 b")
    case None
    have "length cache_new = 512" by (simp add: cache_new_def)
    with rd_law [of d0 b cache_new] assms obtain d where
      d: "rd b cache_new d0 = Returns (sec d0 b, d)" "dev_ok d" "\<forall>c. sec d c = sec d0 c"
      by (auto simp: st_ok_def st)
    have "view sec (bt_insert b (sec d0 b) cs0, d) = view sec st"
      using None d(3) by (auto simp: view_def st fun_eq_iff split: option.splits)
    moreover have "st_ok (bt_insert b (sec d0 b) cs0, d)"
      using assms d(2) sec_length by (auto simp: st_ok_def cache_inv_def st)
    ultimately show ?thesis using d(1) None
      by (intro exI [of _ "bt_insert b (sec d0 b) cs0"] exI [of _ d])
        (simp add: cache_fill_def st has_cache_on_def add_cache_def view_def)
  next
    case (Some c)
    with assms show ?thesis
      by (intro exI [of _ cs0] exI [of _ d0]) (simp add: cache_fill_def st has_cache_on_def view_def)
  qed
qed

lemma read_step_spec:
  assumes "st_ok st" "s + k < lim" "(k + 1) * 512 \<le> length buf"
  shows "\<exists>st'. read_block_step rd s (s + k) (buf, st) =
       Returns (take (k * 512) buf @ view sec st (s + k) @ drop ((k + 1) * 512) buf, st') \<and>
     st_ok st' \<and> view sec st' = view sec st"
proof -
  from fill_spec [OF assms(1,2)] obtain cs d where f: "cache_fill rd (s + k) st = Returns (cs, d)"
    "st_ok (cs, d)" "bt_get cs (s + k) = Some (view sec st (s + k))" "view sec (cs, d) = view sec st" by blast
  have "slice_write buf (k * 512) 512 (view sec st (s + k)) =
      Returns (take (k * 512) buf @ view sec st (s + k) @ drop ((k + 1) * 512) buf)"
    using assms length_view [OF assms(1,2)] by (simp add: slice_write_def algebra_simps)
  with f show ?thesis by (intro exI [of _ "(cs, d)"]) (simp add: read_block_step_def)
qed

lemma read_steps_spec:
  assumes "st_ok st" "s + k \<le> lim" "k * 512 \<le> length buf"
  shows "\<exists>st'. ofold (read_block_step rd s) [s..<s + k] (buf, st) =
       Returns (concat (map (view sec st) [s..<s + k]) @ drop (k * 512) buf, st') \<and>
     st_ok st' \<and> view sec st' = view sec st"
  using assms(2,3)
proof (induction k)
  case 0
  with assms(1) show ?case by simp
next
  case (Suc k)
  then obtain st1 where st1: "ofold (read_block_step rd s) [s..<s + k] (buf, st) =
      Returns (concat (map (view sec st) [s..<s + k]) @ drop (k * 512) buf, st1)" "st_ok st1"
    "view sec st1 = view sec st" by auto
  let ?buf = "concat (map (view sec st) [s..<s + k]) @ drop (k * 512) buf"
  have len: "length (concat (map (view sec st) [s..<s + k])) = k * 512"
    using assms(1) Suc.prems(1) by (intro concat_blocks length_view) auto
  have "s + k < lim" "(k + 1) * 512 \<le> length ?buf" using Suc.prems len by auto
  from read_step_spec [OF st1(2) this] obtain st2 where
    st2: "read_block_step rd s (s + k) (?buf, st1) =
        Returns (take (k * 512) ?buf @ view sec st1 (s + k) @ drop ((k + 1) * 512) ?buf, st2)"
      "st_ok st2" "view sec st2 = view sec st1" by blast
  have "take (k * 512) ?buf @ view sec st1 (s + k) @ drop ((k + 1) * 512) ?buf =
      concat (map (view sec st) [s..<s + Suc k]) @ drop (Suc k * 512) buf"
    using len by (simp add: st1(3) algebra_simps)
  with st1 st2 show ?case by (intro exI [of _ st2]) (simp add: ofold_append)
qed

lemma write_step_spec:
  assumes "st_ok st" "s + k < lim" "(k + 1) * 512 \<le> length buf"
  shows "\<exists>st'. write_block_step rd s buf (s + k) st = Returns st' \<and> st_ok st' \<and>
     view sec st' = (view sec st)(s + k := take 512 (drop (k * 512) buf))"
proof -
  from fill_spec [OF assms(1,2)] obtain cs d where f: "cache_fill rd (s + k) st = Returns (cs, d)"
    "st_ok (cs, d)" "bt_get cs (s + k) = Some (view sec st (s + k))" "view sec (cs, d) = view sec st" by blast
  let ?part = "take 512 (drop (k * 512) buf)"
  have part: "length ?part = 512" "slice_read buf (k * 512) 512 = Returns ?part"
    using assms(3) by (auto simp: slice_read_def)
  have "st_ok (bt_insert (s + k) ?part cs, d)"
    using f(2) assms(2) part(1) by (auto simp: st_ok_def cache_inv_def)
  moreover have "view sec (bt_insert (s + k) ?part cs, d) = (view sec (cs, d))(s + k := ?part)"
    by (auto simp: view_def fun_eq_iff split: option.splits)
  ultimately show ?thesis using f part length_view [OF assms(1,2)]
    by (intro exI [of _ "(bt_insert (s + k) ?part cs, d)"]) (simp add: write_block_step_def copy_from_slice_def)
qed

lemma write_steps_spec:
  assumes "st_ok st" "s + k \<le> lim" "k * 512 \<le> length buf"
  shows "\<exists>st'. ofold (write_block_step rd s buf) [s..<s + k] st = Returns st' \<and> st_ok st' \<and>
     view sec st' = (\<lambda>c. if s \<le> c \<and> c < s + k then take 512 (drop ((c - s) * 512) buf) else view sec st c)"
  using assms(2,3)
proof (induction k)
  case 0
  with assms(1) show ?case by (intro exI [of _ st]) (auto simp: fun_eq_iff)
next
  case (Suc k)
  then obtain st1 where st1: "ofold (write_block_step rd s buf) [s..<s + k] st = Returns st1" "st_ok st1"
    "view sec st1 = (\<lambda>c. if s \<le> c \<and> c < s + k then take 512 (drop ((c - s) * 512) buf) else view sec st c)" by auto
  have "s + k < lim" "(k + 1) * 512 \<le> length buf" using Suc.prems by auto
  from write_step_spec [OF st1(2) this] obtain st2 where
    st2: "write_block_step rd s buf (s + k) st1 = Returns st2" "st_ok st2"
      "view sec st2 = (view sec st1)(s + k := take 512 (drop (k * 512) buf))" by blast
  have "view sec st2 c = (if s \<le> c \<and> c < s + Suc k then take 512 (drop ((c - s) * 512) buf) else view sec st c)" for c
    by (cases "c = s + k") (auto simp: st2(3) st1(3))
  with st1 st2 show ?case by (intro exI [of _ st2]) (simp add: ofold_append fun_eq_iff)
qed

lemma flush_entries:
  assumes "dev_ok d" "\<And>b c. (b, c) \<in> set cs \<Longrightarrow> b < lim \<and> length c = 512" "distinct (map fst cs)"
  shows "\<exists>d'. ofold (\<lambda>(b, c) d. wr b c d) cs d = Returns d' \<and> dev_ok d' \<and>
     (\<forall>b<lim. sec d' b = (case map_of cs b of Some c \<Rightarrow> c | None \<Rightarrow> sec d b))"
  using assms
proof (induction cs arbitrary: d)
  case (Cons bc cs)
  obtain b c where bc: "bc = (b, c)" by (cases bc)
  from Cons.prems(2) [of b c] have b: "b < lim" "length c = 512" by (auto simp: bc)
  from wr_law [OF Cons.prems(1) b] obtain d1 where
    d1: "wr b c d = Returns d1" "dev_ok d1" "\<forall>x<lim. sec d1 x = (if x = b then c else sec d x)" by blast
  have "\<exists>d'. ofold (\<lambda>(b, c) d. wr b c d) cs d1 = Returns d' \<and> dev_ok d' \<and>
     (\<forall>b<lim. sec d' b = (case map_of cs b of Some c \<Rightarrow> c | None \<Rightarrow> sec d1 b))"
    using Cons.prems(2,3) by (intro Cons.IH d1(2)) auto
  then obtain d' where d': "ofold (\<lambda>(b, c) d. wr b c d) cs d1 = Returns d'" "dev_ok d'"
     "\<forall>b<lim. sec d' b = (case map_of cs b of Some c \<Rightarrow> c | None \<Rightarrow> sec d1 b)" by blast
  have "map_of cs b = None" using Cons.prems(3) by (simp add: bc map_of_eq_None_iff)
  with d1 d' show ?case by (intro exI [of _ d']) (auto simp: bc split: option.splits)
qed simp

lemma flush_spec:
  assumes "st_ok st"
  shows "\<exists>st'. flush_cache wr st = Returns st' \<and> st_ok st' \<and> (\<forall>b<lim. view sec st' b = view sec st b) \<and>
     (\<forall>b<lim. sec (snd st') b = view sec st b)"
proof -
  obtain cs d where st: "st = (cs, d)" by (cases st)
  have "distinct (map fst cs)" using assms bt_sorted_distinct by (auto simp: st_ok_def cache_inv_def st)
  moreover have "b < lim \<and> length c = 512" if "(b, c) \<in> set cs" for b c
    using that assms calculation by (auto simp: st_ok_def cache_inv_def st)
  ultimately obtain d' where d': "ofold (\<lambda>(b, c) d. wr b c d) cs d = Returns d'" "dev_ok d'"
     "\<forall>b<lim. sec d' b = (case map_of cs b of Some c \<Rightarrow> c | None \<Rightarrow> sec d b)"
    using flush_entries [of d cs] assms by (auto simp: st_ok_def st)
  then show ?thesis using assms
    by (intro exI [of _ "(cs, d')"]) (auto simp: flush_cache_def st st_ok_def view_def split: option.splits)
qed

text \<open>The temporary buffer both operations start from.\<close>

lemma fetch_spec:
  assumes "st_ok st" "0 < n" "offset + n \<le> lim * 512" "lim * 512 \<le> usize_max"
  obtains s k st' where "sector_range offset n = Returns (s, k * 512)" "offset = s * 512 + offset mod 512"
    "offset mod 512 + n \<le> k * 512" "s + k \<le> lim"
    "read_from_cache rd s (replicate (k * 512) 0) st = Returns (map (\<lambda>j. flat sec st (s * 512 + j)) [0..<k * 512], st')"
    "st_ok st'" "view sec st' = view sec st"
proof -
  have "offset + n \<le> usize_max" using assms(3,4) by simp
  from sector_range_spec [OF assms(2) this] obtain s k where
    sr: "sector_range offset n = Returns (s, k * 512)" "s + k = (offset + n - 1) div 512 + 1"
    "offset mod 512 + n \<le> k * 512" "offset = s * 512 + offset mod 512" by blast
  let ?tmp = "concat (map (view sec st) [s..<s + k])"
  have "offset + n - 1 < lim * 512" using assms(2,3) by linarith
  then have lim: "s + k \<le> lim" unfolding sr(2) by (simp add: less_mult_imp_div_less Suc_leI)
  from read_steps_spec [OF assms(1) lim, of "replicate (k * 512) 0"] obtain st' where
    st': "read_from_cache rd s (replicate (k * 512) 0) st = Returns (?tmp, st')" "st_ok st'"
      "view sec st' = view sec st" by (auto simp: read_from_cache_def)
  have len: "length (view sec st b) = 512" if "s \<le> b" "b < s + k" for b
    using that lim by (intro length_view [OF assms(1)]) simp
  have "?tmp = map (\<lambda>j. flat sec st (s * 512 + j)) [0..<k * 512]"
    using concat_blocks [OF len] by (intro nth_equalityI) (simp_all add: flat_def block_index)
  with sr lim st' show thesis by (intro that [of s k st']) simp_all
qed

lemma read_at_spec:
  assumes "st_ok st" "0 < length buf" "offset + length buf \<le> lim * 512" "lim * 512 \<le> usize_max"
  shows "\<exists>st'. block_read_at rd offset buf st =
       Returns (length buf, map (flat sec st) [offset..<offset + length buf], st') \<and> st_ok st' \<and>
     view sec st' = view sec st"
proof -
  let ?n = "length buf" and ?m = "offset mod 512"
  obtain s k st' where f: "sector_range offset ?n = Returns (s, k * 512)" "offset = s * 512 + ?m" "?m + ?n \<le> k * 512"
    "read_from_cache rd s (replicate (k * 512) 0) st = Returns (map (\<lambda>j. flat sec st (s * 512 + j)) [0..<k * 512], st')"
    "st_ok st'" "view sec st' = view sec st"
    by (rule fetch_spec [OF assms])
  have "take ?n (drop ?m (map (\<lambda>j. flat sec st (s * 512 + j)) [0..<k * 512])) =
      map (flat sec st) [offset..<offset + ?n]"
    using f(2,3) by (intro nth_equalityI) (simp_all add: add.assoc [symmetric])
  with f show ?thesis by (intro exI [of _ st']) (simp add: block_read_at_def slice_read_def)
qed

lemma write_at_spec:
  assumes "st_ok st" "0 < length buf" "offset + length buf \<le> lim * 512" "lim * 512 \<le> usize_max"
  shows "\<exists>st'. block_write_at rd wr offset buf st = Returns (length buf, st') \<and> st_ok st' \<and>
     (\<forall>i<lim * 512. flat sec st' i =
        (if offset \<le> i \<and> i < offset + length buf then buf ! (i - offset) else flat sec st i)) \<and>
     (\<forall>b<lim. sec (snd st') b = view sec st' b)"
proof -
  let ?n = "length buf" and ?m = "offset mod 512"
  obtain s k st1 where f: "sector_range offset ?n = Returns (s, k * 512)" "offset = s * 512 + ?m" "?m + ?n \<le> k * 512"
    "s + k \<le> lim"
    "read_from_cache rd s (replicate (k * 512) 0) st = Returns (map (\<lambda>j. flat sec st (s * 512 + j)) [0..<k * 512], st1)"
    "st_ok st1" "view sec st1 = view sec st"
    by (rule fetch_spec [OF assms])
  let ?tmp = "map (\<lambda>j. flat sec st (s * 512 + j)) [0..<k * 512]"
  define new where "new = take ?m ?tmp @ buf @ drop (?m + ?n) ?tmp"
  have len: "length new = k * 512" using f(3) by (simp add: new_def)
  have nth: "new ! j = (if ?m \<le> j \<and> j < ?m + ?n then buf ! (j - ?m) else flat sec st (s * 512 + j))"
    if "j < k * 512" for j
    using that f(3) unfolding new_def by (subst splice_nth) simp_all
  have "write_to_cache rd s new st1 = ofold (write_block_step rd s new) [s..<s + k] st1"
    by (simp add: write_to_cache_def len)
  with write_steps_spec [OF f(6,4), of new] len obtain st2 where
    st2: "write_to_cache rd s new st1 = Returns st2" "st_ok st2"
      "view sec st2 = (\<lambda>c. if s \<le> c \<and> c < s + k then take 512 (drop ((c - s) * 512) new) else view sec st1 c)"
    by auto
  from flush_spec [OF st2(2)] obtain st3 where st3: "flush_cache wr st2 = Returns st3" "st_ok st3"
    "\<forall>b<lim. view sec st3 b = view sec st2 b" "\<forall>b<lim. sec (snd st3) b = view sec st2 b" by blast
  have "flat sec st3 i = (if offset \<le> i \<and> i < offset + ?n then buf ! (i - offset) else flat sec st i)"
    if i: "i < lim * 512" for i
  proof -
    have c: "i div 512 < lim" using i by (simp add: less_mult_imp_div_less)
    have im: "i = i div 512 * 512 + i mod 512" "i mod 512 < 512" by auto
    show ?thesis
    proof (cases "s \<le> i div 512 \<and> i div 512 < s + k")
      case True
      define j where "j = (i div 512 - s) * 512 + i mod 512"
      have "(i div 512 - s) + 1 \<le> k" using True by linarith
      then have "((i div 512 - s) + 1) * 512 \<le> k * 512" by (rule mult_le_mono1)
      with im(2) have j: "j < k * 512" "i = s * 512 + j" using True im(1)
        by (auto simp: j_def diff_mult_distrib)
      have "flat sec st3 i = new ! j"
        using True c st3(3) j(1) len by (simp add: flat_def st2(3) j_def)
      also have "\<dots> = (if offset \<le> i \<and> i < offset + ?n then buf ! (i - offset) else flat sec st i)"
      proof -
        have "?m \<le> j \<longleftrightarrow> offset \<le> i" "j < ?m + ?n \<longleftrightarrow> i < offset + ?n" "j - ?m = i - offset"
          using f(2) j(2) by linarith+
        then show ?thesis by (simp only: nth [OF j(1)] j(2) [symmetric])
      qed
      finally show ?thesis .
    next
      case False
      have "\<not> (offset \<le> i \<and> i < offset + ?n)"
      proof
        assume "offset \<le> i \<and> i < offset + ?n"
        then have "s * 512 \<le> i" "i < (s + k) * 512" using f(2,3) by (auto simp: algebra_simps)
        then show False using False by (metis div_le_mono less_mult_imp_div_less nonzero_mult_div_cancel_right
              zero_neq_numeral)
      qed
      with False c st3(3) show ?thesis by (auto simp: flat_def st2(3) f(7))
    qed
  qed
  moreover have "block_write_at rd wr offset buf st = Returns (?n, st3)"
    using f(1,3,5) st2(1) st3(1) by (simp add: block_write_at_def slice_write_def new_def)
  ultimately show ?thesis using st3 by (intro exI [of _ st3]) simp
qed

end

section \<open>Properties\<close>

lemma ahci_block_device:
  assumes "sata_disk issue sector"
  shows "block_device (hd_read_block issue N hd_id) (hd_write_block issue N hd_id) (hd_sector sector hd_id)
     (hd_ok hd_id) (2 ^ 48)"
proof -
  from assms have hd: "ahci_hd issue sector" by (rule ahci_hd.intro)
  show ?thesis
    by (rule block_device.intro)
      (simp add: hd_sector_def sata_disk.length_sector [OF assms], (rule ahci_hd.hd_read [OF hd]; assumption),
        (rule ahci_hd.hd_write [OF hd]; assumption))
qed

text \<open>C18. Reading from a disk through the block cache is reading from an array of bytes: for a disk of the
  AHCI driver, \<open>read_at\<close> of a non-empty range returns exactly the bytes of the range, whatever part
  of it is cached, and leaves the contents of the disk as they were.\<close>

theorem block_read_at_flat:
  assumes "sata_disk issue sector" "hd_ok hd_id d" "cache_inv (2 ^ 48) cs"
    and "0 < length buf" "offset + length buf \<le> 2 ^ 57"
  shows "\<exists>st'. block_read_at (hd_read_block issue N hd_id) offset buf (cs, d) =
       Returns (length buf, map (flat (hd_sector sector hd_id) (cs, d)) [offset..<offset + length buf], st') \<and>
     cache_inv (2 ^ 48) (fst st') \<and> hd_ok hd_id (snd st') \<and>
     view (hd_sector sector hd_id) st' = view (hd_sector sector hd_id) (cs, d)"
proof -
  note bd = ahci_block_device [OF assms(1), of N hd_id]
  have "block_device.st_ok (hd_ok hd_id) (2 ^ 48) (cs, d)"
    unfolding block_device.st_ok_def [OF bd] using assms(2,3) by simp
  from block_device.read_at_spec [OF bd this assms(4)] assms(5) show ?thesis
    unfolding block_device.st_ok_def [OF bd] by (simp add: usize_max_def)
qed

text \<open>C20. Writing to a disk is updating that array, and the cache is written through: after
  \<open>write_at\<close> exactly the bytes of the range have changed, and every block of the device holds what
  the inode shows.\<close>

theorem block_write_at_flat:
  assumes "sata_disk issue sector" "hd_ok hd_id d" "cache_inv (2 ^ 48) cs"
    and "0 < length buf" "offset + length buf \<le> 2 ^ 57"
  shows "\<exists>st'. block_write_at (hd_read_block issue N hd_id) (hd_write_block issue N hd_id) offset buf (cs, d) =
       Returns (length buf, st') \<and> cache_inv (2 ^ 48) (fst st') \<and> hd_ok hd_id (snd st') \<and>
     (\<forall>i<2 ^ 57. flat (hd_sector sector hd_id) st' i =
        (if offset \<le> i \<and> i < offset + length buf then buf ! (i - offset)
         else flat (hd_sector sector hd_id) (cs, d) i)) \<and>
     (\<forall>b<2 ^ 48. hd_sector sector hd_id (snd st') b = view (hd_sector sector hd_id) st' b)"
proof -
  note bd = ahci_block_device [OF assms(1), of N hd_id]
  have "block_device.st_ok (hd_ok hd_id) (2 ^ 48) (cs, d)"
    unfolding block_device.st_ok_def [OF bd] using assms(2,3) by simp
  from block_device.write_at_spec [OF bd this assms(4)] assms(5) show ?thesis
    unfolding block_device.st_ok_def [OF bd] by (simp add: usize_max_def)
qed

definition blank_disk :: "(u64 \<Rightarrow> nat \<Rightarrow> u8, unit) disks" where
  "blank_disk = \<lparr>AHCI = [\<lparr>cfis = \<lparr>fis_type = 0, cflags = 0, command = 0, lba_0 = 0, lba_1 = 0, lba_2 = 0,
       device = 0, lba_3 = 0, lba_4 = 0, lba_5 = 0, sector_count = 0\<rparr>,
     ahci_data = replicate 512 0, port = (\<lambda>_ _. 0)\<rparr>], NVME = (), HD_LIST = [AHCIDisk 0]\<rparr>"

definition no_nvme :: "unit nvme_api" where
  "no_nvme = \<lparr>nvme_read_block = (\<lambda>_ _ _ _. Panics), nvme_write_block = (\<lambda>_ _ _ _. Panics),
     nvme_hd_size = (\<lambda>_ _. None), nvme_hd_num = (\<lambda>_. 0)\<rparr>"

lemma blank_disk_ok: "hd_ok 0 blank_disk"
  by (simp add: hd_ok_def hd_ahci_def blank_disk_def get_disk_def)

lemma empty_cache_inv: "cache_inv n []"
  by (simp add: cache_inv_def)

interpretation ram_hd: ahci_hd ram_issue ram_sector no_nvme 0
  by unfold_locales

theorem block_read_at_flat_witness:
  "\<exists>st'. block_read_at (hd_read_block ram_issue no_nvme 0) 510 [1, 2, 3, 4] ([], blank_disk) =
       Returns (length [1, 2, 3, 4::u8],
         map (flat (hd_sector ram_sector 0) ([], blank_disk)) [510..<510 + length [1, 2, 3, 4::u8]], st') \<and>
     cache_inv (2 ^ 48) (fst st') \<and> hd_ok 0 (snd st') \<and>
     view (hd_sector ram_sector 0) st' = view (hd_sector ram_sector 0) ([], blank_disk)"
  by (rule block_read_at_flat [OF ram_disk.sata_disk_axioms blank_disk_ok empty_cache_inv]) simp_all

theorem block_write_at_flat_witness:
  "\<exists>st'. block_write_at (hd_read_block ram_issue no_nvme 0) (hd_write_block ram_issue no_nvme 0) 510
       [1, 2, 3, 4] ([], blank_disk) = Returns (length [1, 2, 3, 4::u8], st') \<and>
     cache_inv (2 ^ 48) (fst st') \<and> hd_ok 0 (snd st') \<and>
     (\<forall>i<2 ^ 57. flat (hd_sector ram_sector 0) st' i =
        (if 510 \<le> i \<and> i < 510 + length [1, 2, 3, 4::u8] then [1, 2, 3, 4] ! (i - 510)
         else flat (hd_sector ram_sector 0) ([], blank_disk) i)) \<and>
     (\<forall>b<2 ^ 48. hd_sector ram_sector 0 (snd st') b = view (hd_sector ram_sector 0) st' b)"
  by (rule block_write_at_flat [OF ram_disk.sata_disk_axioms blank_disk_ok empty_cache_inv]) simp_all

text \<open>A read of no bytes panics when its offset is a multiple of the sector size: the computation of
  the last sector goes below zero.\<close>

lemma empty_read_panics: "block_read_at rd (512 * k) [] st = Panics"
proof (cases "512 * k \<le> usize_max \<and> k \<noteq> 0")
  case True
  then obtain j where k: "k = Suc j" by (cases k) auto
  have "(512 * k - 1) div 512 = j" by (simp add: k)
  with True show ?thesis by (simp add: block_read_at_def sector_range_def uadd_def usub_def Let_def k)
qed (auto simp: block_read_at_def sector_range_def uadd_def usub_def)

end
