(* ===== verification/FileOps.thy ===== *)
theory FileOps
  imports Vfs
begin

text \<open>File descriptors and the file operations of \<open>kernel/src/fs/operation.rs\<close>, and the start of the
  file system \<open>kernel/src/fs/mod.rs\<close>.  The number of the current process is an argument of every
  operation.  The constructors of the volumes (\<open>Fat32Volume::new\<close>, \<open>Ext2Volume::new\<close>) are
  arguments of \<open>fs_mount\<close>: from a partition they give a new inode, or nothing when the partition
  holds another file system.\<close>

section \<open>Descriptors\<close>

datatype open_mode = Read | Write | ReadWrite

definition open_mode_from :: "nat \<Rightarrow> open_mode outcome" where
  "open_mode_from mode =
     (if mode = 0 then Returns Read else if mode = 1 then Returns Write
      else if mode = 2 then Returns ReadWrite else Panics)"

record fd_manager =
  file_descriptors :: "(nat, nat \<times> open_mode \<times> nat) btree"
  fd_allocator :: nat
  cwd :: nat

record ('x, 'w) fs_state =
  tree :: "('x, 'w) vfs"
  managers :: "(nat, fd_manager) btree"

definition fd_manager_new :: "(nat, nat \<times> open_mode \<times> nat) btree \<Rightarrow> fd_manager" where
  "fd_manager_new fds = \<lparr>file_descriptors = fds, fd_allocator = 3, cwd = ROOT\<rparr>"

text \<open>\<open>fetch_add\<close> on an \<open>AtomicUsize\<close> wraps around.\<close>

definition get_new_fd :: "fd_manager \<Rightarrow> nat \<times> fd_manager" where
  "get_new_fd m = (fd_allocator m, m\<lparr>fd_allocator := (fd_allocator m + 1) mod 2 ^ 64\<rparr>)"

definition add_inode :: "nat \<Rightarrow> open_mode \<Rightarrow> fd_manager \<Rightarrow> nat \<times> fd_manager" where
  "add_inode inode mode m = (case get_new_fd m of (new_fd, m) \<Rightarrow>
     (new_fd, m\<lparr>file_descriptors := bt_insert new_fd (inode, mode, 0) (file_descriptors m)\<rparr>))"

definition get_file_descriptor_manager :: "nat \<Rightarrow> ('x, 'w) fs_state \<Rightarrow> fd_manager option" where
  "get_file_descriptor_manager pid st = bt_get (managers st) pid"

definition set_manager :: "nat \<Rightarrow> fd_manager \<Rightarrow> ('x, 'w) fs_state \<Rightarrow> ('x, 'w) fs_state" where
  "set_manager pid m st = st\<lparr>managers := bt_insert pid m (managers st)\<rparr>"

definition init_file_descriptor_manager :: "nat \<Rightarrow> ('x, 'w) fs_state \<Rightarrow> ('x, 'w) fs_state" where
  "init_file_descriptor_manager pid st = set_manager pid (fd_manager_new []) st"

definition init_file_descriptor_manager_with_stdin_stdout :: "nat \<Rightarrow> nat \<Rightarrow> nat \<Rightarrow> ('x, 'w) fs_state \<Rightarrow> ('x, 'w) fs_state" where
  "init_file_descriptor_manager_with_stdin_stdout pid stdin stdout st =
     set_manager pid (fd_manager_new
       (bt_insert 2 (stdout, ReadWrite, 0) (bt_insert 1 (stdout, ReadWrite, 0) (bt_insert 0 (stdin, Read, 0) [])))) st"

definition manager_get_cwd :: "('x, 'w) inode_vt \<Rightarrow> ('x, 'w) fs_state \<Rightarrow> fd_manager \<Rightarrow> string" where
  "manager_get_cwd V st m = inode_get_path V (inodes (tree st) ! cwd m)"

text \<open>The path an operation looks up: absolute, or relative to the working directory.\<close>

definition full_path :: "('x, 'w) inode_vt \<Rightarrow> ('x, 'w) fs_state \<Rightarrow> fd_manager \<Rightarrow> string \<Rightarrow> string" where
  "full_path V st m path = (if starts_with_slash path then path else manager_get_cwd V st m @ path)"

section \<open>Operations\<close>

definition get_inode_by_fd :: "nat \<Rightarrow> nat \<Rightarrow> ('x, 'w) fs_state \<Rightarrow> nat option" where
  "get_inode_by_fd pid fd st = (case get_file_descriptor_manager pid st of
     None \<Rightarrow> None
   | Some m \<Rightarrow> map_option fst (bt_get (file_descriptors m) fd))"

definition fs_open :: "('x, 'w) inode_vt \<Rightarrow> nat \<Rightarrow> string \<Rightarrow> open_mode \<Rightarrow> ('x, 'w) fs_state
    \<Rightarrow> (nat option \<times> ('x, 'w) fs_state) outcome" where
  "fs_open V pid path mode st = (case get_file_descriptor_manager pid st of
     None \<Rightarrow> Returns (None, st)
   | Some m \<Rightarrow>
       obind (get_inode_by_path V (full_path V st m path) (tree st)) (\<lambda>(r, t).
       let st = st\<lparr>tree := t\<rparr> in
       case r of
         None \<Rightarrow> Returns (None, st)
       | Some inode \<Rightarrow> (case add_inode inode mode m of (fd, m) \<Rightarrow> Returns (Some fd, set_manager pid m st))))"

definition inode_read_at :: "('x, 'w) inode_vt \<Rightarrow> nat \<Rightarrow> u8 list \<Rightarrow> nat \<Rightarrow> ('x, 'w) vfs
    \<Rightarrow> (nat \<times> u8 list \<times> ('x, 'w) vfs) outcome" where
  "inode_read_at V offset buf node s = (case inodes s ! node of
     RootFS _ _ \<Rightarrow> Returns (0, buf, s)
   | Dyn x \<Rightarrow> obind (vt_read_at V offset buf x (world s)) (\<lambda>(n, buf, x, w).
       Returns (n, buf, s\<lparr>inodes := (inodes s)[node := Dyn x], world := w\<rparr>)))"

definition inode_write_at :: "('x, 'w) inode_vt \<Rightarrow> nat \<Rightarrow> u8 list \<Rightarrow> nat \<Rightarrow> ('x, 'w) vfs
    \<Rightarrow> (nat \<times> ('x, 'w) vfs) outcome" where
  "inode_write_at V offset buf node s = (case inodes s ! node of
     RootFS _ _ \<Rightarrow> Returns (0, s)
   | Dyn x \<Rightarrow> obind (vt_write_at V offset buf x (world s)) (\<lambda>(n, x, w).
       Returns (n, s\<lparr>inodes := (inodes s)[node := Dyn x], world := w\<rparr>)))"

definition fs_read :: "('x, 'w) inode_vt \<Rightarrow> nat \<Rightarrow> nat \<Rightarrow> u8 list \<Rightarrow> ('x, 'w) fs_state
    \<Rightarrow> (nat \<times> u8 list \<times> ('x, 'w) fs_state) outcome" where
  "fs_read V pid fd buf st = (case get_file_descriptor_manager pid st of
     None \<Rightarrow> Returns (0, buf, st)
   | Some m \<Rightarrow> (case bt_get (file_descriptors m) fd of
       Some (inode, _, offset) \<Rightarrow>
         obind (inode_read_at V offset buf inode (tree st)) (\<lambda>(n, buf, t). Returns (n, buf, st\<lparr>tree := t\<rparr>))
     | None \<Rightarrow> Returns (0, buf, st)))"

definition fs_write :: "('x, 'w) inode_vt \<Rightarrow> nat \<Rightarrow> nat \<Rightarrow> u8 list \<Rightarrow> ('x, 'w) fs_state
    \<Rightarrow> (nat \<times> ('x, 'w) fs_state) outcome" where
  "fs_write V pid fd buf st = (case get_file_descriptor_manager pid st of
     Some m \<Rightarrow> (case bt_get (file_descriptors m) fd of
       Some (inode, mode, offset) \<Rightarrow>
         (if mode = Write \<or> mode = ReadWrite then
            obind (inode_write_at V offset buf inode (tree st)) (\<lambda>(n, t). Returns (n, st\<lparr>tree := t\<rparr>))
          else Returns (0, st))
     | None \<Rightarrow> Returns (0, st))
   | None \<Rightarrow> Returns (0, st))"

definition fs_lseek :: "nat \<Rightarrow> nat \<Rightarrow> nat \<Rightarrow> ('x, 'w) fs_state \<Rightarrow> unit option \<times> ('x, 'w) fs_state" where
  "fs_lseek pid fd offset st = (case get_file_descriptor_manager pid st of
     None \<Rightarrow> (None, st)
   | Some m \<Rightarrow> (case bt_get (file_descriptors m) fd of
       None \<Rightarrow> (None, st)
     | Some (inode, mode, _) \<Rightarrow>
         (Some (), set_manager pid (m\<lparr>file_descriptors := bt_insert fd (inode, mode, offset) (file_descriptors m)\<rparr>) st)))"

definition fs_close :: "nat \<Rightarrow> nat \<Rightarrow> ('x, 'w) fs_state \<Rightarrow> unit option \<times> ('x, 'w) fs_state" where
  "fs_close pid fd st = (case get_file_descriptor_manager pid st of
     None \<Rightarrow> (None, st)
   | Some m \<Rightarrow> (case bt_get (file_descriptors m) fd of
       None \<Rightarrow> (None, st)
     | Some _ \<Rightarrow> (Some (), set_manager pid (m\<lparr>file_descriptors := bt_remove fd (file_descriptors m)\<rparr>) st)))"

definition fs_fsize :: "('x, 'w) inode_vt \<Rightarrow> nat \<Rightarrow> nat \<Rightarrow> ('x, 'w) fs_state
    \<Rightarrow> (nat option \<times> ('x, 'w) fs_state) outcome" where
  "fs_fsize V pid fd st = (case get_inode_by_fd pid fd st of
     None \<Rightarrow> Returns (None, st)
   | Some inode \<Rightarrow> (case inodes (tree st) ! inode of
       RootFS _ _ \<Rightarrow> Returns (Some 0, st)
     | Dyn x \<Rightarrow> obind (vt_size V x (world (tree st))) (\<lambda>(n, w).
         Returns (Some n, st\<lparr>tree := (tree st)\<lparr>world := w\<rparr>\<rparr>))))"

definition list_inode :: "('x, 'w) inode_vt \<Rightarrow> string \<Rightarrow> ('x, 'w) fs_state \<Rightarrow> (file_info list \<times> ('x, 'w) fs_state) outcome" where
  "list_inode V path st =
     obind (get_inode_by_path V path (tree st)) (\<lambda>(r, t).
     let st = st\<lparr>tree := t\<rparr> in
     case r of
       None \<Rightarrow> Returns ([], st)
     | Some inode \<Rightarrow>
         (if inode_type V (inodes t ! inode) = Dir then Returns (sort (inode_list V inode t), st)
          else Returns ([], st)))"

definition fs_list_dir :: "('x, 'w) inode_vt \<Rightarrow> nat \<Rightarrow> string \<Rightarrow> ('x, 'w) fs_state
    \<Rightarrow> (file_info list \<times> ('x, 'w) fs_state) outcome" where
  "fs_list_dir V pid path st =
     (if starts_with_slash path then list_inode V path st
      else case get_file_descriptor_manager pid st of
        Some m \<Rightarrow> list_inode V (manager_get_cwd V st m @ path) st
      | None \<Rightarrow> Returns ([], st))"

definition fs_change_cwd :: "('x, 'w) inode_vt \<Rightarrow> nat \<Rightarrow> string \<Rightarrow> ('x, 'w) fs_state \<Rightarrow> ('x, 'w) fs_state outcome" where
  "fs_change_cwd V pid path st = (case get_file_descriptor_manager pid st of
     None \<Rightarrow> Returns st
   | Some m \<Rightarrow>
       obind (get_inode_by_path V (full_path V st m path) (tree st)) (\<lambda>(r, t).
       let st = st\<lparr>tree := t\<rparr> in
       case r of
         Some inode \<Rightarrow>
           (if inode_type V (inodes t ! inode) = Dir then Returns (set_manager pid (m\<lparr>cwd := inode\<rparr>) st)
            else Returns st)
       | None \<Rightarrow> Returns st))"

definition fs_get_cwd :: "('x, 'w) inode_vt \<Rightarrow> nat \<Rightarrow> ('x, 'w) fs_state \<Rightarrow> string" where
  "fs_get_cwd V pid st = (case get_file_descriptor_manager pid st of
     Some m \<Rightarrow> manager_get_cwd V st m
   | None \<Rightarrow> ''/'')"

definition create_in :: "('x, 'w) inode_vt \<Rightarrow> nat \<Rightarrow> string \<Rightarrow> string \<Rightarrow> inode_ty \<Rightarrow> open_mode \<Rightarrow> fd_manager
    \<Rightarrow> ('x, 'w) fs_state \<Rightarrow> (nat option \<times> ('x, 'w) fs_state) outcome" where
  "create_in V pid parent_path name ty mode m st =
     obind (get_inode_by_path V parent_path (tree st)) (\<lambda>(r, t). case r of
       None \<Rightarrow> Returns (None, st\<lparr>tree := t\<rparr>)
     | Some parent \<Rightarrow>
         obind (inode_create V name ty parent t) (\<lambda>(r, t). case r of
           None \<Rightarrow> Returns (None, st\<lparr>tree := t\<rparr>)
         | Some inode \<Rightarrow> (case add_inode inode mode m of (fd, m) \<Rightarrow>
             Returns (Some fd, set_manager pid m (st\<lparr>tree := t\<rparr>)))))"

definition fs_create :: "('x, 'w) inode_vt \<Rightarrow> nat \<Rightarrow> string \<Rightarrow> inode_ty \<Rightarrow> open_mode \<Rightarrow> ('x, 'w) fs_state
    \<Rightarrow> (nat option \<times> ('x, 'w) fs_state) outcome" where
  "fs_create V pid path ty mode st = (case get_file_descriptor_manager pid st of
     Some m \<Rightarrow>
       (if starts_with_slash path then
          obind (pop_to_slash (rev path) []) (\<lambda>(parent_path, name). create_in V pid parent_path name ty mode m st)
        else create_in V pid (manager_get_cwd V st m) path ty mode m st)
   | None \<Rightarrow> Returns (None, st))"

definition fs_get_type :: "('x, 'w) inode_vt \<Rightarrow> nat \<Rightarrow> nat \<Rightarrow> ('x, 'w) fs_state \<Rightarrow> inode_ty option" where
  "fs_get_type V pid fd st = map_option (\<lambda>i. inode_type V (inodes (tree st) ! i)) (get_inode_by_fd pid fd st)"

type_synonym ('x, 'w) volume_new = "nat \<Rightarrow> 'w \<Rightarrow> ((nat \<Rightarrow> 'x) option \<times> 'w) outcome"

definition probe_volume :: "('x, 'w) volume_new \<Rightarrow> ('x, 'w) volume_new \<Rightarrow> nat \<Rightarrow> ('x, 'w) vfs
    \<Rightarrow> (nat option \<times> ('x, 'w) vfs) outcome" where
  "probe_volume fat32_new ext2_new dev t =
     obind (fat32_new dev (world t)) (\<lambda>(v, w). case v of
       Some f \<Rightarrow> Returns (resolve_link (Some (Fresh f)) (t\<lparr>world := w\<rparr>))
     | None \<Rightarrow> obind (ext2_new dev w) (\<lambda>(v, w).
         Returns (resolve_link (map_option Fresh v) (t\<lparr>world := w\<rparr>))))"

definition fs_mount :: "('x, 'w) inode_vt \<Rightarrow> ('x, 'w) volume_new \<Rightarrow> ('x, 'w) volume_new \<Rightarrow> string \<Rightarrow> string
    \<Rightarrow> ('x, 'w) vfs \<Rightarrow> (unit option \<times> ('x, 'w) vfs) outcome" where
  "fs_mount V fat32_new ext2_new to partition_path t =
     obind (get_inode_by_path V partition_path t) (\<lambda>(r, t). case r of
       None \<Rightarrow> Returns (None, t)
     | Some partition_inode \<Rightarrow>
     obind (pop_to_slash (rev (pop_trailing_slash to)) []) (\<lambda>(to_father_path, _).
     obind (get_inode_by_path V to_father_path t) (\<lambda>(r, t). case r of
       None \<Rightarrow> Returns (None, t)
     | Some to_father \<Rightarrow>
     obind (get_inode_by_path V to t) (\<lambda>(r, t). case r of
       None \<Rightarrow> Returns (None, t)
     | Some to_inode \<Rightarrow>
     obind (pop_to_slash (rev (pop_trailing_slash (inode_get_path V (inodes t ! to_inode)))) []) (\<lambda>(_, name).
     obind (probe_volume fat32_new ext2_new partition_inode t) (\<lambda>(v, t). case v of
       None \<Rightarrow> Returns (None, t)
     | Some volume \<Rightarrow> obind (mount_to V volume to_father (rev name) t) (\<lambda>t. Returns (Some (), t))))))))"

definition fs_ioctl :: "('x, 'w) inode_vt \<Rightarrow> nat \<Rightarrow> nat \<Rightarrow> nat \<Rightarrow> nat \<Rightarrow> ('x, 'w) fs_state
    \<Rightarrow> (nat \<times> ('x, 'w) fs_state) outcome" where
  "fs_ioctl V pid fd cmd arg st = (case get_inode_by_fd pid fd st of
     Some inode \<Rightarrow> (case inodes (tree st) ! inode of
       RootFS _ _ \<Rightarrow> Panics
     | Dyn x \<Rightarrow> obind (vt_ioctl V cmd arg x (world (tree st))) (\<lambda>(n, w).
         Returns (n, st\<lparr>tree := (tree st)\<lparr>world := w\<rparr>\<rparr>)))
   | None \<Rightarrow> Returns (usize_max, st))"

section \<open>Freshness and isolation of descriptors\<close>

definition fd_ok :: "fd_manager \<Rightarrow> bool" where
  "fd_ok m \<longleftrightarrow> bt_sorted (file_descriptors m) \<and>
     (\<forall>fd. bt_get (file_descriptors m) fd \<noteq> None \<longrightarrow> fd < fd_allocator m)"

definition fds_ok :: "('x, 'w) fs_state \<Rightarrow> bool" where
  "fds_ok st \<longleftrightarrow> (\<forall>pid m. get_file_descriptor_manager pid st = Some m \<longrightarrow> fd_ok m)"

lemmas manager_simps = get_file_descriptor_manager_def set_manager_def

lemma get_set_manager [simp]:
  "get_file_descriptor_manager p (set_manager q m st) = (if p = q then Some m else get_file_descriptor_manager p st)"
  by (simp add: manager_simps)

lemma get_manager_tree [simp]:
  "get_file_descriptor_manager p (st\<lparr>tree := t\<rparr>) = get_file_descriptor_manager p st"
  by (simp add: manager_simps)

lemma set_manager_tree [simp]: "set_manager q m (st\<lparr>tree := t\<rparr>) = (set_manager q m st)\<lparr>tree := t\<rparr>"
  by (simp add: manager_simps)

lemma add_inode_spec:
  assumes "add_inode i mode m = (fd, m')"
  shows "fd = fd_allocator m"
    and "bt_get (file_descriptors m') k = (if k = fd then Some (i, mode, 0) else bt_get (file_descriptors m) k)"
    and "fd_ok m \<Longrightarrow> bt_get (file_descriptors m) fd = None"
    and "fd_ok m \<Longrightarrow> fd_allocator m < usize_max \<Longrightarrow> fd_ok m'"
proof -
  show fd: "fd = fd_allocator m" using assms by (simp add: add_inode_def get_new_fd_def)
  show "bt_get (file_descriptors m') k = (if k = fd then Some (i, mode, 0) else bt_get (file_descriptors m) k)"
    using assms by (auto simp: add_inode_def get_new_fd_def)
  show "fd_ok m \<Longrightarrow> bt_get (file_descriptors m) fd = None"
    unfolding fd fd_ok_def by (metis less_irrefl)
  assume ok: "fd_ok m" "fd_allocator m < usize_max"
  then have "fd_allocator m' = fd_allocator m + 1"
    using assms by (auto simp: add_inode_def get_new_fd_def usize_max_def)
  moreover have "file_descriptors m' = bt_insert fd (i, mode, 0) (file_descriptors m)"
    using assms by (auto simp: add_inode_def get_new_fd_def)
  ultimately show "fd_ok m'" using ok fd by (auto simp: fd_ok_def less_Suc_eq)
qed

text \<open>One operation of the process \<open>pid\<close>.\<close>

inductive fs_step :: "('x, 'w) inode_vt \<Rightarrow> nat \<Rightarrow> ('x, 'w) fs_state \<Rightarrow> ('x, 'w) fs_state \<Rightarrow> bool"
  for V :: "('x, 'w) inode_vt" and pid :: nat where
  step_open: "fs_open V pid path mode st = Returns (r, st') \<Longrightarrow> fs_step V pid st st'"
| step_create: "fs_create V pid path ty mode st = Returns (r, st') \<Longrightarrow> fs_step V pid st st'"
| step_read: "fs_read V pid fd buf st = Returns (n, buf', st') \<Longrightarrow> fs_step V pid st st'"
| step_write: "fs_write V pid fd buf st = Returns (n, st') \<Longrightarrow> fs_step V pid st st'"
| step_lseek: "fs_lseek pid fd offset st = (u, st') \<Longrightarrow> fs_step V pid st st'"
| step_close: "fs_close pid fd st = (u, st') \<Longrightarrow> fs_step V pid st st'"
| step_fsize: "fs_fsize V pid fd st = Returns (r, st') \<Longrightarrow> fs_step V pid st st'"
| step_list: "fs_list_dir V pid path st = Returns (l, st') \<Longrightarrow> fs_step V pid st st'"
| step_cwd: "fs_change_cwd V pid path st = Returns st' \<Longrightarrow> fs_step V pid st st'"
| step_ioctl: "fs_ioctl V pid fd cmd arg st = Returns (n, st') \<Longrightarrow> fs_step V pid st st'"

text \<open>What the operations do to the managers: nothing, or an update of the manager of the process that keeps
  \<open>fd_ok\<close>.\<close>

definition manager_step :: "nat \<Rightarrow> ('x, 'w) fs_state \<Rightarrow> ('x, 'w) fs_state \<Rightarrow> bool" where
  "manager_step pid st st' \<longleftrightarrow> managers st' = managers st \<or>
     (\<exists>m m'. get_file_descriptor_manager pid st = Some m \<and> managers st' = bt_insert pid m' (managers st) \<and>
       (fd_ok m \<longrightarrow> fd_allocator m < usize_max \<longrightarrow> fd_ok m'))"

lemma manager_step_same: "managers st' = managers st \<Longrightarrow> manager_step pid st st'"
  by (simp add: manager_step_def)

lemma manager_step_refl [simp]: "manager_step pid st st" "manager_step pid st (st\<lparr>tree := t\<rparr>)"
  by (simp_all add: manager_step_def)

lemma manager_step_set:
  "get_file_descriptor_manager pid st = Some m \<Longrightarrow> (fd_ok m \<Longrightarrow> fd_allocator m < usize_max \<Longrightarrow> fd_ok m') \<Longrightarrow>
     manager_step pid st ((set_manager pid m' st)\<lparr>tree := t\<rparr>)"
  unfolding manager_step_def set_manager_def by auto

lemma create_in_step:
  assumes "get_file_descriptor_manager pid st = Some m" "create_in V pid pp name ty mode m st = Returns (r, st')"
  shows "manager_step pid st st'"
proof -
  from assms(2) obtain r1 t1 where 1: "get_inode_by_path V pp (tree st) = Returns (r1, t1)"
    by (auto simp: create_in_def outcome_simps)
  show ?thesis
  proof (cases r1)
    case None
    with assms(2) 1 show ?thesis by (auto simp: create_in_def intro!: manager_step_same)
  next
    case (Some parent)
    with assms(2) 1 obtain r2 t2 where 2: "inode_create V name ty parent t1 = Returns (r2, t2)"
      by (auto simp: create_in_def outcome_simps)
    show ?thesis
    proof (cases r2)
      case None
      with assms(2) 1 2 Some show ?thesis by (auto simp: create_in_def intro!: manager_step_same)
    next
      case (Some i)
      obtain fd m' where m': "add_inode i mode m = (fd, m')" by (cases "add_inode i mode m")
      with assms(2) 1 2 \<open>r1 = Some parent\<close> Some have "st' = (set_manager pid m' st)\<lparr>tree := t2\<rparr>"
        by (simp add: create_in_def)
      with manager_step_set [OF assms(1) add_inode_spec(4) [OF m']] show ?thesis by simp
    qed
  qed
qed

lemma list_inode_step: "list_inode V path st = Returns (l, st') \<Longrightarrow> manager_step pid st st'"
  by (auto simp: list_inode_def outcome_simps Let_def intro!: manager_step_same split: option.splits if_splits)

lemma open_step:
  assumes "fs_open V pid path mode st = Returns (r, st')"
  shows "manager_step pid st st'"
proof (cases "get_file_descriptor_manager pid st")
  case None
  with assms show ?thesis by (auto simp: fs_open_def intro!: manager_step_same)
next
  case (Some m)
  with assms obtain r1 t1 where 1: "get_inode_by_path V (full_path V st m path) (tree st) = Returns (r1, t1)"
    by (auto simp: fs_open_def outcome_simps)
  show ?thesis
  proof (cases r1)
    case None
    with assms 1 Some show ?thesis by (auto simp: fs_open_def intro!: manager_step_same)
  next
    case (Some i)
    obtain fd m' where m': "add_inode i mode m = (fd, m')" by (cases "add_inode i mode m")
    with assms 1 Some \<open>get_file_descriptor_manager pid st = Some m\<close>
    have "st' = (set_manager pid m' st)\<lparr>tree := t1\<rparr>" by (simp add: fs_open_def)
    with manager_step_set [OF \<open>get_file_descriptor_manager pid st = Some m\<close> add_inode_spec(4) [OF m']]
    show ?thesis by simp
  qed
qed

lemma cwd_step:
  assumes "fs_change_cwd V pid path st = Returns st'"
  shows "manager_step pid st st'"
proof (cases "get_file_descriptor_manager pid st")
  case None
  with assms show ?thesis by (auto simp: fs_change_cwd_def intro!: manager_step_same)
next
  case (Some m)
  with assms obtain r1 t1 where 1: "get_inode_by_path V (full_path V st m path) (tree st) = Returns (r1, t1)"
    by (auto simp: fs_change_cwd_def outcome_simps)
  have "fd_ok (m\<lparr>cwd := i\<rparr>)" if "fd_ok m" for i using that by (simp add: fd_ok_def)
  with 1 Some assms manager_step_set [OF Some] show ?thesis
    by (cases r1) (auto simp: fs_change_cwd_def Let_def split: if_splits)
qed

lemma manager_step_set': "get_file_descriptor_manager pid st = Some m \<Longrightarrow> (fd_ok m \<Longrightarrow> fd_ok m') \<Longrightarrow>
     manager_step pid st (set_manager pid m' st)"
  unfolding manager_step_def set_manager_def by auto

lemma table_steps:
  "fs_lseek pid fd offset st = (u, st') \<Longrightarrow> manager_step pid st st'"
  "fs_close pid fd st = (u, st') \<Longrightarrow> manager_step pid st st'"
  by (auto simp: fs_lseek_def fs_close_def fd_ok_def intro!: manager_step_set'
      split: option.splits if_splits)

lemma device_steps:
  "fs_read V pid fd buf st = Returns (n, buf', st') \<Longrightarrow> managers st' = managers st"
  "fs_write V pid fd buf st = Returns (k, st') \<Longrightarrow> managers st' = managers st"
  "fs_fsize V pid fd st = Returns (r, st') \<Longrightarrow> managers st' = managers st"
  "fs_ioctl V pid fd cmd arg st = Returns (k, st') \<Longrightarrow> managers st' = managers st"
  by (auto simp: fs_read_def fs_write_def fs_fsize_def fs_ioctl_def outcome_simps
      split: option.splits if_splits inode.splits)

lemma pop_to_slash_spec:
  "CHR ''/'' \<notin> set cs \<Longrightarrow> pop_to_slash (cs @ CHR ''/'' # rest) name = Returns (rev (CHR ''/'' # rest), name @ cs)"
  by (induction cs arbitrary: name) auto

section \<open>Properties\<close>

text \<open>A root directory with one device, and a process without descriptors.\<close>

definition sample_fs :: "(string, unit) fs_state" where
  "sample_fs = \<lparr>tree = \<lparr>inodes = [RootFS [(''.'', 0), (''tty'', 1)] ''/'', Dyn ''/tty/''], world = ()\<rparr>,
     managers = [(7, fd_manager_new [])]\<rparr>"

definition sample_opened :: "(string, unit) fs_state" where
  "sample_opened = sample_fs\<lparr>managers := [(7, \<lparr>file_descriptors = [(3, 1, Read, 0)], fd_allocator = 4, cwd = 0\<rparr>)]\<rparr>"

lemmas path_eval = get_inode_by_path_def inode_open_def starts_with_slash_def full_path_def

lemma sample_open: "fs_open plain_vt 7 ''/tty'' Read sample_fs = Returns (Some 3, sample_opened)"
  by (simp add: fs_open_def sample_fs_def sample_opened_def path_eval add_inode_def get_new_fd_def
      fd_manager_new_def ROOT_def manager_simps)

lemma sample_manager: "get_file_descriptor_manager 7 sample_fs = Some (fd_manager_new [])"
  by (simp add: sample_fs_def manager_simps)

lemma sample_fd_ok: "fd_ok (fd_manager_new [])"
  by (simp add: fd_ok_def fd_manager_new_def)


text \<open>A successful \<open>open\<close> gives a descriptor that the process did not have, bound to an inode with
  the requested mode at offset 0; its other descriptors are as before.\<close>

lemma fs_open_fresh:
  assumes "fs_open V pid path mode st = Returns (Some fd, st')"
    and "get_file_descriptor_manager pid st = Some m" "fd_ok m"
  shows "bt_get (file_descriptors m) fd = None \<and>
     (\<exists>i m'. get_file_descriptor_manager pid st' = Some m' \<and>
        (\<forall>k. bt_get (file_descriptors m') k =
          (if k = fd then Some (i, mode, 0) else bt_get (file_descriptors m) k)))"
proof -
  from assms(1,2) obtain r1 t1 where 1: "get_inode_by_path V (full_path V st m path) (tree st) = Returns (r1, t1)"
    by (auto simp: fs_open_def outcome_simps)
  with assms(1,2) obtain i where "r1 = Some i" by (cases r1) (auto simp: fs_open_def)
  obtain fd' m' where m': "add_inode i mode m = (fd', m')" by (cases "add_inode i mode m")
  with assms(1,2) 1 \<open>r1 = Some i\<close> have st': "fd' = fd" "st' = (set_manager pid m' st)\<lparr>tree := t1\<rparr>"
    by (simp_all add: fs_open_def)
  with add_inode_spec(2) [OF m'] add_inode_spec(3) [OF m' assms(3)] show ?thesis
    by (intro conjI exI [of _ i] exI [of _ m']) auto
qed

text \<open>C23. Processes are isolated: whatever file operation a process performs, the descriptors and the
  working directory of every other process stay as they are; and the operation keeps the invariant that all
  descriptors are below the allocator, as long as the allocator has not run through all 64-bit numbers.\<close>

theorem fs_step_isolated:
  assumes "fs_step V pid st st'"
  shows "(\<forall>q. q \<noteq> pid \<longrightarrow> get_file_descriptor_manager q st' = get_file_descriptor_manager q st) \<and>
     (fds_ok st \<longrightarrow> (\<forall>m. get_file_descriptor_manager pid st = Some m \<longrightarrow> fd_allocator m < usize_max) \<longrightarrow> fds_ok st')"
proof -
  have "manager_step pid st st'"
    using assms
  proof cases
    case (step_create path ty mode r)
    then show ?thesis
      by (auto simp: fs_create_def outcome_simps intro: create_in_step split: option.splits if_splits)
  next
    case (step_list path l)
    then show ?thesis by (auto simp: fs_list_dir_def intro: list_inode_step split: option.splits if_splits)
  qed (auto intro: open_step cwd_step table_steps manager_step_same dest: device_steps)
  then show ?thesis
    unfolding manager_step_def fds_ok_def get_file_descriptor_manager_def by (auto split: if_splits)
qed

text \<open>\<open>create\<close> with an absolute path passes the last component to the file system backwards: the
  characters are collected while they are popped off the end of the path and never put in order again.\<close>

lemma fs_create_reverses_name:
  assumes "get_file_descriptor_manager pid st = Some m"
    and "starts_with_slash (dir @ ''/'')" "CHR ''/'' \<notin> set name"
  shows "fs_create V pid (dir @ ''/'' @ name) ty mode st = create_in V pid (dir @ ''/'') (rev name) ty mode m st"
proof -
  have "starts_with_slash (dir @ ''/'' @ name)"
    using assms(2) by (cases dir) (auto simp: starts_with_slash_def)
  moreover have "pop_to_slash (rev (dir @ ''/'' @ name)) [] = Returns (dir @ ''/'', rev name)"
    using pop_to_slash_spec [of "rev name" "rev dir" "[]"] assms(3) by simp
  ultimately show ?thesis using assms(1) by (simp add: fs_create_def)
qed

text \<open>A path that goes on after an inode that is not a directory panics the kernel: the trait's default
  \<open>open\<close> is \<open>unimplemented!()\<close>, and the loop over the components calls it.\<close>

lemma fs_open_through_file_panics:
  assumes "get_file_descriptor_manager pid st = Some m" "starts_with_slash p"
    and "root_walk (inodes (tree st)) (split_on (CHR ''/'') p) ROOT = Some n"
    and "inodes (tree st) ! n = Dyn x" "vt_open V = default_open" "name \<noteq> []" "CHR ''/'' \<notin> set name"
  shows "fs_open V pid (p @ ''/'' @ name) mode st = Panics"
proof -
  have "starts_with_slash (p @ ''/'' @ name)" using assms(2) by (simp add: starts_with_slash_def)
  then have "full_path V st m (p @ ''/'' @ name) = p @ ''/'' @ name" by (simp add: full_path_def)
  moreover have "get_inode_by_path V (p @ ''/'' @ name) (tree st) = Panics"
    using root_walk_walk_path [OF assms(3), of V] assms(4-7)
    by (simp add: get_inode_by_path_def split_on_append split_on_plain walk_path_append inode_open_def default_open_def)
  ultimately show ?thesis using assms(1) by (simp add: fs_open_def)
qed

lemma fs_open_fresh_example:
  "fs_open plain_vt 7 ''/tty'' Read sample_fs = Returns (Some 3, sample_opened) \<and>
   bt_get (file_descriptors (fd_manager_new [])) 3 = None \<and>
     (\<exists>i m'. get_file_descriptor_manager 7 sample_opened = Some m' \<and>
        (\<forall>k. bt_get (file_descriptors m') k =
          (if k = 3 then Some (i, Read, 0) else bt_get (file_descriptors (fd_manager_new [])) k)))"
  using sample_open fs_open_fresh [OF sample_open sample_manager sample_fd_ok] by blast

theorem fs_step_isolated_witness:
  "fs_step plain_vt 7 sample_fs sample_opened \<and>
   (\<forall>q. q \<noteq> 7 \<longrightarrow> get_file_descriptor_manager q sample_opened = get_file_descriptor_manager q sample_fs) = True \<and>
   fds_ok sample_opened"
proof -
  have step: "fs_step plain_vt 7 sample_fs sample_opened" using sample_open by (rule step_open)
  have "fds_ok sample_fs"
    using sample_fd_ok by (auto simp: fds_ok_def manager_simps sample_fs_def split: if_splits)
  moreover have "fd_allocator (fd_manager_new []) < usize_max" by (simp add: fd_manager_new_def usize_max_def)
  ultimately show ?thesis using step fs_step_isolated [OF step] sample_manager by simp
qed

lemma fs_create_reverses_name_example:
  "fs_create plain_vt 7 (''/dev'' @ ''/'' @ ''new'') File ReadWrite sample_fs =
     create_in plain_vt 7 (''/dev'' @ ''/'') (rev ''new'') File ReadWrite (fd_manager_new []) sample_fs \<and>
   rev ''new'' = ''wen''"
  using fs_create_reverses_name [OF sample_manager, of "''/dev''" "''new''" plain_vt File ReadWrite]
  by (simp add: starts_with_slash_def)

lemma fs_open_through_file_panics_example:
  "fs_open plain_vt 7 (''/tty'' @ ''/'' @ ''x'') Read sample_fs = Panics"
  by (rule fs_open_through_file_panics [OF sample_manager, where n = 1 and x = "''/tty/''"])
    (simp_all add: starts_with_slash_def sample_fs_def ROOT_def plain_vt_def)

end
