(* ===== verification/Task.thy ===== *)
theory Task
  imports MemoryManager FileOps
begin

text \<open>Processes, threads and the scheduler: \<open>kernel/src/task/\<close>, with the timer interrupt of
  \<open>kernel/src/arch/interrupts.rs\<close>.

  Threads and processes live behind \<open>Arc\<close> pointers.  An \<open>Arc\<close> is a number, the contents
  are in \<open>thread_at\<close> and \<open>process_at\<close>.  A process is alive while it is in
  \<open>PROCESSES\<close>, is the kernel process, or is held by kernel code in progress (\<open>held\<close>); a
  thread is alive while a process that is alive lists it.  \<open>Weak::upgrade\<close> tests exactly this, and
  the last \<open>Arc\<close> of a process frees its page table.  Locks are not modelled: the operations run
  with interrupts disabled and with the scheduler locked.  Addresses that the global allocator chooses
  (kernel stacks) and the parsed executable (the \<open>object\<close> crate) are arguments.\<close>

section \<open>Saved registers\<close>

record cpu_context =
  cr3 :: u64
  r15 :: u64
  r14 :: u64
  r13 :: u64
  r12 :: u64
  r11 :: u64
  r10 :: u64
  r9 :: u64
  r8 :: u64
  rbp :: u64
  rsi :: u64
  rdi :: u64
  rdx :: u64
  rcx :: u64
  rbx :: u64
  rax :: u64
  rip :: u64
  cs :: u64
  rflags :: u64
  rsp :: u64
  ss :: u64

definition context_default :: cpu_context where
  "context_default = \<lparr>cr3 = 0, r15 = 0, r14 = 0, r13 = 0, r12 = 0, r11 = 0, r10 = 0, r9 = 0, r8 = 0, rbp = 0,
     rsi = 0, rdi = 0, rdx = 0, rcx = 0, rbx = 0, rax = 0, rip = 0, cs = 0, rflags = 0, rsp = 0, ss = 0\<rparr>"

definition context_init :: "u64 \<Rightarrow> u64 \<Rightarrow> u64 \<Rightarrow> u16 \<times> u16 \<Rightarrow> cpu_context \<Rightarrow> cpu_context" where
  "context_init entry_point stack_end_address page_table_address segment_selectors c =
     (case segment_selectors of (code_selector, data_selector) \<Rightarrow>
        c\<lparr>rflags := 0x200, rip := entry_point, rsp := stack_end_address, cr3 := page_table_address,
          cs := ucast code_selector, ss := ucast data_selector\<rparr>)"

text \<open>The packed structure read from memory: its words in increasing addresses.\<close>

definition context_from_address :: "u64 list \<Rightarrow> cpu_context" where
  "context_from_address w = \<lparr>cr3 = w ! 0, r15 = w ! 1, r14 = w ! 2, r13 = w ! 3, r12 = w ! 4, r11 = w ! 5,
     r10 = w ! 6, r9 = w ! 7, r8 = w ! 8, rbp = w ! 9, rsi = w ! 10, rdi = w ! 11, rdx = w ! 12, rcx = w ! 13,
     rbx = w ! 14, rax = w ! 15, rip = w ! 16, cs = w ! 17, rflags = w ! 18, rsp = w ! 19, ss = w ! 20\<rparr>"

definition context_words :: "cpu_context \<Rightarrow> u64 list" where
  "context_words c = [cr3 c, r15 c, r14 c, r13 c, r12 c, r11 c, r10 c, r9 c, r8 c, rbp c, rsi c, rdi c, rdx c,
     rcx c, rbx c, rax c, rip c, cs c, rflags c, rsp c, ss c]"

text \<open>The stack as the words above the stack pointer.  The processor pushes the interrupt frame,
  \<open>push_context!\<close> the other registers; \<open>pop_context!\<close> and \<open>iretq\<close> load them back.\<close>

definition interrupt_frame :: "cpu_context \<Rightarrow> u64 list \<Rightarrow> u64 list" where
  "interrupt_frame r s = rip r # cs r # rflags r # rsp r # ss r # s"

definition push_context :: "cpu_context \<Rightarrow> u64 list \<Rightarrow> u64 list" where
  "push_context r s = fold (#) [rax r, rbx r, rcx r, rdx r, rdi r, rsi r, rbp r, r8 r, r9 r, r10 r, r11 r,
     r12 r, r13 r, r14 r, r15 r, cr3 r] s"

fun pop_context :: "u64 list \<Rightarrow> cpu_context \<Rightarrow> (cpu_context \<times> u64 list) outcome" where
  "pop_context (c3 # a15 # a14 # a13 # a12 # a11 # a10 # a9 # a8 # bp # si # di # dx # cx # bx # ax # s) r =
     Returns (r\<lparr>cr3 := c3, r15 := a15, r14 := a14, r13 := a13, r12 := a12, r11 := a11, r10 := a10, r9 := a9,
       r8 := a8, rbp := bp, rsi := si, rdi := di, rdx := dx, rcx := cx, rbx := bx, rax := ax\<rparr>, s)"
| "pop_context _ r = Panics"

fun iretq :: "u64 list \<Rightarrow> cpu_context \<Rightarrow> cpu_context outcome" where
  "iretq (ip # c # f # sp # s # _) r = Returns (r\<lparr>rip := ip, cs := c, rflags := f, rsp := sp, ss := s\<rparr>)"
| "iretq _ r = Panics"

section \<open>Threads and processes\<close>

record fp_state =
  fcw :: u16
  fsw :: u16
  ftw :: u16
  fop :: u16
  word2 :: u64
  word3 :: u64
  mxcsr :: u32
  mxcsr_mask :: u32
  mm :: "u64 list"
  xmm :: "u64 list"
  fp_rest :: "u64 list"

definition fp_state_new :: fp_state where
  "fp_state_new = \<lparr>fcw = 0x037f, fsw = 0, ftw = 0, fop = 0, word2 = 0, word3 = 0, mxcsr = 0x1f80, mxcsr_mask = 0,
     mm = replicate 16 0, xmm = replicate 32 0, fp_rest = replicate 12 0\<rparr>"

record thread =
  th_id :: nat
  kernel_stack :: nat
  th_context :: cpu_context
  th_process :: nat
  fpu_context :: fp_state
  fsbase :: nat

record process =
  p_id :: nat
  p_name :: string
  page_table :: nat
  p_threads :: "nat list"
  args_value :: nat
  args_len :: nat

record ('e, 'x, 'w) kernel_state =
  thread_at :: "nat \<Rightarrow> thread"
  process_at :: "nat \<Rightarrow> process"
  next_ref :: nat
  held :: "nat list"
  processes :: "nat list"
  kernel_process :: nat
  next_pid :: nat
  next_tid :: nat
  current_threads :: "(nat, nat) btree"
  ready_threads :: "nat list"
  ring0_rsp :: "(nat, nat) btree"
  fs_base :: "nat \<Rightarrow> nat"
  kernel_page_table :: nat
  allocator :: frame_allocator
  page_tables :: "'e table_mem"
  memory :: "nat \<Rightarrow> u8"
  fs :: "('x, 'w) fs_state"

text \<open>Third-party code and constants of the machine.\<close>

record ('e, 'x) platform =
  pl_get_bit :: get_bit_fn
  pl_set_bit :: set_bit_fn
  pl_pte :: "'e pte_api"
  pl_mapper :: "(nat \<times> 'e table_mem) mapper"
  pl_hhdm :: nat
  pl_parse :: "u8 list \<Rightarrow> (segment list \<times> nat) option"
  pl_kernel_segments :: "u16 \<times> u16"
  pl_user_segments :: "u16 \<times> u16"
  pl_terminal :: 'x

subsection \<open>Ownership\<close>

definition roots :: "('e, 'x, 'w) kernel_state \<Rightarrow> nat list" where
  "roots st = kernel_process st # processes st @ held st"

definition upgrade_process :: "nat \<Rightarrow> ('e, 'x, 'w) kernel_state \<Rightarrow> nat option" where
  "upgrade_process p st = (if p \<in> set (roots st) then Some p else None)"

definition thread_alive :: "('e, 'x, 'w) kernel_state \<Rightarrow> nat \<Rightarrow> bool" where
  "thread_alive st t = list_ex (\<lambda>p. t \<in> set (p_threads (process_at st p))) (roots st)"

definition upgrade_thread :: "nat \<Rightarrow> ('e, 'x, 'w) kernel_state \<Rightarrow> nat option" where
  "upgrade_thread t st = (if thread_alive st t then Some t else None)"

definition drop_process :: "('e, 'x) platform \<Rightarrow> nat \<Rightarrow> ('e, 'x, 'w) kernel_state \<Rightarrow> ('e, 'x, 'w) kernel_state outcome" where
  "drop_process E p st =
     (if p \<in> set (roots st) then Returns st
      else obind (free_user_page_table (pl_pte E) (pl_set_bit E) (page_tables st) (page_table (process_at st p)) (allocator st))
        (\<lambda>a. Returns (st\<lparr>allocator := a\<rparr>)))"

definition hold :: "nat \<Rightarrow> ('e, 'x, 'w) kernel_state \<Rightarrow> ('e, 'x, 'w) kernel_state" where
  "hold p st = st\<lparr>held := p # held st\<rparr>"

definition release :: "('e, 'x) platform \<Rightarrow> nat \<Rightarrow> ('e, 'x, 'w) kernel_state \<Rightarrow> ('e, 'x, 'w) kernel_state outcome" where
  "release E p st = drop_process E p (st\<lparr>held := remove1 p (held st)\<rparr>)"

definition update_thread :: "nat \<Rightarrow> (thread \<Rightarrow> thread) \<Rightarrow> ('e, 'x, 'w) kernel_state \<Rightarrow> ('e, 'x, 'w) kernel_state" where
  "update_thread t f st = st\<lparr>thread_at := (thread_at st)(t := f (thread_at st t))\<rparr>"

definition update_process :: "nat \<Rightarrow> (process \<Rightarrow> process) \<Rightarrow> ('e, 'x, 'w) kernel_state \<Rightarrow> ('e, 'x, 'w) kernel_state" where
  "update_process p f st = st\<lparr>process_at := (process_at st)(p := f (process_at st p))\<rparr>"

definition alloc_thread :: "thread \<Rightarrow> ('e, 'x, 'w) kernel_state \<Rightarrow> nat \<times> ('e, 'x, 'w) kernel_state" where
  "alloc_thread th st = (next_ref st, st\<lparr>thread_at := (thread_at st)(next_ref st := th), next_ref := next_ref st + 1\<rparr>)"

definition alloc_process :: "process \<Rightarrow> ('e, 'x, 'w) kernel_state \<Rightarrow> nat \<times> ('e, 'x, 'w) kernel_state" where
  "alloc_process pr st = (next_ref st, st\<lparr>process_at := (process_at st)(next_ref st := pr), next_ref := next_ref st + 1\<rparr>)"

subsection \<open>Threads\<close>

text \<open>\<open>ThreadId::new\<close> and \<open>ProcessId::new\<close> are \<open>fetch_add\<close> on an
  \<open>AtomicU64\<close>, which wraps around.  \<open>kstack\<close> is the end of the new kernel stack.\<close>

definition thread_new :: "nat \<Rightarrow> nat \<Rightarrow> ('e, 'x, 'w) kernel_state \<Rightarrow> thread \<times> ('e, 'x, 'w) kernel_state" where
  "thread_new kstack p st =
     (\<lparr>th_id = next_tid st, kernel_stack = kstack, th_context = context_default, th_process = p,
        fpu_context = fp_state_new, fsbase = 0\<rparr>,
      st\<lparr>next_tid := (next_tid st + 1) mod 2 ^ 64\<rparr>)"

definition push_thread :: "nat \<Rightarrow> process \<Rightarrow> process" where
  "push_thread t pr = pr\<lparr>p_threads := p_threads pr @ [t]\<rparr>"

definition scheduler_add :: "nat \<Rightarrow> ('e, 'x, 'w) kernel_state \<Rightarrow> ('e, 'x, 'w) kernel_state" where
  "scheduler_add t st = st\<lparr>ready_threads := ready_threads st @ [t]\<rparr>"

definition get_init_thread :: "nat \<Rightarrow> ('e, 'x, 'w) kernel_state \<Rightarrow> nat \<times> ('e, 'x, 'w) kernel_state" where
  "get_init_thread kstack st = (case thread_new kstack (kernel_process st) st of (th, st) \<Rightarrow>
     (case alloc_thread th st of (t, st) \<Rightarrow> (t, update_process (kernel_process st) (push_thread t) st)))"

definition new_kernel_thread :: "('e, 'x) platform \<Rightarrow> nat \<Rightarrow> nat \<Rightarrow> ('e, 'x, 'w) kernel_state \<Rightarrow> ('e, 'x, 'w) kernel_state" where
  "new_kernel_thread E function_address kstack st =
     (case thread_new kstack (kernel_process st) st of (th, st) \<Rightarrow>
      let th = th\<lparr>th_context := context_init (of_nat function_address) (of_nat (kernel_stack th))
             (of_nat (kernel_page_table st)) (pl_kernel_segments E) (th_context th)\<rparr> in
      case alloc_thread th st of (t, st) \<Rightarrow>
        scheduler_add t (update_process (kernel_process st) (push_thread t) st))"

text \<open>\<open>rdfsbase\<close> and reading \<open>IA32_FS_BASE\<close> give the same register of the processor, so both
  branches of \<open>save_fsbase\<close> and of \<open>restore_fsbase\<close> are one operation.\<close>

definition save_fsbase :: "nat \<Rightarrow> ('e, 'x, 'w) kernel_state \<Rightarrow> thread \<Rightarrow> thread" where
  "save_fsbase cpu st th = th\<lparr>fsbase := fs_base st cpu\<rparr>"

definition restore_fsbase :: "nat \<Rightarrow> thread \<Rightarrow> ('e, 'x, 'w) kernel_state \<Rightarrow> ('e, 'x, 'w) kernel_state" where
  "restore_fsbase cpu th st = st\<lparr>fs_base := (fs_base st)(cpu := fsbase th)\<rparr>"

definition new_user_thread :: "('e, 'x) platform \<Rightarrow> nat \<Rightarrow> nat \<Rightarrow> nat \<Rightarrow> nat \<Rightarrow> ('e, 'x, 'w) kernel_state
    \<Rightarrow> ('e, 'x, 'w) kernel_state outcome" where
  "new_user_thread E cpu kstack p entry_point st =
     (case thread_new kstack p st of (th, st) \<Rightarrow>
      obind (unwrap (upgrade_process p st)) (\<lambda>p.
      obind (user_stack_new (pl_get_bit E) (pl_set_bit E) (pl_mapper E)
          ((page_table (process_at st p), page_tables st), allocator st)) (\<lambda>(stack_end, (root, mem), a).
      let st = update_process p (\<lambda>pr. pr\<lparr>page_table := root\<rparr>) (st\<lparr>page_tables := mem, allocator := a\<rparr>);
          th = th\<lparr>th_context := context_init (of_nat entry_point) (of_nat stack_end)
             (of_nat (page_table (process_at st p))) (pl_user_segments E) (th_context th)\<rparr>;
          th = save_fsbase cpu st th in
      case alloc_thread th st of (t, st) \<Rightarrow>
        Returns (scheduler_add t (update_process p (push_thread t) st)))))"

subsection \<open>Processes\<close>

definition process_new :: "('e, 'x) platform \<Rightarrow> string \<Rightarrow> ('e, 'x, 'w) kernel_state
    \<Rightarrow> (process \<times> ('e, 'x, 'w) kernel_state) outcome" where
  "process_new E name st =
     obind (deep_copy (pl_pte E) (allocate_frame (pl_get_bit E) (pl_set_bit E)) (kernel_page_table st)
         (allocator st, page_tables st)) (\<lambda>(root, a, mem).
     Returns (\<lparr>p_id = next_pid st, p_name = name, page_table = root, p_threads = [], args_value = 0, args_len = 0\<rparr>,
       st\<lparr>next_pid := (next_pid st + 1) mod 2 ^ 64, allocator := a, page_tables := mem\<rparr>))"

definition new_kernel_process :: "('e, 'x) platform \<Rightarrow> ('e, 'x, 'w) kernel_state \<Rightarrow> ('e, 'x, 'w) kernel_state outcome" where
  "new_kernel_process E st =
     obind (process_new E ''kernel'' st) (\<lambda>(pr, st).
     case alloc_process pr st of (p, st) \<Rightarrow>
       Returns (st\<lparr>processes := processes st @ [p], kernel_process := p\<rparr>))"

definition map_process_segments :: "('e, 'x) platform \<Rightarrow> segment list \<Rightarrow> nat \<Rightarrow> ('e, 'x, 'w) kernel_state
    \<Rightarrow> ('e, 'x, 'w) kernel_state outcome" where
  "map_process_segments E segments p st =
     obind (map_segments (pl_get_bit E) (pl_set_bit E) (pl_mapper E) (pl_hhdm E) segments
         (((page_table (process_at st p), page_tables st), allocator st), memory st)) (\<lambda>(((root, mem), a), raw).
     Returns (update_process p (\<lambda>pr. pr\<lparr>page_table := root\<rparr>)
       (st\<lparr>page_tables := mem, allocator := a, memory := raw\<rparr>)))"

definition add_terminal :: "'x \<Rightarrow> ('e, 'x, 'w) kernel_state \<Rightarrow> nat \<times> ('e, 'x, 'w) kernel_state" where
  "add_terminal x st =
     (length (inodes (tree (fs st))),
      st\<lparr>fs := (fs st)\<lparr>tree := (tree (fs st))\<lparr>inodes := inodes (tree (fs st)) @ [Dyn x]\<rparr>\<rparr>\<rparr>)"

definition new_user_process :: "('e, 'x) platform \<Rightarrow> nat \<Rightarrow> nat \<Rightarrow> string \<Rightarrow> u8 list \<Rightarrow> ('e, 'x, 'w) kernel_state
    \<Rightarrow> (nat option \<times> ('e, 'x, 'w) kernel_state) outcome" where
  "new_user_process E cpu kstack name elf_data st =
     (case pl_parse E elf_data of
        None \<Rightarrow> Returns (None, st)
      | Some (segments, entry_point) \<Rightarrow>
          obind (process_new E name st) (\<lambda>(pr, st).
          case alloc_process pr st of (p, st) \<Rightarrow>
          obind (map_process_segments E segments p (hold p st)) (\<lambda>st.
          obind (new_user_thread E cpu kstack p entry_point st) (\<lambda>st.
          let st = st\<lparr>processes := processes st @ [p]\<rparr> in
          case add_terminal (pl_terminal E) st of (stdin, st) \<Rightarrow>
          case add_terminal (pl_terminal E) st of (stdout, st) \<Rightarrow>
            Returns (Some p, st\<lparr>fs := init_file_descriptor_manager_with_stdin_stdout
              (p_id (process_at st p)) stdin stdout (fs st)\<rparr>)))))"

fun position :: "('a \<Rightarrow> bool) \<Rightarrow> 'a list \<Rightarrow> nat option" where
  "position P [] = None"
| "position P (x # xs) = (if P x then Some 0 else map_option Suc (position P xs))"

definition remove_at :: "nat \<Rightarrow> 'a list \<Rightarrow> 'a list" where
  "remove_at i xs = take i xs @ drop (Suc i) xs"

definition exit_process :: "('e, 'x) platform \<Rightarrow> nat \<Rightarrow> ('e, 'x, 'w) kernel_state \<Rightarrow> ('e, 'x, 'w) kernel_state outcome" where
  "exit_process E p st =
     (case position (\<lambda>q. p_id (process_at st q) = p_id (process_at st p)) (processes st) of
        None \<Rightarrow> Returns st
      | Some index \<Rightarrow> drop_process E (processes st ! index) (st\<lparr>processes := remove_at index (processes st)\<rparr>))"

definition is_process_exited :: "nat \<Rightarrow> ('e, 'x, 'w) kernel_state \<Rightarrow> bool" where
  "is_process_exited pid st = (\<not> list_ex (\<lambda>p. p_id (process_at st p) = pid) (processes st))"

section \<open>The scheduler\<close>

text \<open>\<open>cpus\<close> pairs the local APIC numbers with the ends of the stacks of their initial threads.\<close>

fun init_threads :: "(nat \<times> nat) list \<Rightarrow> ('e, 'x, 'w) kernel_state \<Rightarrow> (nat, nat) btree \<times> ('e, 'x, 'w) kernel_state" where
  "init_threads [] st = ([], st)"
| "init_threads ((lapic_id, kstack) # cpus) st =
     (case get_init_thread kstack st of (t, st) \<Rightarrow>
      case init_threads cpus st of (m, st) \<Rightarrow> (bt_insert lapic_id t m, st))"

definition scheduler_new :: "(nat \<times> nat) list \<Rightarrow> ('e, 'x, 'w) kernel_state \<Rightarrow> ('e, 'x, 'w) kernel_state" where
  "scheduler_new cpus st =
     (case init_threads cpus st of (m, st) \<Rightarrow> st\<lparr>current_threads := m, ready_threads := []\<rparr>)"

definition scheduler_find :: "nat \<Rightarrow> ('e, 'x, 'w) kernel_state \<Rightarrow> nat option outcome" where
  "scheduler_find pid st =
     ofind (\<lambda>t. obind (unwrap (upgrade_thread t st)) (\<lambda>t.
       obind (unwrap (upgrade_process (th_process (thread_at st t)) st)) (\<lambda>p.
       Returns (p_id (process_at st p) = pid)))) (ready_threads st)"

fun retain :: "('a \<Rightarrow> bool outcome) \<Rightarrow> 'a list \<Rightarrow> 'a list outcome" where
  "retain p [] = Returns []"
| "retain p (x # xs) = obind (p x) (\<lambda>b. obind (retain p xs) (\<lambda>ys. Returns (if b then x # ys else ys)))"

definition scheduler_remove :: "nat \<Rightarrow> ('e, 'x, 'w) kernel_state \<Rightarrow> ('e, 'x, 'w) kernel_state outcome" where
  "scheduler_remove t st =
     obind (retain (\<lambda>other. obind (unwrap (upgrade_thread other st)) (\<lambda>other.
         obind (unwrap (upgrade_thread t st)) (\<lambda>t. Returns (other \<noteq> t)))) (ready_threads st))
       (\<lambda>ts. Returns (st\<lparr>ready_threads := ts\<rparr>))"

definition current_thread :: "nat \<Rightarrow> ('e, 'x, 'w) kernel_state \<Rightarrow> nat outcome" where
  "current_thread cpu st = unwrap (bt_get (current_threads st) cpu)"

definition set_ring0_rsp :: "nat \<Rightarrow> nat \<Rightarrow> ('e, 'x, 'w) kernel_state \<Rightarrow> ('e, 'x, 'w) kernel_state outcome" where
  "set_ring0_rsp cpu v st = (case bt_get (ring0_rsp st) cpu of
     None \<Rightarrow> Panics
   | Some _ \<Rightarrow> Returns (st\<lparr>ring0_rsp := bt_insert cpu v (ring0_rsp st)\<rparr>))"

text \<open>\<open>schedule\<close>: its argument is the saved context itself, its result the thread whose context is
  to be loaded.\<close>

definition schedule :: "nat \<Rightarrow> cpu_context \<Rightarrow> ('e, 'x, 'w) kernel_state \<Rightarrow> (nat \<times> ('e, 'x, 'w) kernel_state) outcome" where
  "schedule cpu c st =
     obind (current_thread cpu st) (\<lambda>cur.
     let last_thread = upgrade_thread cur st;
         st = (case last_thread of None \<Rightarrow> st | Some t \<Rightarrow> update_thread t (\<lambda>th. th\<lparr>th_context := c\<rparr>) st) in
     obind (case ready_threads st of
        [] \<Rightarrow> Returns st
      | next_thread # rest \<Rightarrow>
          (let st = st\<lparr>current_threads := bt_insert cpu next_thread (current_threads st), ready_threads := rest\<rparr> in
           case last_thread of
             None \<Rightarrow> Returns st
           | Some last_thread \<Rightarrow>
               obind (unwrap (upgrade_thread last_thread st)) (\<lambda>t.
               let st = update_thread t (save_fsbase cpu st) st in
               Returns (st\<lparr>ready_threads := ready_threads st @ [last_thread]\<rparr>)))) (\<lambda>st.
     obind (current_thread cpu st) (\<lambda>t.
     obind (unwrap (upgrade_thread t st)) (\<lambda>next_thread.
     let st = restore_fsbase cpu (thread_at st next_thread) st in
     obind (set_ring0_rsp cpu (kernel_stack (thread_at st next_thread)) st) (\<lambda>st.
     Returns (next_thread, st))))))"

definition get_current_thread :: "nat \<Rightarrow> ('e, 'x, 'w) kernel_state \<Rightarrow> nat outcome" where
  "get_current_thread cpu st = obind (current_thread cpu st) (\<lambda>t. unwrap (upgrade_thread t st))"

definition get_current_process :: "nat \<Rightarrow> ('e, 'x, 'w) kernel_state \<Rightarrow> nat outcome" where
  "get_current_process cpu st =
     obind (get_current_thread cpu st) (\<lambda>t. unwrap (upgrade_process (th_process (thread_at st t)) st))"

definition get_current_process_id :: "nat \<Rightarrow> ('e, 'x, 'w) kernel_state \<Rightarrow> nat outcome" where
  "get_current_process_id cpu st = obind (get_current_process cpu st) (\<lambda>p. Returns (p_id (process_at st p)))"

text \<open>The timer interrupt on a processor with the registers \<open>r\<close> and the stack \<open>s\<close>, and the
  registers it leaves.\<close>

definition timer_interrupt :: "nat \<Rightarrow> u64 list \<Rightarrow> cpu_context \<Rightarrow> ('e, 'x, 'w) kernel_state
    \<Rightarrow> (cpu_context \<times> ('e, 'x, 'w) kernel_state) outcome" where
  "timer_interrupt cpu s r st =
     obind (schedule cpu (context_from_address (push_context r (interrupt_frame r s))) st) (\<lambda>(t, st).
     obind (pop_context (context_words (th_context (thread_at st t))) r) (\<lambda>(r, s).
     obind (iretq s r) (\<lambda>r. Returns (r, st))))"

section \<open>Ending a process\<close>

definition end_thread_process :: "('e, 'x) platform \<Rightarrow> nat \<Rightarrow> ('e, 'x, 'w) kernel_state \<Rightarrow> ('e, 'x, 'w) kernel_state outcome" where
  "end_thread_process E t st =
     (case upgrade_thread t st of
        None \<Rightarrow> Returns st
      | Some t \<Rightarrow> (case upgrade_process (th_process (thread_at st t)) st of
          None \<Rightarrow> Returns st
        | Some p \<Rightarrow> obind (exit_process E p (hold p st)) (release E p)))"

definition sys_exit :: "('e, 'x) platform \<Rightarrow> nat \<Rightarrow> ('e, 'x, 'w) kernel_state \<Rightarrow> (nat \<times> ('e, 'x, 'w) kernel_state) outcome" where
  "sys_exit E cpu st =
     obind (current_thread cpu st) (\<lambda>t.
     obind (scheduler_remove t st) (\<lambda>st.
     obind (end_thread_process E t st) (\<lambda>st. Returns (0, st))))"

definition kill_process :: "('e, 'x) platform \<Rightarrow> nat \<Rightarrow> ('e, 'x, 'w) kernel_state \<Rightarrow> (nat \<times> ('e, 'x, 'w) kernel_state) outcome" where
  "kill_process E pid st =
     obind (scheduler_find pid st) (\<lambda>r. case r of
       None \<Rightarrow> Returns (0, st)
     | Some t \<Rightarrow>
         obind (scheduler_remove t st) (\<lambda>st.
         obind (end_thread_process E t st) (\<lambda>st. Returns (0, st))))"

definition execve :: "('e, 'x) platform \<Rightarrow> nat \<Rightarrow> nat \<Rightarrow> u8 list \<Rightarrow> nat \<Rightarrow> nat \<Rightarrow> ('e, 'x, 'w) kernel_state
    \<Rightarrow> (nat \<times> ('e, 'x, 'w) kernel_state) outcome" where
  "execve E cpu kstack buffer args_ptr n_args st =
     obind (new_user_process E cpu kstack ''task'' buffer st) (\<lambda>(r, st). case r of
       None \<Rightarrow> Returns (usize_max, st)
     | Some p \<Rightarrow>
         let st = update_process p (\<lambda>pr. pr\<lparr>args_value := args_ptr, args_len := n_args\<rparr>) st;
             ret = p_id (process_at st p) in
         obind (release E p st) (\<lambda>st. Returns (ret, st)))"

end
