(* ===== verification/Scheduler.thy ===== *)
theory Scheduler
  imports Task
begin

text \<open>Properties of the scheduler and of the life of processes.  The lemmas show that no thread is lost,
  duplicated or run by two processors, that the scheduler does not run into dead threads, and that a
  preempted thread resumes with the registers it had.\<close>

section \<open>The invariant of the scheduler\<close>

text \<open>The threads that are ready or run on a processor are all different; the ready ones are alive; the
  threads of a process point back to it; process numbers are unique; a user process has one thread, which is
  ready or running.\<close>

definition running :: "('e, 'x, 'w) kernel_state \<Rightarrow> nat set" where
  "running st = snd ` set (current_threads st)"

definition sched_inv :: "('e, 'x, 'w) kernel_state \<Rightarrow> bool" where
  "sched_inv st \<longleftrightarrow>
     held st = [] \<and> bt_sorted (current_threads st) \<and> distinct (processes st) \<and>
     distinct (ready_threads st @ map snd (current_threads st)) \<and>
     (\<forall>t\<in>set (ready_threads st) \<union> running st. t < next_ref st) \<and>
     (\<forall>t\<in>set (ready_threads st). thread_alive st t) \<and>
     (\<forall>p\<in>set (roots st). p < next_ref st \<and> p_id (process_at st p) < next_pid st \<and>
        (\<forall>t\<in>set (p_threads (process_at st p)). t < next_ref st \<and> th_process (thread_at st t) = p)) \<and>
     inj_on (\<lambda>p. p_id (process_at st p)) (set (roots st)) \<and>
     (\<forall>p\<in>set (processes st) - {kernel_process st}. length (p_threads (process_at st p)) \<le> 1 \<and>
        set (p_threads (process_at st p)) \<subseteq> set (ready_threads st) \<union> running st)"

named_theorems task_simps \<open>state changes that the ownership predicates do not see\<close>

lemma roots_simps [simp, task_simps]:
  "roots (update_thread t f st) = roots st" "roots (update_process p g st) = roots st"
  "roots (st\<lparr>current_threads := m\<rparr>) = roots st" "roots (st\<lparr>ready_threads := ts\<rparr>) = roots st"
  "roots (st\<lparr>fs_base := fb\<rparr>) = roots st" "roots (st\<lparr>ring0_rsp := rr\<rparr>) = roots st"
  "roots (st\<lparr>allocator := a\<rparr>) = roots st" "roots (st\<lparr>thread_at := ta\<rparr>) = roots st"
  by (simp_all add: roots_def update_thread_def update_process_def)

lemma thread_alive_simps [simp, task_simps]:
  "thread_alive (update_thread t f st) = thread_alive st"
  "thread_alive (st\<lparr>current_threads := m\<rparr>) = thread_alive st" "thread_alive (st\<lparr>ready_threads := ts\<rparr>) = thread_alive st"
  "thread_alive (st\<lparr>fs_base := fb\<rparr>) = thread_alive st" "thread_alive (st\<lparr>ring0_rsp := rr\<rparr>) = thread_alive st"
  "thread_alive (st\<lparr>allocator := a\<rparr>) = thread_alive st" "thread_alive (st\<lparr>thread_at := ta\<rparr>) = thread_alive st"
  by (simp_all add: fun_eq_iff thread_alive_def roots_simps) (simp add: update_thread_def)

lemma thread_alive_iff: "thread_alive st t \<longleftrightarrow> (\<exists>p\<in>set (roots st). t \<in> set (p_threads (process_at st p)))"
  by (simp add: thread_alive_def list_ex_iff)

lemma sched_invD:
  assumes "sched_inv st"
  shows "held st = []" "bt_sorted (current_threads st)" "distinct (processes st)"
    "distinct (ready_threads st)" "distinct (map snd (current_threads st))" "set (ready_threads st) \<inter> running st = {}"
    "\<And>t. t \<in> set (ready_threads st) \<Longrightarrow> thread_alive st t"
    "\<And>p t. p \<in> set (roots st) \<Longrightarrow> t \<in> set (p_threads (process_at st p)) \<Longrightarrow> th_process (thread_at st t) = p"
    "inj_on (\<lambda>p. p_id (process_at st p)) (set (roots st))"
  using assms by (auto simp: sched_inv_def running_def)

lemma alive_process:
  assumes "sched_inv st" "thread_alive st t"
  shows "th_process (thread_at st t) \<in> set (roots st)" "t \<in> set (p_threads (process_at st (th_process (thread_at st t))))"
  using assms sched_invD(8) [OF assms(1)] by (auto simp: thread_alive_iff)

lemma scheduler_find_total:
  assumes "sched_inv st"
  shows "scheduler_find pid st =
    Returns (find (\<lambda>t. p_id (process_at st (th_process (thread_at st t))) = pid) (ready_threads st))"
  unfolding scheduler_find_def
  by (rule ofind_total)
    (use assms sched_invD(7) alive_process in \<open>auto simp: upgrade_thread_def upgrade_process_def\<close>)

lemma retain_total: "(\<And>x. x \<in> set xs \<Longrightarrow> p x = Returns (P x)) \<Longrightarrow> retain p xs = Returns (filter P xs)"
  by (induction xs) auto

lemma scheduler_remove_total:
  assumes "\<And>u. u \<in> set (ready_threads st) \<Longrightarrow> thread_alive st u" "thread_alive st t"
  shows "scheduler_remove t st = Returns (st\<lparr>ready_threads := filter (\<lambda>u. u \<noteq> t) (ready_threads st)\<rparr>)"
proof -
  have "retain (\<lambda>other. obind (unwrap (upgrade_thread other st)) (\<lambda>other.
         obind (unwrap (upgrade_thread t st)) (\<lambda>t. Returns (other \<noteq> t)))) (ready_threads st) =
      Returns (filter (\<lambda>u. u \<noteq> t) (ready_threads st))"
    by (rule retain_total) (simp add: upgrade_thread_def assms)
  then show ?thesis by (simp add: scheduler_remove_def)
qed

subsection \<open>Switching threads\<close>

definition switched :: "nat \<Rightarrow> cpu_context \<Rightarrow> nat \<Rightarrow> nat \<Rightarrow> ('e, 'x, 'w) kernel_state \<Rightarrow> ('e, 'x, 'w) kernel_state" where
  "switched cpu c cur n st =
     st\<lparr>thread_at := (thread_at st)(cur := (thread_at st cur)\<lparr>th_context := c, fsbase := fs_base st cpu\<rparr>),
        current_threads := bt_insert cpu n (current_threads st),
        ready_threads := tl (ready_threads st) @ [cur],
        fs_base := (fs_base st)(cpu := fsbase (thread_at st n)),
        ring0_rsp := bt_insert cpu (kernel_stack (thread_at st n)) (ring0_rsp st)\<rparr>"

lemma schedule_switch:
  assumes "bt_get (current_threads st) cpu = Some cur" "thread_alive st cur" "ready_threads st = n # rest"
    "thread_alive st n" "n \<noteq> cur" "bt_get (ring0_rsp st) cpu \<noteq> None"
  shows "schedule cpu c st = Returns (n, switched cpu c cur n st)"
  using assms
  by (auto simp: schedule_def current_thread_def upgrade_thread_def Let_def set_ring0_rsp_def restore_fsbase_def
      switched_def update_thread_def save_fsbase_def)

definition after_exit :: "nat \<Rightarrow> nat \<Rightarrow> ('e, 'x, 'w) kernel_state \<Rightarrow> ('e, 'x, 'w) kernel_state" where
  "after_exit cpu n st =
     st\<lparr>current_threads := bt_insert cpu n (current_threads st), ready_threads := tl (ready_threads st),
        fs_base := (fs_base st)(cpu := fsbase (thread_at st n)),
        ring0_rsp := bt_insert cpu (kernel_stack (thread_at st n)) (ring0_rsp st)\<rparr>"

lemma schedule_after_exit:
  assumes "bt_get (current_threads st) cpu = Some cur" "\<not> thread_alive st cur" "ready_threads st = n # rest"
    "thread_alive st n" "bt_get (ring0_rsp st) cpu \<noteq> None"
  shows "schedule cpu c st = Returns (n, after_exit cpu n st)"
  using assms
  by (auto simp: schedule_def current_thread_def upgrade_thread_def Let_def set_ring0_rsp_def restore_fsbase_def
      after_exit_def)

definition stayed :: "nat \<Rightarrow> cpu_context \<Rightarrow> nat \<Rightarrow> ('e, 'x, 'w) kernel_state \<Rightarrow> ('e, 'x, 'w) kernel_state" where
  "stayed cpu c cur st =
     st\<lparr>thread_at := (thread_at st)(cur := (thread_at st cur)\<lparr>th_context := c\<rparr>),
        fs_base := (fs_base st)(cpu := fsbase (thread_at st cur)),
        ring0_rsp := bt_insert cpu (kernel_stack (thread_at st cur)) (ring0_rsp st)\<rparr>"

lemma schedule_stay:
  assumes "bt_get (current_threads st) cpu = Some cur" "thread_alive st cur" "ready_threads st = []"
    "bt_get (ring0_rsp st) cpu \<noteq> None"
  shows "schedule cpu c st = Returns (cur, stayed cpu c cur st)"
  using assms
  by (auto simp: schedule_def current_thread_def upgrade_thread_def Let_def set_ring0_rsp_def restore_fsbase_def
      stayed_def update_thread_def)

lemma schedule_cases:
  assumes "sched_inv st" "schedule cpu c st = Returns (t, st')"
  obtains (switch) cur rest where "bt_get (current_threads st) cpu = Some cur" "ready_threads st = t # rest" "thread_alive st cur"
      "st' = switched cpu c cur t st"
  | (dead) cur rest where "bt_get (current_threads st) cpu = Some cur" "ready_threads st = t # rest" "\<not> thread_alive st cur"
      "st' = after_exit cpu t st"
  | (stay) "bt_get (current_threads st) cpu = Some t" "ready_threads st = []" "thread_alive st t" "st' = stayed cpu c t st"
proof -
  obtain cur where cur: "bt_get (current_threads st) cpu = Some cur"
    using assms(2) by (auto simp: schedule_def current_thread_def outcome_simps)
  have rsp: "bt_get (ring0_rsp st) cpu \<noteq> None"
    using assms(2) by (cases "ready_threads st")
      (auto simp: schedule_def current_thread_def outcome_simps upgrade_thread_def Let_def set_ring0_rsp_def restore_fsbase_def
        update_thread_def split: option.splits if_splits)
  have cur_running: "cur \<in> running st" using map_of_SomeD [OF cur] by (force simp: running_def)
  show ?thesis
  proof (cases "ready_threads st")
    case Nil
    have "thread_alive st cur"
      using assms(2) Nil cur
      by (auto simp: schedule_def current_thread_def outcome_simps upgrade_thread_def Let_def split: if_splits)
    from schedule_stay [OF cur this Nil rsp, of c] assms(2) Nil this cur show ?thesis by (intro stay) auto
  next
    case (Cons n rest)
    then have n: "thread_alive st n" using sched_invD(7) [OF assms(1)] by simp
    have "n \<noteq> cur" using sched_invD(6) [OF assms(1)] Cons cur_running by auto
    then show ?thesis
      using schedule_switch [OF cur _ Cons n _ rsp, of c] schedule_after_exit [OF cur _ Cons n rsp, of c] assms(2) Cons cur
      by (cases "thread_alive st cur") (auto intro: switch dead)
  qed
qed

subsection \<open>Every operation keeps the invariant\<close>

lemma snd_bt_insert:
  assumes "bt_sorted m" "bt_get m k = Some v"
  shows "\<exists>xs ys. map snd m = xs @ v # ys \<and> map snd (bt_insert k w m) = xs @ w # ys"
  using assms
proof (induction k w m rule: bt_insert.induct)
  case (2 k w k' v' m)
  show ?case
  proof (cases "k = k'")
    case True
    then show ?thesis using 2 by (intro exI [of _ "[]"] exI [of _ "map snd m"]) auto
  next
    case False
    with 2(3) have mem: "bt_get m k = Some v" by (auto split: if_splits)
    then have "k' < k" using 2(2) map_of_SomeD [OF mem] by (force simp: bt_sorted_def)
    moreover have "bt_sorted m" using 2(2) by (simp add: bt_sorted_def)
    ultimately obtain xs ys where "map snd m = xs @ v # ys" "map snd (bt_insert k w m) = xs @ w # ys"
      using 2(1) mem by fastforce
    then show ?thesis using \<open>k' < k\<close> by (intro exI [of _ "v' # xs"] exI [of _ ys]) auto
  qed
qed simp

text \<open>Rearranging the threads that are ready and running.\<close>

definition same_tasks :: "('e, 'x, 'w) kernel_state \<Rightarrow> ('e, 'x, 'w) kernel_state \<Rightarrow> bool" where
  "same_tasks st st' \<longleftrightarrow> held st' = held st \<and> processes st' = processes st \<and> kernel_process st' = kernel_process st \<and>
     process_at st' = process_at st \<and> next_ref st' = next_ref st \<and> next_pid st' = next_pid st \<and>
     (\<forall>t. th_process (thread_at st' t) = th_process (thread_at st t))"

lemma same_tasks_ownership:
  assumes "same_tasks st st'"
  shows "roots st' = roots st" "thread_alive st' = thread_alive st"
  using assms by (auto simp: same_tasks_def roots_def thread_alive_def fun_eq_iff)

lemma sched_inv_requeue:
  assumes inv: "sched_inv st" and same: "same_tasks st st'" and "bt_sorted (current_threads st')"
    and d: "distinct (ready_threads st' @ map snd (current_threads st'))"
    and sub: "set (ready_threads st') \<union> running st' \<subseteq> set (ready_threads st) \<union> running st"
    and sup: "\<And>t. t \<in> set (ready_threads st) \<union> running st \<Longrightarrow> thread_alive st t \<Longrightarrow>
      t \<in> set (ready_threads st') \<union> running st'"
    and alive: "\<And>t. t \<in> set (ready_threads st') \<Longrightarrow> thread_alive st t"
  shows "sched_inv st'"
proof -
  note own = same_tasks_ownership [OF same] and same = same [unfolded same_tasks_def]
  have "length (p_threads (process_at st p)) \<le> 1 \<and>
      set (p_threads (process_at st p)) \<subseteq> set (ready_threads st') \<union> running st'"
    if p: "p \<in> set (processes st) - {kernel_process st}" for p
  proof -
    have "thread_alive st t" if "t \<in> set (p_threads (process_at st p))" for t
      using that p by (auto simp: thread_alive_iff roots_def)
    moreover have "length (p_threads (process_at st p)) \<le> 1"
      "set (p_threads (process_at st p)) \<subseteq> set (ready_threads st) \<union> running st"
      using inv p unfolding sched_inv_def by blast+
    ultimately show ?thesis using sup by blast
  qed
  moreover have "\<forall>t\<in>set (ready_threads st') \<union> running st'. t < next_ref st"
    using inv sub unfolding sched_inv_def by blast
  ultimately show ?thesis
    using inv assms(3) d alive same unfolding sched_inv_def own by simp
qed

lemma distinct_rotate:
  assumes "distinct ((n # rest) @ xs @ cur # ys)"
  shows "distinct ((rest @ [cur]) @ xs @ n # ys)" "distinct (rest @ xs @ n # ys)"
  using assms by auto

lemma sched_inv_switched:
  assumes inv: "sched_inv st" and cur: "bt_get (current_threads st) cpu = Some cur" "thread_alive st cur"
    and ready: "ready_threads st = n # rest"
  shows "sched_inv (switched cpu c cur n st)"
proof -
  let ?st = "switched cpu c cur n st"
  obtain xs ys where m: "map snd (current_threads st) = xs @ cur # ys"
    "map snd (bt_insert cpu n (current_threads st)) = xs @ n # ys"
    using snd_bt_insert [OF sched_invD(2) [OF inv] cur(1)] by blast
  have run: "running st = insert cur (set xs \<union> set ys)" "running ?st = insert n (set xs \<union> set ys)"
    using arg_cong [OF m(1), of set] arg_cong [OF m(2), of set] by (auto simp: running_def switched_def)
  have q: "ready_threads ?st = rest @ [cur]" using ready by (simp add: switched_def)
  have "distinct ((n # rest) @ xs @ cur # ys)" using inv ready m(1) unfolding sched_inv_def by simp
  then have d: "distinct (ready_threads ?st @ map snd (current_threads ?st))"
    using distinct_rotate(1) m(2) q by (simp add: switched_def)
  show ?thesis
  proof (rule sched_inv_requeue [OF inv])
    show "same_tasks st ?st" by (simp add: same_tasks_def switched_def)
    show "bt_sorted (current_threads ?st)" using sched_invD(2) [OF inv] by (simp add: switched_def)
    show "thread_alive st t" if "t \<in> set (ready_threads ?st)" for t
      using that q cur(2) sched_invD(7) [OF inv, of t] ready by auto
  qed (use d run q ready in auto)
qed

lemma sched_inv_after_exit:
  assumes inv: "sched_inv st" and cur: "bt_get (current_threads st) cpu = Some cur" "\<not> thread_alive st cur"
    and ready: "ready_threads st = n # rest"
  shows "sched_inv (after_exit cpu n st)"
proof -
  let ?st = "after_exit cpu n st"
  obtain xs ys where m: "map snd (current_threads st) = xs @ cur # ys"
    "map snd (bt_insert cpu n (current_threads st)) = xs @ n # ys"
    using snd_bt_insert [OF sched_invD(2) [OF inv] cur(1)] by blast
  have run: "running st = insert cur (set xs \<union> set ys)" "running ?st = insert n (set xs \<union> set ys)"
    using arg_cong [OF m(1), of set] arg_cong [OF m(2), of set] by (auto simp: running_def after_exit_def)
  have q: "ready_threads ?st = rest" using ready by (simp add: after_exit_def)
  have "distinct ((n # rest) @ xs @ cur # ys)" using inv ready m(1) unfolding sched_inv_def by simp
  then have d: "distinct (ready_threads ?st @ map snd (current_threads ?st))"
    using distinct_rotate(2) m(2) q by (simp add: after_exit_def)
  show ?thesis
  proof (rule sched_inv_requeue [OF inv])
    show "same_tasks st ?st" by (simp add: same_tasks_def after_exit_def)
    show "bt_sorted (current_threads ?st)" using sched_invD(2) [OF inv] by (simp add: after_exit_def)
    show "thread_alive st t" if "t \<in> set (ready_threads ?st)" for t
      using that q sched_invD(7) [OF inv, of t] ready by auto
    show "t \<in> set (ready_threads ?st) \<union> running ?st"
      if "t \<in> set (ready_threads st) \<union> running st" "thread_alive st t" for t
      using that run q ready cur(2) by auto
  qed (use d run q ready in auto)
qed

lemma sched_inv_stayed:
  assumes "sched_inv st"
  shows "sched_inv (stayed cpu c cur st)"
proof (rule sched_inv_requeue [OF assms])
  show "same_tasks st (stayed cpu c cur st)" by (simp add: same_tasks_def stayed_def)
  show "distinct (ready_threads (stayed cpu c cur st) @ map snd (current_threads (stayed cpu c cur st)))"
    using assms unfolding sched_inv_def by (simp add: stayed_def)
qed (use sched_invD [OF assms] in \<open>auto simp: stayed_def running_def\<close>)

lemma sched_inv_schedule:
  assumes "sched_inv st" "schedule cpu c st = Returns (t, st')"
  shows "sched_inv st'"
  using assms
proof (cases rule: schedule_cases)
  case (switch cur rest)
  then show ?thesis using sched_inv_switched [OF assms(1)] by simp
next
  case (dead cur rest)
  then show ?thesis using sched_inv_after_exit [OF assms(1)] by simp
next
  case stay
  then show ?thesis using sched_inv_stayed [OF assms(1)] by simp
qed

lemma sched_inv_timer_interrupt:
  "sched_inv st \<Longrightarrow> timer_interrupt cpu s r st = Returns (r', st') \<Longrightarrow> sched_inv st'"
  by (auto simp: timer_interrupt_def outcome_simps intro: sched_inv_schedule)

lemma position_filter:
  assumes "distinct xs" "\<And>y. y \<in> set xs \<Longrightarrow> P y \<longleftrightarrow> y = x"
  shows "(case position P xs of None \<Rightarrow> x \<notin> set xs \<and> filter (\<lambda>y. y \<noteq> x) xs = xs
    | Some i \<Rightarrow> xs ! i = x \<and> remove_at i xs = filter (\<lambda>y. y \<noteq> x) xs)"
  using assms
proof (induction xs)
  case (Cons y ys)
  have IH: "(case position P ys of None \<Rightarrow> x \<notin> set ys \<and> filter (\<lambda>y. y \<noteq> x) ys = ys
    | Some i \<Rightarrow> ys ! i = x \<and> remove_at i ys = filter (\<lambda>y. y \<noteq> x) ys)"
    using Cons by simp
  have "filter (\<lambda>y. y \<noteq> x) ys = ys" if "y = x" using that Cons.prems(1) by (simp add: filter_id_conv) blast
  with IH Cons.prems show ?case by (auto simp: remove_at_def split: option.splits)
qed simp

lemma release_frame:
  assumes "release E p st = Returns st'"
  shows "\<exists>a. st' = st\<lparr>held := remove1 p (held st), allocator := a\<rparr>"
proof (cases "p \<in> set (roots (st\<lparr>held := remove1 p (held st)\<rparr>))")
  case True
  then show ?thesis using assms by (intro exI [of _ "allocator st"]) (auto simp: release_def drop_process_def)
next
  case False
  then show ?thesis using assms by (auto simp: release_def drop_process_def outcome_simps)
qed

lemma end_thread_process_frame:
  assumes inv: "sched_inv st" and t: "thread_alive st t" and p: "p = th_process (thread_at st t)"
    and run: "end_thread_process E t (st\<lparr>ready_threads := ts\<rparr>) = Returns st'"
  shows "\<exists>a. st' = st\<lparr>ready_threads := ts, processes := filter (\<lambda>q. q \<noteq> p) (processes st), allocator := a\<rparr>"
proof -
  let ?st = "st\<lparr>ready_threads := ts\<rparr>"
  have alive: "p \<in> set (roots st)" using alive_process [OF inv t] p by simp
  have same_id: "p_id (process_at st q) = p_id (process_at st p) \<longleftrightarrow> q = p" if "q \<in> set (processes st)" for q
    using sched_invD(9) [OF inv] alive that by (auto simp: inj_on_def roots_def)
  note pos = position_filter [where P = "\<lambda>q. p_id (process_at st q) = p_id (process_at st p)",
      OF sched_invD(3) [OF inv] same_id]
  have "exit_process E p (hold p ?st) = Returns (hold p (?st\<lparr>processes := filter (\<lambda>q. q \<noteq> p) (processes st)\<rparr>))"
    using pos by (auto simp: exit_process_def hold_def drop_process_def roots_def split: option.splits)
  with run t p alive obtain a where "st' = (?st\<lparr>processes := filter (\<lambda>q. q \<noteq> p) (processes st)\<rparr>)
      \<lparr>held := remove1 p (held (hold p ?st)), allocator := a\<rparr>"
    using release_frame [of E p "hold p (?st\<lparr>processes := filter (\<lambda>q. q \<noteq> p) (processes st)\<rparr>)" st']
    by (auto simp: end_thread_process_def upgrade_thread_def upgrade_process_def hold_def)
  then show ?thesis using sched_invD(1) [OF inv] by (intro exI [of _ a]) (simp add: hold_def)
qed

lemma sched_inv_ended:
  assumes inv: "sched_inv st" and t: "thread_alive st t" and p: "p = th_process (thread_at st t)"
  shows "sched_inv (st\<lparr>ready_threads := filter (\<lambda>u. u \<noteq> t) (ready_threads st),
    processes := filter (\<lambda>q. q \<noteq> p) (processes st), allocator := a\<rparr>)" (is "sched_inv ?st")
proof -
  note i = inv [unfolded sched_inv_def]
  have roots: "set (roots ?st) \<subseteq> set (roots st)" by (auto simp: roots_def)
  have alive: "thread_alive ?st u" if u: "u \<in> set (ready_threads st)" "u \<noteq> t" for u
  proof -
    let ?q = "th_process (thread_at st u)"
    have q: "?q \<in> set (roots st)" "u \<in> set (p_threads (process_at st ?q))"
      using alive_process [OF inv sched_invD(7) [OF inv u(1)]] .
    have "?q \<in> set (roots ?st)"
    proof (cases "?q = p \<and> p \<noteq> kernel_process st")
      case True
      then have "p \<in> set (processes st) - {kernel_process st}"
        using q(1) sched_invD(1) [OF inv] by (auto simp: roots_def)
      then have "length (p_threads (process_at st p)) \<le> 1" using i by blast
      moreover have "{t, u} \<subseteq> set (p_threads (process_at st p))"
        using q(2) True alive_process(2) [OF inv t] p by simp
      ultimately show ?thesis using u(2) by (cases "p_threads (process_at st p)") auto
    next
      case False
      then show ?thesis using q(1) sched_invD(1) [OF inv] by (auto simp: roots_def)
    qed
    then show ?thesis using q(2) by (auto simp: thread_alive_iff)
  qed
  have "set (p_threads (process_at st q)) \<subseteq> set (ready_threads ?st) \<union> running ?st"
    if q: "q \<in> set (processes ?st) - {kernel_process st}" for q
  proof -
    have "t \<notin> set (p_threads (process_at st q))"
      using q sched_invD(8) [OF inv, of q t] p by (auto simp: roots_def)
    moreover have "set (p_threads (process_at st q)) \<subseteq> set (ready_threads st) \<union> running st"
      using i q by auto
    ultimately show ?thesis by (auto simp: running_def)
  qed
  moreover have "\<forall>q\<in>set (roots ?st). q < next_ref st \<and> p_id (process_at st q) < next_pid st \<and>
        (\<forall>t\<in>set (p_threads (process_at st q)). t < next_ref st \<and> th_process (thread_at st t) = q)"
    using i roots by blast
  moreover have "inj_on (\<lambda>p. p_id (process_at st p)) (set (roots ?st))"
    using i roots inj_on_subset by blast
  moreover have "distinct (ready_threads ?st @ map snd (current_threads ?st))"
    using sched_invD(4-6) [OF inv] by (auto simp: running_def)
  moreover have "\<forall>t\<in>set (ready_threads ?st) \<union> running ?st. t < next_ref st"
    using i by (auto simp: running_def)
  ultimately show ?thesis using i alive unfolding sched_inv_def by simp
qed

lemma sys_exit_cases:
  assumes inv: "sched_inv st" and run: "sys_exit E cpu st = Returns (r, st')"
  obtains (dead) t where "bt_get (current_threads st) cpu = Some t" "\<not> thread_alive st t" "ready_threads st = []" "st' = st"
  | (alive) t a where "bt_get (current_threads st) cpu = Some t" "thread_alive st t"
      "st' = st\<lparr>ready_threads := ready_threads st, processes := filter (\<lambda>q. q \<noteq> th_process (thread_at st t)) (processes st),
        allocator := a\<rparr>"
proof -
  obtain t st1 where t: "bt_get (current_threads st) cpu = Some t" and rm: "scheduler_remove t st = Returns st1"
    and rest: "end_thread_process E t st1 = Returns st'"
    using run by (auto simp: sys_exit_def current_thread_def outcome_simps)
  have "t \<in> running st" using map_of_SomeD [OF t] by (force simp: running_def)
  then have keep: "filter (\<lambda>u. u \<noteq> t) (ready_threads st) = ready_threads st"
    using sched_invD(6) [OF inv] by (auto simp: filter_id_conv)
  show ?thesis
  proof (cases "thread_alive st t")
    case True
    then have "st1 = st\<lparr>ready_threads := ready_threads st\<rparr>"
      using scheduler_remove_total [OF sched_invD(7) [OF inv] True] rm keep by simp
    then show ?thesis using end_thread_process_frame [OF inv True refl, of E "ready_threads st" st'] rest t True alive by metis
  next
    case False
    then have nil: "ready_threads st = []"
      using rm sched_invD(7) [OF inv] by (cases "ready_threads st") (auto simp: scheduler_remove_def upgrade_thread_def outcome_simps)
    moreover have "st\<lparr>ready_threads := ready_threads st\<rparr> = st" by simp
    ultimately have "st1 = st" using rm by (auto simp: scheduler_remove_def)
    then show ?thesis using rest False t nil by (intro dead) (auto simp: end_thread_process_def upgrade_thread_def)
  qed
qed

lemma sched_inv_exit:
  assumes inv: "sched_inv st" and run: "sys_exit E cpu st = Returns (r, st')"
  shows "sched_inv st'"
  using assms
proof (cases rule: sys_exit_cases)
  case (alive t a)
  have "t \<in> running st" using map_of_SomeD [OF alive(1)] by (force simp: running_def)
  then have "filter (\<lambda>u. u \<noteq> t) (ready_threads st) = ready_threads st"
    using sched_invD(6) [OF inv] by (auto simp: filter_id_conv)
  then show ?thesis using sched_inv_ended [OF inv alive(2) refl, of a] alive(3) by simp
qed (use inv in simp)

lemma sched_inv_kill:
  assumes inv: "sched_inv st" and run: "kill_process E pid st = Returns (r, st')"
  shows "sched_inv st'"
proof (cases "find (\<lambda>t. p_id (process_at st (th_process (thread_at st t))) = pid) (ready_threads st)")
  case None
  then show ?thesis using inv run by (simp add: kill_process_def scheduler_find_total)
next
  case (Some t)
  then have alive: "thread_alive st t" using sched_invD(7) [OF inv] by (auto simp: find_Some_iff)
  with scheduler_remove_total [OF sched_invD(7) [OF inv] this] Some run inv show ?thesis
    using end_thread_process_frame [OF inv, of t _ E _ st'] sched_inv_ended
    by (fastforce simp: kill_process_def scheduler_find_total outcome_simps)
qed

subsection \<open>New processes and threads\<close>

text \<open>What a new thread of the process \<open>p\<close> changes: the thread \<open>t\<close> is in no queue before, is
  the last of the ready threads and of its process after.\<close>

definition spawned :: "nat \<Rightarrow> nat \<Rightarrow> thread \<Rightarrow> process \<Rightarrow> ('e, 'x, 'w) kernel_state \<Rightarrow> ('e, 'x, 'w) kernel_state \<Rightarrow> bool" where
  "spawned p t th pr st st' \<longleftrightarrow> next_ref st \<le> t \<and> next_ref st' = t + 1 \<and> th_process th = p \<and>
     thread_at st' = (thread_at st)(t := th) \<and> process_at st' = (process_at st)(p := pr) \<and>
     kernel_process st' = kernel_process st \<and> held st' = held st \<and>
     current_threads st' = current_threads st \<and> ready_threads st' = ready_threads st @ [t]"

lemma process_new_frame:
  assumes "process_new E nm st = Returns (pr, st')"
  shows "\<exists>root a mem. pr = \<lparr>p_id = next_pid st, p_name = nm, page_table = root, p_threads = [], args_value = 0, args_len = 0\<rparr> \<and>
    st' = st\<lparr>next_pid := (next_pid st + 1) mod 2 ^ 64, allocator := a, page_tables := mem\<rparr>"
  using assms by (auto simp: process_new_def outcome_simps)

lemma map_process_segments_frame:
  assumes "map_process_segments E segs p st = Returns st'"
  shows "\<exists>root mem a raw. st' = update_process p (\<lambda>pr. pr\<lparr>page_table := root\<rparr>)
       (st\<lparr>page_tables := mem, allocator := a, memory := raw\<rparr>)"
  using assms by (auto simp: map_process_segments_def outcome_simps)

lemma new_user_thread_frame:
  assumes "new_user_thread E cpu kstack p entry_point st = Returns st'"
  shows "\<exists>root mem a. st' = st\<lparr>next_tid := (next_tid st + 1) mod 2 ^ 64, page_tables := mem, allocator := a,
      next_ref := next_ref st + 1,
      thread_at := (thread_at st)(next_ref st := \<lparr>th_id = next_tid st, kernel_stack = kstack,
        th_context = context_init (of_nat entry_point) (of_nat USER_STACK_END) (of_nat root) (pl_user_segments E) context_default,
        th_process = p, fpu_context = fp_state_new, fsbase = fs_base st cpu\<rparr>),
      process_at := (process_at st)(p := (process_at st p)\<lparr>page_table := root,
        p_threads := p_threads (process_at st p) @ [next_ref st]\<rparr>),
      ready_threads := ready_threads st @ [next_ref st]\<rparr>"
proof -
  from assms obtain root mem a where "user_stack_new (pl_get_bit E) (pl_set_bit E) (pl_mapper E)
      ((page_table (process_at st p), page_tables st), allocator st) = Returns (USER_STACK_END, (root, mem), a)"
    and up: "p \<in> set (roots (st\<lparr>next_tid := (next_tid st + 1) mod 2 ^ 64\<rparr>))"
    by (auto simp: new_user_thread_def thread_new_def outcome_simps upgrade_process_def user_stack_new_def split: if_splits)
  with assms show ?thesis
    by (intro exI [of _ root] exI [of _ mem] exI [of _ a])
      (auto simp: new_user_thread_def thread_new_def upgrade_process_def Let_def alloc_thread_def scheduler_add_def
        update_process_def push_thread_def save_fsbase_def)
qed

lemma new_user_process_frame:
  assumes "new_user_process E cpu kstack nm elf st = Returns (Some p, st')"
  shows "\<exists>segments entry_point th pr. pl_parse E elf = Some (segments, entry_point) \<and>
     spawned p (p + 1) th pr (hold p st) st' \<and> p = next_ref st \<and>
     processes st' = processes st @ [p] \<and> next_pid st' = (next_pid st + 1) mod 2 ^ 64 \<and>
     p_id pr = next_pid st \<and> p_threads pr = [p + 1] \<and>
     th_context th = context_init (of_nat entry_point) (of_nat USER_STACK_END) (of_nat (page_table pr))
       (pl_user_segments E) context_default \<and> kernel_stack th = kstack \<and>
     (\<exists>m. bt_get (managers (fs st')) (next_pid st) = Some m \<and> map fst (file_descriptors m) = [0, 1, 2] \<and> cwd m = ROOT)"
proof -
  obtain segs entry_point where parse: "pl_parse E elf = Some (segs, entry_point)"
    using assms by (auto simp: new_user_process_def split: option.splits)
  obtain pr st1 st2 st3 where 1: "process_new E nm st = Returns (pr, st1)"
    and 2: "map_process_segments E segs (next_ref st1) (hold (next_ref st1) (snd (alloc_process pr st1))) = Returns st2"
    and 3: "new_user_thread E cpu kstack (next_ref st1) entry_point st2 = Returns st3"
    and st': "p = next_ref st1" "st' = (let st = st3\<lparr>processes := processes st3 @ [p]\<rparr>;
        st = snd (add_terminal (pl_terminal E) st); st = snd (add_terminal (pl_terminal E) st) in
        st\<lparr>fs := init_file_descriptor_manager_with_stdin_stdout (p_id (process_at st p))
          (length (inodes (tree (fs st3)))) (Suc (length (inodes (tree (fs st3))))) (fs st)\<rparr>)"
    using assms by (auto simp: new_user_process_def parse outcome_simps alloc_process_def Let_def add_terminal_def)
  obtain root a mem where pr: "pr = \<lparr>p_id = next_pid st, p_name = nm, page_table = root, p_threads = [], args_value = 0, args_len = 0\<rparr>"
    "st1 = st\<lparr>next_pid := (next_pid st + 1) mod 2 ^ 64, allocator := a, page_tables := mem\<rparr>"
    using process_new_frame [OF 1] by blast
  show ?thesis
    using map_process_segments_frame [OF 2] new_user_thread_frame [OF 3] parse unfolding st' pr
    by (intro exI [of _ segs] exI [of _ entry_point] exI [of _ "thread_at st3 (p + 1)"] exI [of _ "process_at st3 p"])
      (auto simp: st' pr spawned_def hold_def alloc_process_def update_process_def Let_def add_terminal_def
        init_file_descriptor_manager_with_stdin_stdout_def set_manager_def fd_manager_new_def)
qed

lemma execve_cases:
  assumes "execve E cpu kstack buf args n st = Returns (r, st')" "held st = []"
  obtains (refused) "st' = st" "r = usize_max"
  | (started) p th pr where "spawned p (p + 1) th pr st st'" "p = next_ref st" "processes st' = processes st @ [p]"
      "next_pid st' = (next_pid st + 1) mod 2 ^ 64" "p_id pr = next_pid st" "p_threads pr = [p + 1]" "r = next_pid st"
proof -
  obtain q st1 where 1: "new_user_process E cpu kstack ''task'' buf st = Returns (q, st1)"
    using assms by (auto simp: execve_def outcome_simps)
  show ?thesis
  proof (cases q)
    case None
    then have "st1 = st" using 1
      by (auto simp: new_user_process_def outcome_simps Let_def alloc_process_def add_terminal_def split: option.splits)
    then show ?thesis using assms 1 None by (intro refused) (auto simp: execve_def)
  next
    case (Some p)
    then have 2: "release E p (update_process p (\<lambda>pr. pr\<lparr>args_value := args, args_len := n\<rparr>) st1) = Returns st'"
      and r: "r = p_id (process_at st1 p)"
      using assms 1 by (auto simp: execve_def outcome_simps update_process_def Let_def)
    obtain th pr where "spawned p (p + 1) th pr (hold p st) st1" "p = next_ref st" "processes st1 = processes st @ [p]"
      "next_pid st1 = (next_pid st + 1) mod 2 ^ 64" "p_id pr = next_pid st" "p_threads pr = [p + 1]"
      using new_user_process_frame [OF 1 [unfolded Some]] by blast
    with release_frame [OF 2] assms(2) r show ?thesis
      by (intro started [of p th "pr\<lparr>args_value := args, args_len := n\<rparr>"])
        (auto simp: spawned_def hold_def update_process_def)
  qed
qed

lemma sched_inv_new_process:
  assumes inv: "sched_inv st" and sp: "spawned p (p + 1) th pr st st'" and p: "p = next_ref st"
    and pr: "processes st' = processes st @ [p]" "p_id pr = next_pid st" "p_threads pr = [p + 1]"
    and pid: "next_pid st' = (next_pid st + 1) mod 2 ^ 64" "next_pid st + 1 < 2 ^ 64"
  shows "sched_inv st'"
proof -
  note i = inv [unfolded sched_inv_def] and s = sp [unfolded spawned_def]
  have old: "q < p" if "q \<in> set (roots st)" for q using i that p by blast
  have oldt: "t < p" if "t \<in> set (ready_threads st) \<union> running st" for t using i that p by blast
  have roots: "set (roots st') = insert p (set (roots st))" using pr(1) s by (auto simp: roots_def)
  have same: "process_at st' q = process_at st q" if "q \<in> set (roots st)" for q
    using old [OF that] s by simp
  have new: "process_at st' p = pr" "next_pid st' = next_pid st + 1" "next_ref st' = p + 2" "running st' = running st"
    "ready_threads st' = ready_threads st @ [p + 1]" "kernel_process st' = kernel_process st"
    using s pid by (auto simp: running_def)
  have own: "\<forall>q\<in>set (roots st'). q < next_ref st' \<and> p_id (process_at st' q) < next_pid st' \<and>
      (\<forall>t\<in>set (p_threads (process_at st' q)). t < next_ref st' \<and> th_process (thread_at st' t) = q)"
  proof
    fix q assume "q \<in> set (roots st')"
    then consider "q = p" | "q \<in> set (roots st)" using roots by blast
    then show "q < next_ref st' \<and> p_id (process_at st' q) < next_pid st' \<and>
      (\<forall>t\<in>set (p_threads (process_at st' q)). t < next_ref st' \<and> th_process (thread_at st' t) = q)"
    proof cases
      case 1
      then show ?thesis using pr new s by simp
    next
      case 2
      then have "q < p \<and> p_id (process_at st q) < next_pid st \<and>
          (\<forall>t\<in>set (p_threads (process_at st q)). t < p \<and> th_process (thread_at st t) = q)"
        using i p by blast
      then show ?thesis using 2 same s new by fastforce
    qed
  qed
  have inj: "inj_on (\<lambda>q. p_id (process_at st' q)) (set (roots st'))"
  proof -
    have "inj_on (\<lambda>q. p_id (process_at st' q)) (set (roots st))"
      using i same by (simp add: inj_on_def)
    moreover have "p_id (process_at st' q) \<noteq> p_id (process_at st' p)" if "q \<in> set (roots st)" for q
      using i that same [OF that] new(1) pr(2) by fastforce
    ultimately show ?thesis unfolding roots inj_on_insert by (auto dest: sym)
  qed
  have alive: "\<forall>t\<in>set (ready_threads st'). thread_alive st' t"
    using i roots same new pr(3) by (auto simp: thread_alive_iff)
  have users: "\<forall>q\<in>set (processes st') - {kernel_process st'}. length (p_threads (process_at st' q)) \<le> 1 \<and>
      set (p_threads (process_at st' q)) \<subseteq> set (ready_threads st') \<union> running st'"
  proof
    fix q assume q: "q \<in> set (processes st') - {kernel_process st'}"
    show "length (p_threads (process_at st' q)) \<le> 1 \<and>
      set (p_threads (process_at st' q)) \<subseteq> set (ready_threads st') \<union> running st'"
    proof (cases "q = p")
      case False
      with q pr(1) new(6) have "q \<in> set (processes st) - {kernel_process st}" "q \<in> set (roots st)"
        by (auto simp: roots_def)
      then show ?thesis using i same new by auto
    qed (use new pr in simp)
  qed
  have "p \<notin> set (processes st)" using old by (fastforce simp: roots_def)
  moreover have "p + 1 \<notin> set (ready_threads st) \<union> running st" using oldt by fastforce
  ultimately have "distinct (processes st')" "distinct (ready_threads st' @ map snd (current_threads st'))"
    using i s pr(1) by (auto simp: running_def)
  moreover have "\<forall>t\<in>set (ready_threads st') \<union> running st'. t < next_ref st'"
    using oldt new by fastforce
  ultimately show ?thesis using i s own inj alive users unfolding sched_inv_def by simp
qed

lemma new_kernel_thread_frame:
  "\<exists>th. spawned (kernel_process st) (next_ref st) th (push_thread (next_ref st) (process_at st (kernel_process st))) st
      (new_kernel_thread E f kstack st) \<and>
    processes (new_kernel_thread E f kstack st) = processes st \<and>
    next_pid (new_kernel_thread E f kstack st) = next_pid st"
  by (intro exI [of _ "thread_at (new_kernel_thread E f kstack st) (next_ref st)"])
    (auto simp: new_kernel_thread_def thread_new_def alloc_thread_def scheduler_add_def update_process_def spawned_def Let_def)

lemma sched_inv_kernel_thread:
  assumes inv: "sched_inv st" and sp: "spawned k t th (push_thread t (process_at st k)) st st'" "t = next_ref st"
    and k: "k = kernel_process st" "processes st' = processes st" "next_pid st' = next_pid st"
  shows "sched_inv st'"
proof -
  note i = inv [unfolded sched_inv_def] and s = sp [unfolded spawned_def]
  have roots: "roots st' = roots st" using k s by (simp add: roots_def)
  have new: "next_ref st' = t + 1" "running st' = running st" "ready_threads st' = ready_threads st @ [t]"
    "kernel_process st' = k" using s k by (auto simp: running_def)
  have ids: "p_id (process_at st' q) = p_id (process_at st q)" for q using s by (simp add: push_thread_def)
  have threads: "p_threads (process_at st' q) = p_threads (process_at st q) @ (if q = k then [t] else [])" for q
    using s by (simp add: push_thread_def)
  have procs: "th_process (thread_at st' u) = (if u = t then k else th_process (thread_at st u))" for u
    using s by simp
  have own: "\<forall>q\<in>set (roots st'). q < next_ref st' \<and> p_id (process_at st' q) < next_pid st' \<and>
      (\<forall>u\<in>set (p_threads (process_at st' q)). u < next_ref st' \<and> th_process (thread_at st' u) = q)"
  proof
    fix q assume "q \<in> set (roots st')"
    then have "q < t \<and> p_id (process_at st q) < next_pid st \<and>
        (\<forall>u\<in>set (p_threads (process_at st q)). u < t \<and> th_process (thread_at st u) = q)"
      using i roots sp(2) by simp
    then show "q < next_ref st' \<and> p_id (process_at st' q) < next_pid st' \<and>
      (\<forall>u\<in>set (p_threads (process_at st' q)). u < next_ref st' \<and> th_process (thread_at st' u) = q)"
      unfolding ids threads procs new k(3) by (auto simp: less_SucI)
  qed
  have alive: "\<forall>u\<in>set (ready_threads st'). thread_alive st' u"
    using i roots new k by (auto simp: thread_alive_iff threads) (auto simp: roots_def)
  have users: "\<forall>q\<in>set (processes st') - {kernel_process st'}. length (p_threads (process_at st' q)) \<le> 1 \<and>
      set (p_threads (process_at st' q)) \<subseteq> set (ready_threads st') \<union> running st'"
  proof
    fix q assume "q \<in> set (processes st') - {kernel_process st'}"
    then have "q \<in> set (processes st) - {kernel_process st}" "q \<noteq> k" using k new by auto
    with i new show "length (p_threads (process_at st' q)) \<le> 1 \<and>
      set (p_threads (process_at st' q)) \<subseteq> set (ready_threads st') \<union> running st'"
      by (auto simp: threads)
  qed
  have bound: "\<forall>u\<in>set (ready_threads st) \<union> running st. u < t" using i sp(2) by blast
  then have "t \<notin> set (ready_threads st) \<union> running st" by blast
  then have "distinct (ready_threads st' @ map snd (current_threads st'))"
    using sched_invD(4-6) [OF inv] s by (auto simp: running_def)
  moreover have "\<forall>u\<in>set (ready_threads st') \<union> running st'. u < next_ref st'"
    unfolding new using bound by (auto simp: less_SucI)
  moreover have "inj_on (\<lambda>q. p_id (process_at st' q)) (set (roots st'))" using i by (simp add: ids roots)
  ultimately show ?thesis using i s own alive users k unfolding sched_inv_def by simp
qed

section \<open>Steps of the machine\<close>

text \<open>What changes the task state: a timer interrupt on a processor, a program that changes its FS base,
  new kernel threads and processes, the end of a process by itself or by another.  Fewer than $2^{64}$
  processes are created.\<close>

inductive task_step :: "('e, 'x) platform \<Rightarrow> ('e, 'x, 'w) kernel_state \<Rightarrow> ('e, 'x, 'w) kernel_state \<Rightarrow> bool"
  for E where
  tick: "timer_interrupt cpu s r st = Returns (r', st') \<Longrightarrow> task_step E st st'"
| write_fs: "task_step E st (st\<lparr>fs_base := f\<rparr>)"
| kernel_thread: "task_step E st (new_kernel_thread E entry kstack st)"
| exec: "execve E cpu kstack buf args n st = Returns (r, st') \<Longrightarrow> next_pid st + 1 < 2 ^ 64 \<Longrightarrow> task_step E st st'"
| exit: "sys_exit E cpu st = Returns (r, st') \<Longrightarrow> task_step E st st'"
| kill: "kill_process E pid st = Returns (r, st') \<Longrightarrow> task_step E st st'"

lemma sched_inv_step: "task_step E st st' \<Longrightarrow> sched_inv st \<Longrightarrow> sched_inv st'"
proof (induction rule: task_step.induct)
  case (write_fs st f)
  show ?case
  proof (rule sched_inv_requeue [OF write_fs])
    show "same_tasks st (st\<lparr>fs_base := f\<rparr>)" by (simp add: same_tasks_def)
    show "distinct (ready_threads (st\<lparr>fs_base := f\<rparr>) @ map snd (current_threads (st\<lparr>fs_base := f\<rparr>)))"
      using write_fs unfolding sched_inv_def by simp
  qed (use sched_invD [OF write_fs] in \<open>auto simp: running_def\<close>)
next
  case (kernel_thread st entry kstack)
  then show ?case using new_kernel_thread_frame [of st E entry kstack] sched_inv_kernel_thread by blast
next
  case (exec cpu kstack buf args n st r st')
  note inv = exec(3)
  from exec(1) sched_invD(1) [OF inv] show ?case
  proof (cases rule: execve_cases)
    case refused
    then show ?thesis using inv by simp
  next
    case (started p th pr)
    then show ?thesis using sched_inv_new_process [OF inv started(1-3,5,6,4) exec(2)] by simp
  qed
qed (auto intro: sched_inv_timer_interrupt sched_inv_exit sched_inv_kill)

lemma sched_inv_steps: "(task_step E)\<^sup>*\<^sup>* st st' \<Longrightarrow> sched_inv st \<Longrightarrow> sched_inv st'"
  by (induction rule: rtranclp_induct) (auto intro: sched_inv_step)

text \<open>The state when the scheduler is created: the kernel process exists and has no thread.\<close>

definition booted :: "('e, 'x, 'w) kernel_state \<Rightarrow> bool" where
  "booted st \<longleftrightarrow> held st = [] \<and> processes st = [kernel_process st] \<and> kernel_process st < next_ref st \<and>
     p_threads (process_at st (kernel_process st)) = [] \<and> p_id (process_at st (kernel_process st)) < next_pid st"

lemma snd_bt_insert_subset: "snd ` set (bt_insert k v m) \<subseteq> insert v (snd ` set m)"
  by (induction k v m rule: bt_insert.induct) auto

lemma distinct_snd_bt_insert:
  "distinct (map snd m) \<Longrightarrow> v \<notin> snd ` set m \<Longrightarrow> distinct (map snd (bt_insert k v m))"
proof (induction k v m rule: bt_insert.induct)
  case (2 k v k' v' m)
  then show ?case using snd_bt_insert_subset [of k v m] by auto
qed simp

lemma get_init_thread_frame:
  assumes "get_init_thread kstack st = (t, st')"
  shows "t = next_ref st" "next_ref st' = t + 1" "th_process (thread_at st' u) = (if u = t then kernel_process st else th_process (thread_at st u))"
    "p_threads (process_at st' q) = p_threads (process_at st q) @ (if q = kernel_process st then [t] else [])"
    "p_id (process_at st' q) = p_id (process_at st q)" "held st' = held st" "processes st' = processes st"
    "kernel_process st' = kernel_process st" "next_pid st' = next_pid st"
  using assms by (auto simp: get_init_thread_def thread_new_def alloc_thread_def update_process_def push_thread_def)

lemma init_threads_frame:
  assumes "init_threads cpus st = (m, st')"
  shows "held st' = held st \<and> processes st' = processes st \<and> kernel_process st' = kernel_process st \<and> next_pid st' = next_pid st \<and>
    next_ref st \<le> next_ref st' \<and> bt_sorted m \<and> distinct (map snd m) \<and> snd ` set m \<subseteq> {next_ref st..<next_ref st'} \<and>
    (\<forall>u. th_process (thread_at st' u) = (if u \<in> {next_ref st..<next_ref st'} then kernel_process st else th_process (thread_at st u))) \<and>
    (\<forall>q. p_id (process_at st' q) = p_id (process_at st q) \<and> p_threads (process_at st' q) =
      p_threads (process_at st q) @ (if q = kernel_process st then [next_ref st..<next_ref st'] else []))"
  using assms
proof (induction cpus arbitrary: st m)
  case (Cons c cpus)
  obtain l k where c: "c = (l, k)" by fastforce
  obtain t st1 where 1: "get_init_thread k st = (t, st1)" by fastforce
  obtain m1 where 2: "init_threads cpus st1 = (m1, st')" "m = bt_insert l t m1"
    using Cons.prems 1 c by (auto split: prod.splits)
  note f = get_init_thread_frame [OF 1]
  note IH = Cons.IH [OF 2(1)]
  have "t \<notin> snd ` set m1" using IH f(1,2) by auto
  then have "bt_sorted m \<and> distinct (map snd m)" using IH 2(2) distinct_snd_bt_insert [of m1 t l] by simp
  moreover have "insert t (snd ` set m1) \<subseteq> {next_ref st..<next_ref st'}"
    using IH f(1,2) by auto
  then have "snd ` set m \<subseteq> {next_ref st..<next_ref st'}"
    using snd_bt_insert_subset [of l t m1] unfolding 2(2) by (rule subset_trans [rotated])
  moreover have "[next_ref st..<next_ref st'] = t # [next_ref st1..<next_ref st']"
    using IH f(1,2) by (simp add: upt_conv_Cons)
  moreover have "th_process (thread_at st' u) =
      (if u \<in> {next_ref st..<next_ref st'} then kernel_process st else th_process (thread_at st u))" for u
    using IH f by auto
  ultimately show ?case using IH f by simp
qed simp

lemma sched_inv_boot:
  assumes "booted st"
  shows "sched_inv (scheduler_new cpus st)"
proof -
  obtain m st' where m: "init_threads cpus st = (m, st')" by fastforce
  note f = init_threads_frame [OF m] and b = assms [unfolded booted_def]
  have "scheduler_new cpus st = st'\<lparr>current_threads := m, ready_threads := []\<rparr>"
    using m by (simp add: scheduler_new_def)
  moreover have "roots (st'\<lparr>current_threads := m, ready_threads := []\<rparr>) = [kernel_process st, kernel_process st]"
    using f b by (simp add: roots_def)
  ultimately show ?thesis using f b unfolding sched_inv_def running_def by (auto simp: subset_iff)
qed

section \<open>Saving and restoring registers\<close>

text \<open>The stack that the interrupt leaves is the structure \<open>Context\<close> in memory.\<close>

lemma push_context_layout: "push_context r (interrupt_frame r s) = context_words r @ s"
  by (simp add: push_context_def interrupt_frame_def context_words_def)

lemma context_from_address_words [simp]: "context_from_address (context_words r @ s) = r"
  by (simp add: context_from_address_def context_words_def)

lemma load_context:
  "obind (pop_context (context_words c) r) (\<lambda>(r, s). obind (iretq s r) (\<lambda>r. Returns (r, st))) = Returns (c, st)"
  by (simp add: context_words_def)

lemma timer_interrupt_eq:
  "timer_interrupt cpu s r st = obind (schedule cpu r st) (\<lambda>(t, st). Returns (th_context (thread_at st t), st))"
  unfolding timer_interrupt_def push_context_layout context_from_address_words load_context by simp

lemma tick_total:
  assumes inv: "sched_inv st" and cur: "bt_get (current_threads st) cpu = Some cur" and rsp: "bt_get (ring0_rsp st) cpu \<noteq> None"
    and some: "ready_threads st \<noteq> [] \<or> thread_alive st cur"
  shows "timer_interrupt cpu s r st \<noteq> Panics"
proof (cases "ready_threads st")
  case Nil
  then show ?thesis using some schedule_stay [OF cur _ Nil rsp] by (simp add: timer_interrupt_eq)
next
  case (Cons n rest)
  have "cur \<in> running st" using map_of_SomeD [OF cur] by (force simp: running_def)
  then have n: "thread_alive st n" "n \<noteq> cur" using sched_invD(6,7) [OF inv] Cons by auto
  then show ?thesis
    using schedule_switch [OF cur _ Cons n rsp] schedule_after_exit [OF cur _ Cons n(1) rsp]
    by (cases "thread_alive st cur") (simp_all add: timer_interrupt_eq)
qed

text \<open>The interrupts on one processor: the registers it had each time, and the registers it went on with.\<close>

fun ticks :: "nat \<Rightarrow> u64 list \<Rightarrow> cpu_context list \<Rightarrow> ('e, 'x, 'w) kernel_state
    \<Rightarrow> (cpu_context list \<times> ('e, 'x, 'w) kernel_state) outcome" where
  "ticks cpu s [] st = Returns ([], st)"
| "ticks cpu s (r # rs) st =
     obind (timer_interrupt cpu s r st) (\<lambda>(r', st). obind (ticks cpu s rs st) (\<lambda>(rs', st). Returns (r' # rs', st)))"

lemma tick_switch:
  assumes inv: "sched_inv st" and cur: "bt_get (current_threads st) cpu = Some cur" "thread_alive st cur"
    and ready: "ready_threads st = n # rest" and rsp: "bt_get (ring0_rsp st) cpu \<noteq> None"
  shows "timer_interrupt cpu s r st = Returns (th_context (thread_at st n), switched cpu r cur n st)"
    and "sched_inv (switched cpu r cur n st)" and "thread_alive (switched cpu r cur n st) n" and "n \<noteq> cur"
proof -
  have n: "thread_alive st n" using sched_invD(7) [OF inv] ready by simp
  have "cur \<in> running st" using map_of_SomeD [OF cur(1)] by (force simp: running_def)
  then show "n \<noteq> cur" using sched_invD(6) [OF inv] ready by auto
  then show "timer_interrupt cpu s r st = Returns (th_context (thread_at st n), switched cpu r cur n st)"
    using schedule_switch [OF cur ready n _ rsp] by (simp add: timer_interrupt_eq switched_def)
  show "sched_inv (switched cpu r cur n st)" by (rule sched_inv_switched [OF inv cur ready])
  show "thread_alive (switched cpu r cur n st) n" using n by (simp add: switched_def)
qed

lemma ticks_round:
  assumes "sched_inv st" "bt_get (current_threads st) cpu = Some cur" "thread_alive st cur"
    "ready_threads st = ns @ ws" "bt_get (ring0_rsp st) cpu \<noteq> None" "length rs = length ns"
  shows "\<exists>st'. ticks cpu s rs st = Returns (map (\<lambda>t. th_context (thread_at st t)) ns, st') \<and> sched_inv st' \<and>
    bt_get (current_threads st') cpu = Some (last (cur # ns)) \<and> ready_threads st' = ws @ butlast (cur # ns)"
  using assms
proof (induction ns arbitrary: cur st rs ws)
  case Nil
  then show ?case by (intro exI [of _ st]) simp
next
  case (Cons n ns)
  obtain r rs' where rs: "rs = r # rs'" "length rs' = length ns" using Cons.prems(6) by (cases rs) auto
  let ?st = "switched cpu r cur n st"
  note step = tick_switch [OF Cons.prems(1-3) Cons.prems(4) [unfolded append_Cons] Cons.prems(5)]
  have ready: "ready_threads ?st = ns @ (ws @ [cur])" using Cons.prems(4) by (simp add: switched_def)
  have "\<exists>st'. ticks cpu s rs' ?st = Returns (map (\<lambda>t. th_context (thread_at ?st t)) ns, st') \<and> sched_inv st' \<and>
    bt_get (current_threads st') cpu = Some (last (n # ns)) \<and> ready_threads st' = (ws @ [cur]) @ butlast (n # ns)"
    by (rule Cons.IH [OF step(2) _ step(3) ready _ rs(2)]) (simp_all add: switched_def)
  moreover have "cur \<notin> set ns"
    using sched_invD(6) [OF Cons.prems(1)] Cons.prems(4) map_of_SomeD [OF Cons.prems(2)] by (force simp: running_def)
  then have "map (\<lambda>t. th_context (thread_at ?st t)) ns = map (\<lambda>t. th_context (thread_at st t)) ns"
    by (auto simp: switched_def)
  ultimately obtain st' where st': "ticks cpu s rs' ?st = Returns (map (\<lambda>t. th_context (thread_at st t)) ns, st')"
    "sched_inv st'" "bt_get (current_threads st') cpu = Some (last (n # ns))"
    "ready_threads st' = (ws @ [cur]) @ butlast (n # ns)" by auto
  then show ?case using step(1) [of s r] rs(1) by (intro exI [of _ st']) simp
qed

section \<open>Properties\<close>


text \<open>C4. A preempted thread goes on where it was: if a processor is interrupted while the thread \<open>t\<close> runs
  and then once for every thread that was ready, each of them runs in turn with the registers saved for it, and
  the last interrupt resumes \<open>t\<close> with exactly the registers of the first.\<close>

theorem preempted_thread_resumes:
  assumes "sched_inv st" "bt_get (current_threads st) cpu = Some t" "thread_alive st t"
    and "bt_get (ring0_rsp st) cpu \<noteq> None" "length rs = length (ready_threads st)"
  shows "\<exists>st'. ticks cpu s (r # rs) st =
      Returns (map (\<lambda>u. th_context (thread_at st u)) (ready_threads st) @ [r], st') \<and>
    bt_get (current_threads st') cpu = Some t \<and> ready_threads st' = ready_threads st"
proof (cases "ready_threads st")
  case Nil
  then show ?thesis using assms schedule_stay [OF assms(2,3) Nil assms(4)] by (simp add: timer_interrupt_eq stayed_def)
next
  case (Cons n rest)
  let ?st = "switched cpu r t n st"
  note step = tick_switch [OF assms(1-3) Cons assms(4)]
  have ready: "ready_threads ?st = (rest @ [t]) @ []" using Cons by (simp add: switched_def)
  have "length rs = length (rest @ [t])" using assms(5) Cons by simp
  from ticks_round [OF step(2) _ step(3) ready _ this, of cpu s] obtain st' where
    "ticks cpu s rs ?st = Returns (map (\<lambda>u. th_context (thread_at ?st u)) (rest @ [t]), st')"
    "bt_get (current_threads st') cpu = Some t" "ready_threads st' = n # rest"
    by (auto simp: switched_def butlast_append)
  moreover have "t \<notin> set rest"
    using sched_invD(6) [OF assms(1)] Cons map_of_SomeD [OF assms(2)] by (force simp: running_def)
  then have "map (\<lambda>u. th_context (thread_at ?st u)) (rest @ [t]) = map (\<lambda>u. th_context (thread_at st u)) rest @ [r]"
    by (auto simp: switched_def)
  ultimately show ?thesis using step(1) [of s r] Cons by (intro exI [of _ st']) simp
qed

text \<open>\<open>exit\<close> ends the process of the running thread: its number counts as exited afterwards, every other
  process stays, and no thread of it is left among the ready ones.\<close>

lemma exit_ends_process:
  assumes "sched_inv st" "bt_get (current_threads st) cpu = Some t" "thread_alive st t"
    and "p = th_process (thread_at st t)" "p \<noteq> kernel_process st" "sys_exit E cpu st = Returns (r, st')"
  shows "is_process_exited (p_id (process_at st p)) st' \<and>
    (\<forall>q. q \<noteq> p \<longrightarrow> (q \<in> set (processes st') \<longleftrightarrow> q \<in> set (processes st))) \<and>
    (\<forall>u\<in>set (ready_threads st'). th_process (thread_at st' u) \<noteq> p)"
  using assms(1,6)
proof (cases rule: sys_exit_cases)
  case (alive t' a)
  then have [simp]: "t' = t" using assms(2) by simp
  have p: "p \<in> set (roots st)" "t \<in> set (p_threads (process_at st p))"
    using alive_process [OF assms(1,3)] assms(4) by simp_all
  then have "p \<in> set (processes st) - {kernel_process st}"
    using assms(5) sched_invD(1) [OF assms(1)] by (auto simp: roots_def)
  then have one: "length (p_threads (process_at st p)) \<le> 1" using assms(1) unfolding sched_inv_def by blast
  have "th_process (thread_at st u) \<noteq> p" if u: "u \<in> set (ready_threads st)" for u
  proof
    assume "th_process (thread_at st u) = p"
    then have "u \<in> set (p_threads (process_at st p))"
      using alive_process(2) [OF assms(1) sched_invD(7) [OF assms(1) u]] by simp
    then have "u = t" using one p(2) by (cases "p_threads (process_at st p)") auto
    then show False using u sched_invD(6) [OF assms(1)] map_of_SomeD [OF assms(2)] by (force simp: running_def)
  qed
  moreover have "p_id (process_at st q) \<noteq> p_id (process_at st p)" if "q \<in> set (processes st)" "q \<noteq> p" for q
    using sched_invD(9) [OF assms(1)] p(1) that by (auto simp: inj_on_def roots_def)
  ultimately show ?thesis using alive(3) assms(4) by (auto simp: is_process_exited_def list_ex_iff)
qed (use assms(2,3) in auto)

text \<open>C40. \<open>exit\<close> returns to the program.  Until the next timer interrupt the processor still runs the thread,
  which is dead: any system call that asks for the current process, and a second \<open>exit\<close> while a thread is
  ready, panics the kernel.\<close>

theorem syscall_after_exit_panics:
  assumes "sched_inv st" "bt_get (current_threads st) cpu = Some t" "thread_alive st t"
    and "th_process (thread_at st t) \<noteq> kernel_process st" "sys_exit E cpu st = Returns (r, st')"
  shows "r = 0 \<and> get_current_process_id cpu st' = Panics \<and> (ready_threads st \<noteq> [] \<longrightarrow> sys_exit E cpu st' = Panics)"
proof -
  have inv': "sched_inv st'" using sched_inv_exit [OF assms(1,5)] .
  have r: "r = 0" using assms(5) by (auto simp: sys_exit_def outcome_simps)
  from assms(1,5) show ?thesis
  proof (cases rule: sys_exit_cases)
    case (alive t' a)
    then have st': "st' = st\<lparr>ready_threads := ready_threads st,
        processes := filter (\<lambda>q. q \<noteq> th_process (thread_at st t)) (processes st), allocator := a\<rparr>"
      using assms(2) by simp
    have "q = th_process (thread_at st t)" if "q \<in> set (roots st)" "t \<in> set (p_threads (process_at st q))" for q
      using sched_invD(8) [OF assms(1) that] by simp
    moreover have "t \<notin> set (p_threads (process_at st (kernel_process st)))"
      using sched_invD(8) [OF assms(1), of "kernel_process st" t] assms(4) by (auto simp: roots_def)
    ultimately have dead: "\<not> thread_alive st' t" and cur: "bt_get (current_threads st') cpu = Some t"
      using assms(2,4) sched_invD(1) [OF assms(1)] by (auto simp: st' thread_alive_iff roots_def)
    then have "get_current_process_id cpu st' = Panics"
      by (simp add: get_current_process_id_def get_current_process_def get_current_thread_def current_thread_def upgrade_thread_def)
    moreover have "sys_exit E cpu st' = Panics" if "ready_threads st \<noteq> []"
      using that dead cur sched_invD(7) [OF inv'] st'
      by (cases "ready_threads st") (auto simp: sys_exit_def current_thread_def scheduler_remove_def upgrade_thread_def)
    ultimately show ?thesis using r by simp
  qed (use assms(2,3) in auto)
qed

text \<open>When no other thread is ready, \<open>schedule\<close> does not save the FS base of the interrupted thread but loads
  the one saved last: whatever the thread has set since is lost.\<close>

lemma lone_thread_loses_fsbase:
  assumes "bt_get (current_threads st) cpu = Some t" "thread_alive st t" "ready_threads st = []"
    and "bt_get (ring0_rsp st) cpu \<noteq> None"
  shows "\<exists>st'. timer_interrupt cpu s r st = Returns (r, st') \<and> fs_base st' cpu = fsbase (thread_at st t)"
  using schedule_stay [OF assms] by (simp add: timer_interrupt_eq stayed_def)

subsection \<open>A concrete machine\<close>

text \<open>The kernel process with one ready thread, and a user process whose thread runs on the only processor.\<close>

definition sample_platform :: "(nat \<times> page_flag set, string) platform" where
  "sample_platform = \<lparr>pl_get_bit = word_get_bit, pl_set_bit = word_set_bit, pl_pte = pair_pte,
     pl_mapper = \<lparr>map_to = (\<lambda>_ _ _ st. (Inl FrameAllocationFailed, st)), unmap_4k = (\<lambda>_ pt. (None, pt)),
       unmap_2m = (\<lambda>_ pt. (None, pt)), unmap_1g = (\<lambda>_ pt. (None, pt)), translate_addr = (\<lambda>_ _. None)\<rparr>,
     pl_hhdm = 0, pl_parse = (\<lambda>_. None), pl_kernel_segments = (8, 16), pl_user_segments = (35, 27), pl_terminal = ''terminal''\<rparr>"

definition sample_thread :: "nat \<Rightarrow> nat \<Rightarrow> thread" where
  "sample_thread i p = \<lparr>th_id = i, kernel_stack = 4096 * i, th_context = context_default\<lparr>rip := of_nat i\<rparr>,
     th_process = p, fpu_context = fp_state_new, fsbase = 0\<rparr>"

definition sample_process :: "nat \<Rightarrow> nat list \<Rightarrow> process" where
  "sample_process i ts = \<lparr>p_id = i, p_name = [], page_table = 32768, p_threads = ts, args_value = 0, args_len = 0\<rparr>"

definition sample_kernel :: "(nat \<times> page_flag set, string, unit) kernel_state" where
  "sample_kernel = \<lparr>thread_at = (\<lambda>t. if t = 2 then sample_thread 0 0 else sample_thread 1 1),
     process_at = (\<lambda>p. if p = 0 then sample_process 0 [2] else sample_process 1 [3]), next_ref = 4, held = [],
     processes = [0, 1], kernel_process = 0, next_pid = 2, next_tid = 2, current_threads = [(0, 3)],
     ready_threads = [2], ring0_rsp = [(0, 0)], fs_base = (\<lambda>_. 7), kernel_page_table = 0, allocator = sample_alloc,
     page_tables = (\<lambda>_ _. (0, {})), memory = (\<lambda>_. 0), fs = \<lparr>tree = two_dirs, managers = []\<rparr>\<rparr>"

definition boot_kernel :: "(nat \<times> page_flag set, string, unit) kernel_state" where
  "boot_kernel = sample_kernel\<lparr>processes := [0], process_at := (\<lambda>_. sample_process 0 []), next_ref := 1\<rparr>"

lemmas sample_defs = sample_kernel_def sample_process_def sample_thread_def boot_kernel_def

lemma sample_kernel_inv: "sched_inv sample_kernel"
  by (simp add: sched_inv_def sample_defs running_def roots_def thread_alive_def bt_sorted_def inj_on_def)

lemma sample_kernel_alive: "thread_alive sample_kernel 3"
  by (simp add: sample_defs roots_def thread_alive_def)

lemma free_unused_table:
  "free_user_page_table pair_pte word_set_bit (\<lambda>_ _. (0, {})) 32768 sample_alloc =
     deallocate_frame word_set_bit 32768 sample_alloc"
proof -
  have "ofold (\<lambda>index a. Returns a) xs a = Returns a" for xs :: "nat list" and a :: frame_allocator
    by (induction xs) auto
  then show ?thesis unfolding free_user_page_table_def level_4 free_pages_recursion.simps by (simp add: Let_def del: upt_rec_numeral)
qed

lemma sample_exit: "\<exists>st. sys_exit sample_platform 0 sample_kernel = Returns (0, st)"
proof -
  obtain a where a: "deallocate_frame word_set_bit 32768 sample_alloc = Returns a"
    by (simp add: deallocate_frame_def sample_alloc_def bitmap_eval uadd_def usize_max_def)
  show ?thesis
    by (simp add: sys_exit_def current_thread_def scheduler_remove_def end_thread_process_def upgrade_thread_def upgrade_process_def
        exit_process_def release_def drop_process_def hold_def remove_at_def sample_platform_def sample_defs roots_def thread_alive_def
        free_unused_table a)
qed


theorem preempted_thread_resumes_witness:
  "\<exists>st'. ticks 0 [] [context_default\<lparr>rax := 5\<rparr>, context_default] sample_kernel =
      Returns ([context_default\<lparr>rip := 0\<rparr>, context_default\<lparr>rax := 5\<rparr>], st')"
proof -
  have "bt_get (current_threads sample_kernel) 0 = Some 3" "bt_get (ring0_rsp sample_kernel) 0 \<noteq> None"
    "length [context_default] = length (ready_threads sample_kernel)" "ready_threads sample_kernel = [2]"
    "th_context (thread_at sample_kernel 2) = context_default\<lparr>rip := 0\<rparr>"
    by (simp_all add: sample_defs)
  with preempted_thread_resumes [OF sample_kernel_inv _ sample_kernel_alive, of 0 "[context_default]" "[]" "context_default\<lparr>rax := 5\<rparr>"]
  show ?thesis by auto
qed

lemma exit_ends_process_example:
  "\<exists>st'. sys_exit sample_platform 0 sample_kernel = Returns (0, st') \<and> is_process_exited 1 st'"
proof -
  obtain st where st: "sys_exit sample_platform 0 sample_kernel = Returns (0, st)" using sample_exit by blast
  have "bt_get (current_threads sample_kernel) 0 = Some 3" "1 = th_process (thread_at sample_kernel 3)"
    "1 \<noteq> kernel_process sample_kernel" "p_id (process_at sample_kernel 1) = 1"
    by (simp_all add: sample_defs)
  with exit_ends_process [OF sample_kernel_inv _ sample_kernel_alive _ _ st] st show ?thesis by metis
qed

theorem syscall_after_exit_panics_witness:
  "\<exists>st'. sys_exit sample_platform 0 sample_kernel = Returns (0, st') \<and>
     get_current_process_id 0 st' = Panics \<and> sys_exit sample_platform 0 st' = Panics"
proof -
  obtain st where st: "sys_exit sample_platform 0 sample_kernel = Returns (0, st)" using sample_exit by blast
  have "bt_get (current_threads sample_kernel) 0 = Some 3" "th_process (thread_at sample_kernel 3) \<noteq> kernel_process sample_kernel"
    "ready_threads sample_kernel \<noteq> []"
    by (simp_all add: sample_defs)
  with syscall_after_exit_panics [OF sample_kernel_inv _ sample_kernel_alive _ st] st show ?thesis by blast
qed

lemma lone_thread_loses_fsbase_example:
  "\<exists>st'. timer_interrupt 0 [] context_default (sample_kernel\<lparr>ready_threads := []\<rparr>) = Returns (context_default, st') \<and>
     fs_base (sample_kernel\<lparr>ready_threads := []\<rparr>) 0 = 7 \<and> fs_base st' 0 = 0"
proof -
  let ?st = "sample_kernel\<lparr>ready_threads := []\<rparr>"
  have "thread_alive ?st 3" using sample_kernel_alive by simp
  moreover have "bt_get (current_threads ?st) 0 = Some 3" "ready_threads ?st = []"
    "bt_get (ring0_rsp ?st) 0 \<noteq> None" "fsbase (thread_at ?st 3) = 0" "fs_base ?st 0 = 7"
    by (simp_all add: sample_defs)
  ultimately show ?thesis using lone_thread_loses_fsbase [of ?st 0 3 "[]" context_default] by auto
qed

end
