(* ===== verification/Nested.thy ===== *)
theory Nested
  imports Frame "HOL-Library.Sublist"
begin

text \<open>Nested paging of the hypervisor crate: \<open>kernel/crates/rvm/src/mm\<close> (frames owned by the
  hypervisor, the generic four-level page table) and \<open>arch/x86_64/vmx/ept.rs\<close> (the entries of the
  extended page table).

  The table memory is a function from the physical address of a table and an index to an entry.  Pages come
  from the host through the \<open>RvmHal\<close> trait; \<open>hal_alloc_page\<close> of \<open>kernel/src/virt/kvm\<close>
  gives them from the kernel's frame allocator.  A value of a \<open>bitflags!\<close> type is the integer it wraps.

  The table refines a partial function from page numbers to targets: \<open>lookup\<close> is that function, the
  invariant \<open>npt_inv\<close> says that the tables form a tree, and every operation is shown to change exactly
  the page it names.\<close>

section \<open>Bit ranges\<close>

text \<open>\<open>get_bits\<close> and \<open>set_bits\<close> of the \<open>bit_field\<close> crate, as its documentation describes
  them: the bits of a half-open range, moved to the low end, and the replacement of a range.\<close>

locale bit_ranges =
  fixes get_bits :: "'w::len word \<Rightarrow> nat \<Rightarrow> nat \<Rightarrow> 'w word" and set_bits :: "'w word \<Rightarrow> nat \<Rightarrow> nat \<Rightarrow> 'w word \<Rightarrow> 'w word"
  assumes bit_get_range: "lo < hi \<Longrightarrow> hi \<le> LENGTH('w) \<Longrightarrow> bit (get_bits w lo hi) j \<longleftrightarrow> j < hi - lo \<and> bit w (lo + j)"
    and bit_set_range: "lo < hi \<Longrightarrow> hi \<le> LENGTH('w) \<Longrightarrow> j < LENGTH('w) \<Longrightarrow>
      bit (set_bits w lo hi v) j \<longleftrightarrow> (if lo \<le> j \<and> j < hi then bit v (j - lo) else bit w j)"

definition word_get_bits :: "'w::len word \<Rightarrow> nat \<Rightarrow> nat \<Rightarrow> 'w word" where
  "word_get_bits w lo hi = take_bit (hi - lo) (drop_bit lo w)"

definition word_set_bits :: "'w::len word \<Rightarrow> nat \<Rightarrow> nat \<Rightarrow> 'w word \<Rightarrow> 'w word" where
  "word_set_bits w lo hi v =
     (w AND NOT (push_bit lo (mask (hi - lo)))) OR push_bit lo (take_bit (hi - lo) v)"

interpretation word_ranges: bit_ranges word_get_bits word_set_bits
proof
  fix lo hi :: nat and w v :: "'w::len word" and j :: nat
  assume r: "lo < hi" "hi \<le> LENGTH('w)"
  show "bit (word_get_bits w lo hi) j \<longleftrightarrow> j < hi - lo \<and> bit w (lo + j)"
    using r by (auto simp: word_get_bits_def bit_take_bit_iff bit_drop_bit_eq)
  assume "j < LENGTH('w)"
  with r show "bit (word_set_bits w lo hi v) j \<longleftrightarrow> (if lo \<le> j \<and> j < hi then bit v (j - lo) else bit w j)"
    by (auto simp: word_set_bits_def bit_or_iff bit_and_iff bit_not_iff bit_push_bit_iff bit_mask_iff bit_take_bit_iff)
qed

text \<open>The accessors of 64-bit integers.\<close>

type_synonym get_bits_fn = "u64 \<Rightarrow> nat \<Rightarrow> nat \<Rightarrow> u64"
type_synonym set_bits_fn = "u64 \<Rightarrow> nat \<Rightarrow> nat \<Rightarrow> u64 \<Rightarrow> u64"

locale bit_range = bit_ranges get_bits set_bits for get_bits :: get_bits_fn and set_bits :: set_bits_fn
begin

lemma bit_get_bits: "lo < hi \<Longrightarrow> hi \<le> 64 \<Longrightarrow> bit (get_bits w lo hi) j \<longleftrightarrow> j < hi - lo \<and> bit w (lo + j)"
  using bit_get_range [of lo hi w j] by simp

lemma bit_set_bits: "lo < hi \<Longrightarrow> hi \<le> 64 \<Longrightarrow> j < 64 \<Longrightarrow>
    bit (set_bits w lo hi v) j \<longleftrightarrow> (if lo \<le> j \<and> j < hi then bit v (j - lo) else bit w j)"
  using bit_set_range [of lo hi j w v] by simp

end

interpretation word_range: bit_range word_get_bits word_set_bits
  by unfold_locales

section \<open>Errors and results\<close>

datatype rvm_error = AlreadyExists | BadState | InvalidParam | OutOfMemory | ResourceBusy | Unsupported

type_synonym ('s, 'a) rvm_result = "((rvm_error + 'a) \<times> 's) outcome"

definition rbind :: "('s, 'a) rvm_result \<Rightarrow> ('a \<Rightarrow> 's \<Rightarrow> ('s, 'b) rvm_result) \<Rightarrow> ('s, 'b) rvm_result" where
  "rbind m f = obind m (\<lambda>(r, s). case r of Inl e \<Rightarrow> Returns (Inl e, s) | Inr x \<Rightarrow> f x s)"

lemma rbind_simps [simp]:
  "rbind (Returns (Inl e, s)) f = Returns (Inl e, s)" "rbind (Returns (Inr x, s)) f = f x s" "rbind Panics f = Panics"
  by (simp_all add: rbind_def)

section \<open>Memory flags and the generic entry\<close>

type_synonym mem_flags = u64

definition MEM_READ :: mem_flags where "MEM_READ = push_bit 0 1"
definition MEM_WRITE :: mem_flags where "MEM_WRITE = push_bit 1 1"
definition MEM_EXECUTE :: mem_flags where "MEM_EXECUTE = push_bit 2 1"
definition MEM_DEVICE :: mem_flags where "MEM_DEVICE = push_bit 3 1"

definition flags_contain :: "u64 \<Rightarrow> u64 \<Rightarrow> bool" where
  "flags_contain f g \<longleftrightarrow> f AND g = g"

text \<open>\<open>zero_pte\<close> is the entry whose bytes are all zero, the contents of a fresh table.\<close>

record 'p generic_pte =
  new_page :: "nat \<Rightarrow> mem_flags \<Rightarrow> bool \<Rightarrow> 'p"
  new_table :: "nat \<Rightarrow> 'p"
  pte_paddr :: "'p \<Rightarrow> nat"
  pte_flags :: "'p \<Rightarrow> mem_flags"
  pte_unused :: "'p \<Rightarrow> bool"
  pte_present :: "'p \<Rightarrow> bool"
  pte_huge :: "'p \<Rightarrow> bool"
  pte_clear :: "'p \<Rightarrow> 'p"
  zero_pte :: 'p

section \<open>The four-level page table\<close>

definition ENTRY_COUNT :: nat where "ENTRY_COUNT = 512"

definition p4_index :: "nat \<Rightarrow> nat" where "p4_index vaddr = drop_bit (12 + 27) vaddr AND (ENTRY_COUNT - 1)"
definition p3_index :: "nat \<Rightarrow> nat" where "p3_index vaddr = drop_bit (12 + 18) vaddr AND (ENTRY_COUNT - 1)"
definition p2_index :: "nat \<Rightarrow> nat" where "p2_index vaddr = drop_bit (12 + 9) vaddr AND (ENTRY_COUNT - 1)"
definition p1_index :: "nat \<Rightarrow> nat" where "p1_index vaddr = drop_bit 12 vaddr AND (ENTRY_COUNT - 1)"

definition align_down :: "nat \<Rightarrow> nat" where "align_down a = a - a mod 4096"
definition page_offset :: "nat \<Rightarrow> nat" where "page_offset a = a AND (4096 - 1)"

record ('s, 'p) npt =
  root_paddr :: nat
  intrm_tables :: "nat list"
  hal :: 's
  table_mem :: "nat \<Rightarrow> nat \<Rightarrow> 'p"

definition phys_frame_alloc :: "('s \<Rightarrow> (nat option \<times> 's) outcome) \<Rightarrow> 's \<Rightarrow> ('s, nat) rvm_result" where
  "phys_frame_alloc alloc s =
     obind (alloc s) (\<lambda>(r, s). case r of
       None \<Rightarrow> Returns (Inl OutOfMemory, s)
     | Some start_paddr \<Rightarrow> obind (rust_assert (start_paddr \<noteq> 0)) (\<lambda>_. Returns (Inr start_paddr, s)))"

definition alloc_zero :: "'p generic_pte \<Rightarrow> ('s \<Rightarrow> (nat option \<times> 's) outcome) \<Rightarrow> ('s, 'p) npt \<Rightarrow> (('s, 'p) npt, nat) rvm_result" where
  "alloc_zero P alloc st =
     obind (phys_frame_alloc alloc (hal st)) (\<lambda>(r, s). case r of
       Inl e \<Rightarrow> Returns (Inl e, st\<lparr>hal := s\<rparr>)
     | Inr f \<Rightarrow> Returns (Inr f, st\<lparr>hal := s, table_mem := (table_mem st)(f := (\<lambda>_. zero_pte P))\<rparr>))"

definition drop_frame :: "(nat \<Rightarrow> 's \<Rightarrow> 's outcome) \<Rightarrow> nat \<Rightarrow> 's \<Rightarrow> 's outcome" where
  "drop_frame dealloc start_paddr s = (if start_paddr > 0 then dealloc start_paddr s else Returns s)"

definition npt_new :: "'p generic_pte \<Rightarrow> ('s \<Rightarrow> (nat option \<times> 's) outcome) \<Rightarrow> ('s, 'p) npt \<Rightarrow> (('s, 'p) npt, unit) rvm_result" where
  "npt_new P alloc st =
     rbind (alloc_zero P alloc st) (\<lambda>root_frame st.
     Returns (Inr (), st\<lparr>root_paddr := root_frame, intrm_tables := [root_frame]\<rparr>))"

definition next_table_mut :: "'p generic_pte \<Rightarrow> 'p \<Rightarrow> rvm_error + nat" where
  "next_table_mut P entry =
     (if \<not> pte_present P entry then Inl BadState
      else if pte_huge P entry then Inl BadState
      else Inr (pte_paddr P entry))"

definition alloc_intrm_table :: "'p generic_pte \<Rightarrow> ('s \<Rightarrow> (nat option \<times> 's) outcome) \<Rightarrow> ('s, 'p) npt \<Rightarrow> (('s, 'p) npt, nat) rvm_result" where
  "alloc_intrm_table P alloc st =
     rbind (alloc_zero P alloc st) (\<lambda>paddr st.
     Returns (Inr paddr, st\<lparr>intrm_tables := intrm_tables st @ [paddr]\<rparr>))"

definition write_entry :: "nat \<Rightarrow> nat \<Rightarrow> 'p \<Rightarrow> ('s, 'p) npt \<Rightarrow> ('s, 'p) npt" where
  "write_entry t i e st = st\<lparr>table_mem := (table_mem st)(t := (table_mem st t)(i := e))\<rparr>"

definition next_table_mut_or_create :: "'p generic_pte \<Rightarrow> ('s \<Rightarrow> (nat option \<times> 's) outcome) \<Rightarrow> nat \<Rightarrow> nat
    \<Rightarrow> ('s, 'p) npt \<Rightarrow> (('s, 'p) npt, nat) rvm_result" where
  "next_table_mut_or_create P alloc t i st =
     (if pte_unused P (table_mem st t i) then
        rbind (alloc_intrm_table P alloc st) (\<lambda>paddr st.
        Returns (Inr paddr, write_entry t i (new_table P paddr) st))
      else Returns (next_table_mut P (table_mem st t i), st))"

text \<open>A reference to an entry is the address of its table and its index.\<close>

definition get_entry_mut :: "'p generic_pte \<Rightarrow> nat \<Rightarrow> ('s, 'p) npt \<Rightarrow> rvm_error + nat \<times> nat" where
  "get_entry_mut P vaddr st =
     (case next_table_mut P (table_mem st (root_paddr st) (p4_index vaddr)) of Inl e \<Rightarrow> Inl e | Inr p3 \<Rightarrow>
     (case next_table_mut P (table_mem st p3 (p3_index vaddr)) of Inl e \<Rightarrow> Inl e | Inr p2 \<Rightarrow>
     (case next_table_mut P (table_mem st p2 (p2_index vaddr)) of Inl e \<Rightarrow> Inl e | Inr p1 \<Rightarrow>
      Inr (p1, p1_index vaddr))))"

definition get_entry_mut_or_create :: "'p generic_pte \<Rightarrow> ('s \<Rightarrow> (nat option \<times> 's) outcome) \<Rightarrow> nat
    \<Rightarrow> ('s, 'p) npt \<Rightarrow> (('s, 'p) npt, nat \<times> nat) rvm_result" where
  "get_entry_mut_or_create P alloc vaddr st =
     rbind (next_table_mut_or_create P alloc (root_paddr st) (p4_index vaddr) st) (\<lambda>p3 st.
     rbind (next_table_mut_or_create P alloc p3 (p3_index vaddr) st) (\<lambda>p2 st.
     rbind (next_table_mut_or_create P alloc p2 (p2_index vaddr) st) (\<lambda>p1 st.
     Returns (Inr (p1, p1_index vaddr), st))))"

definition npt_map :: "'p generic_pte \<Rightarrow> ('s \<Rightarrow> (nat option \<times> 's) outcome) \<Rightarrow> nat \<Rightarrow> nat \<Rightarrow> mem_flags
    \<Rightarrow> ('s, 'p) npt \<Rightarrow> (('s, 'p) npt, unit) rvm_result" where
  "npt_map P alloc vaddr paddr fl st =
     rbind (get_entry_mut_or_create P alloc vaddr st) (\<lambda>(t, i) st.
     if \<not> pte_unused P (table_mem st t i) then Returns (Inl InvalidParam, st)
     else Returns (Inr (), write_entry t i (new_page P (align_down paddr) fl False) st))"

definition npt_unmap :: "'p generic_pte \<Rightarrow> nat \<Rightarrow> ('s, 'p) npt \<Rightarrow> (rvm_error + nat) \<times> ('s, 'p) npt" where
  "npt_unmap P vaddr st = (case get_entry_mut P vaddr st of
     Inl e \<Rightarrow> (Inl e, st)
   | Inr (t, i) \<Rightarrow>
       if pte_unused P (table_mem st t i) then (Inl InvalidParam, st)
       else (Inr (pte_paddr P (table_mem st t i)), write_entry t i (pte_clear P (table_mem st t i)) st))"

definition npt_query :: "'p generic_pte \<Rightarrow> nat \<Rightarrow> ('s, 'p) npt \<Rightarrow> (rvm_error + nat \<times> mem_flags) outcome" where
  "npt_query P vaddr st = (case get_entry_mut P vaddr st of
     Inl e \<Rightarrow> Returns (Inl e)
   | Inr (t, i) \<Rightarrow>
       if pte_unused P (table_mem st t i) then Returns (Inl InvalidParam)
       else obind (uadd (pte_paddr P (table_mem st t i)) (page_offset vaddr)) (\<lambda>a.
         Returns (Inr (a, pte_flags P (table_mem st t i)))))"

definition npt_update :: "'p generic_pte \<Rightarrow> nat \<Rightarrow> nat option \<Rightarrow> mem_flags option \<Rightarrow> ('s, 'p) npt
    \<Rightarrow> (rvm_error + unit) \<times> ('s, 'p) npt" where
  "npt_update P vaddr paddr fl st = (case get_entry_mut P vaddr st of
     Inl e \<Rightarrow> (Inl e, st)
   | Inr (t, i) \<Rightarrow>
       let entry = table_mem st t i;
           paddr = align_down (case paddr of None \<Rightarrow> pte_paddr P entry | Some p \<Rightarrow> p);
           fl = (case fl of None \<Rightarrow> pte_flags P entry | Some f \<Rightarrow> f) in
       (Inr (), write_entry t i (new_page P paddr fl (pte_huge P entry)) st))"

section \<open>Entries of the extended page table\<close>

datatype ept_mem_type = Uncached | WriteCombining | WriteThrough | WriteProtected | WriteBack

fun mem_type_code :: "ept_mem_type \<Rightarrow> u64" where
  "mem_type_code Uncached = 0"
| "mem_type_code WriteCombining = 1"
| "mem_type_code WriteThrough = 4"
| "mem_type_code WriteProtected = 5"
| "mem_type_code WriteBack = 6"

definition mem_type_try_from :: "u8 \<Rightarrow> u8 + ept_mem_type" where
  "mem_type_try_from v =
     (if v = 0 then Inr Uncached else if v = 1 then Inr WriteCombining else if v = 4 then Inr WriteThrough
      else if v = 5 then Inr WriteProtected else if v = 6 then Inr WriteBack else Inl v)"

definition EPT_READ :: u64 where "EPT_READ = push_bit 0 1"
definition EPT_WRITE :: u64 where "EPT_WRITE = push_bit 1 1"
definition EPT_EXECUTE :: u64 where "EPT_EXECUTE = push_bit 2 1"
definition EPT_HUGE_PAGE :: u64 where "EPT_HUGE_PAGE = push_bit 7 1"

text \<open>All flags of \<open>EPTFlags\<close> together are the bits 0 to 10.\<close>

definition ept_truncate :: "u64 \<Rightarrow> u64" where
  "ept_truncate b = b AND mask 11"

definition set_mem_type :: "set_bits_fn \<Rightarrow> ept_mem_type \<Rightarrow> u64 \<Rightarrow> u64" where
  "set_mem_type sb t b = ept_truncate (sb b 3 6 (mem_type_code t))"

definition mem_type :: "get_bits_fn \<Rightarrow> u64 \<Rightarrow> u8 + ept_mem_type" where
  "mem_type gb b = mem_type_try_from (ucast (gb b 3 6))"

definition ept_flags_from :: "set_bits_fn \<Rightarrow> mem_flags \<Rightarrow> u64" where
  "ept_flags_from sb f =
     (if f = 0 then 0
      else
        let ret = 0;
            ret = (if flags_contain f MEM_READ then ret OR EPT_READ else ret);
            ret = (if flags_contain f MEM_WRITE then ret OR EPT_WRITE else ret);
            ret = (if flags_contain f MEM_EXECUTE then ret OR EPT_EXECUTE else ret) in
        if \<not> flags_contain f MEM_DEVICE then set_mem_type sb WriteBack ret else ret)"

definition mem_flags_from :: "get_bits_fn \<Rightarrow> u64 \<Rightarrow> mem_flags" where
  "mem_flags_from gb f =
     (let ret = 0;
          ret = (if flags_contain f EPT_READ then ret OR MEM_READ else ret);
          ret = (if flags_contain f EPT_WRITE then ret OR MEM_WRITE else ret);
          ret = (if flags_contain f EPT_EXECUTE then ret OR MEM_EXECUTE else ret) in
      if mem_type gb f = Inr Uncached then ret OR MEM_DEVICE else ret)"

definition PHYS_ADDR_MASK :: u64 where "PHYS_ADDR_MASK = 0x000ffffffffff000"

definition ept_new_page :: "set_bits_fn \<Rightarrow> nat \<Rightarrow> mem_flags \<Rightarrow> bool \<Rightarrow> u64" where
  "ept_new_page sb paddr fl is_huge =
     (let fl = ept_flags_from sb fl; fl = (if is_huge then fl OR EPT_HUGE_PAGE else fl) in
      fl OR (of_nat paddr AND PHYS_ADDR_MASK))"

definition ept_new_table :: "nat \<Rightarrow> u64" where
  "ept_new_table paddr = (EPT_READ OR EPT_WRITE OR EPT_EXECUTE) OR (of_nat paddr AND PHYS_ADDR_MASK)"

definition ept_paddr :: "u64 \<Rightarrow> nat" where
  "ept_paddr e = unat (e AND PHYS_ADDR_MASK)"

definition ept_pte :: "get_bits_fn \<Rightarrow> set_bits_fn \<Rightarrow> u64 generic_pte" where
  "ept_pte gb sb = \<lparr>new_page = ept_new_page sb, new_table = ept_new_table, pte_paddr = ept_paddr,
     pte_flags = (\<lambda>e. mem_flags_from gb (ept_truncate e)), pte_unused = (\<lambda>e. e = 0), pte_present = (\<lambda>e. e AND 0x7 \<noteq> 0),
     pte_huge = (\<lambda>e. flags_contain (ept_truncate e) EPT_HUGE_PAGE), pte_clear = (\<lambda>_. 0), zero_pte = 0\<rparr>"

section \<open>Pages of the kernel\<close>

definition hal_alloc_page :: "get_bit_fn \<Rightarrow> set_bit_fn \<Rightarrow> frame_allocator \<Rightarrow> (nat option \<times> frame_allocator) outcome" where
  "hal_alloc_page gb sb a =
     obind (allocate_frame gb sb a) (\<lambda>(frame, a). case frame of
       Some f \<Rightarrow> Returns (Some f, a)
     | None \<Rightarrow> Returns (None, a))"

definition hal_dealloc_page :: "set_bit_fn \<Rightarrow> nat \<Rightarrow> frame_allocator \<Rightarrow> frame_allocator outcome" where
  "hal_dealloc_page sb paddr a = (if paddr < 2 ^ 52 then deallocate_frame sb (align_down paddr) a else Panics)"

section \<open>The tree of tables\<close>

definition next_tab :: "'p generic_pte \<Rightarrow> (nat \<Rightarrow> nat \<Rightarrow> 'p) \<Rightarrow> nat \<Rightarrow> nat \<Rightarrow> nat option" where
  "next_tab P mem t i = (case next_table_mut P (mem t i) of Inl _ \<Rightarrow> None | Inr t' \<Rightarrow> Some t')"

fun tab :: "'p generic_pte \<Rightarrow> (nat \<Rightarrow> nat \<Rightarrow> 'p) \<Rightarrow> nat \<Rightarrow> nat list \<Rightarrow> nat option" where
  "tab P mem t [] = Some t"
| "tab P mem t (i # is) = Option.bind (next_tab P mem t i) (\<lambda>t'. tab P mem t' is)"

definition path :: "nat list \<Rightarrow> bool" where
  "path p \<longleftrightarrow> length p \<le> 3 \<and> (\<forall>i\<in>set p. i < 512)"

text \<open>What the table says about the page with the given indices.\<close>

definition lookup :: "'p generic_pte \<Rightarrow> ('s, 'p) npt \<Rightarrow> nat list \<Rightarrow> nat \<Rightarrow> (nat \<times> mem_flags) option" where
  "lookup P st p i = (case tab P (table_mem st) (root_paddr st) p of
     None \<Rightarrow> None
   | Some t \<Rightarrow> if pte_unused P (table_mem st t i) then None
       else Some (pte_paddr P (table_mem st t i), pte_flags P (table_mem st t i)))"

definition page_path :: "nat \<Rightarrow> nat list" where
  "page_path v = [p4_index v, p3_index v, p2_index v]"

text \<open>The target of the page that holds an address, and whether two addresses lie in the same page of the
  48-bit guest-physical space.\<close>

definition page_map :: "'p generic_pte \<Rightarrow> ('s, 'p) npt \<Rightarrow> nat \<Rightarrow> (nat \<times> mem_flags) option" where
  "page_map P st v = lookup P st (page_path v) (p1_index v)"

definition same_page :: "nat \<Rightarrow> nat \<Rightarrow> bool" where
  "same_page v w \<longleftrightarrow> v div 4096 mod 2 ^ 36 = w div 4096 mod 2 ^ 36"

definition entry_target :: "'p generic_pte \<Rightarrow> 'p \<Rightarrow> (nat \<times> mem_flags) option" where
  "entry_target P e = (if pte_unused P e then None else Some (pte_paddr P e, pte_flags P e))"

text \<open>The tables reached by different paths are different, belong to the table, and hold either free entries
  or references to further tables.\<close>

definition tree_inv :: "'p generic_pte \<Rightarrow> nat \<Rightarrow> nat list \<Rightarrow> (nat \<Rightarrow> nat \<Rightarrow> 'p) \<Rightarrow> bool" where
  "tree_inv P root tabs mem \<longleftrightarrow>
     (\<forall>p a. path p \<longrightarrow> tab P mem root p = Some a \<longrightarrow> a \<in> set tabs \<and>
        (\<forall>q. path q \<longrightarrow> tab P mem root q = Some a \<longrightarrow> q = p) \<and>
        (\<forall>i. length p < 3 \<longrightarrow> i < 512 \<longrightarrow> pte_unused P (mem a i) \<or> next_tab P mem a i \<noteq> None))"

definition npt_inv :: "'p generic_pte \<Rightarrow> ('s \<Rightarrow> nat set) \<Rightarrow> ('s \<Rightarrow> bool) \<Rightarrow> ('s, 'p) npt \<Rightarrow> bool" where
  "npt_inv P fr ok st \<longleftrightarrow> tree_inv P (root_paddr st) (intrm_tables st) (table_mem st) \<and> ok (hal st) \<and>
     (\<forall>f\<in>fr (hal st). f * 4096 \<notin> set (intrm_tables st))"

lemma tree_invD:
  assumes "tree_inv P root tabs mem" "path p" "tab P mem root p = Some a"
  shows "a \<in> set tabs" "\<And>q. path q \<Longrightarrow> tab P mem root q = Some a \<Longrightarrow> q = p"
    "\<And>i. length p < 3 \<Longrightarrow> i < 512 \<Longrightarrow> pte_unused P (mem a i) \<or> next_tab P mem a i \<noteq> None"
  using assms unfolding tree_inv_def by blast+

lemma tab_snoc: "tab P mem t (p @ [i]) = Option.bind (tab P mem t p) (\<lambda>a. next_tab P mem a i)"
  by (induction p arbitrary: t) (auto split: Option.bind_splits)

lemma tab_append: "tab P mem t (p @ q) = Option.bind (tab P mem t p) (\<lambda>a. tab P mem a q)"
  by (induction p arbitrary: t) (auto split: Option.bind_splits)

lemma path_snoc: "path (p @ [i]) \<longleftrightarrow> path p \<and> length p < 3 \<and> i < 512"
  by (auto simp: path_def)

lemma index_bounds [simp]: "p4_index v < 512" "p3_index v < 512" "p2_index v < 512" "p1_index v < 512"
proof -
  have "x AND (ENTRY_COUNT - 1) < 512" for x :: nat
  proof -
    have "x AND (ENTRY_COUNT - 1) = take_bit 9 x"
      by (simp add: take_bit_eq_mask ENTRY_COUNT_def mask_eq_exp_minus_1)
    then show ?thesis using take_bit_nat_less_exp [of 9 x] by simp
  qed
  then show "p4_index v < 512" "p3_index v < 512" "p2_index v < 512" "p1_index v < 512"
    by (simp_all add: p4_index_def p3_index_def p2_index_def p1_index_def)
qed

lemma index_div:
  "p1_index v = v div 4096 mod 512" "p2_index v = v div 4096 div 512 mod 512"
  "p3_index v = v div 4096 div 512 div 512 mod 512" "p4_index v = v div 4096 div 512 div 512 div 512 mod 512"
proof -
  have masked: "x AND (ENTRY_COUNT - 1) = x mod 512" for x :: nat
  proof -
    have "x AND (ENTRY_COUNT - 1) = take_bit 9 x"
      by (simp add: take_bit_eq_mask ENTRY_COUNT_def mask_eq_exp_minus_1)
    then show ?thesis by (simp add: take_bit_eq_mod)
  qed
  show "p1_index v = v div 4096 mod 512" "p2_index v = v div 4096 div 512 mod 512"
    "p3_index v = v div 4096 div 512 div 512 mod 512" "p4_index v = v div 4096 div 512 div 512 div 512 mod 512"
    unfolding p1_index_def p2_index_def p3_index_def p4_index_def masked
    by (simp_all add: drop_bit_eq_div div_mult2_eq [symmetric])
qed

lemma page_indices_eq: "page_path v = page_path w \<and> p1_index v = p1_index w \<longleftrightarrow> same_page v w"
proof -
  have split: "n mod 2 ^ 36 = n mod 512 + 512 * (n div 512 mod 512 + 512 * (n div 512 div 512 mod 512 +
      512 * (n div 512 div 512 div 512 mod 512)))" for n :: nat
  proof -
    have "n mod (512 * 134217728) = 512 * (n div 512 mod 134217728) + n mod 512" by (rule mod_mult2_eq)
    moreover have "n div 512 mod (512 * 262144) = 512 * (n div 512 div 512 mod 262144) + n div 512 mod 512" by (rule mod_mult2_eq)
    moreover have "n div 512 div 512 mod (512 * 512) = 512 * (n div 512 div 512 div 512 mod 512) + n div 512 div 512 mod 512"
      by (rule mod_mult2_eq)
    ultimately show ?thesis by simp
  qed
  let ?n = "v div 4096" and ?m = "w div 4096"
  have digits: "a + 512 * x = b + 512 * y \<longleftrightarrow> a = b \<and> x = y" if "a < 512" "b < 512" for a b x y :: nat
  proof
    assume eq: "a + 512 * x = b + 512 * y"
    from arg_cong [OF this, of "\<lambda>n. n mod 512"] have "a = b" using that by simp
    with eq show "a = b \<and> x = y" by simp
  qed simp
  have bound: "k mod 512 < 512" for k :: nat by simp
  show ?thesis
    unfolding same_page_def page_path_def index_div split [of ?n] split [of ?m] digits [OF bound bound] list.inject by blast
qed

lemma path_page [simp]: "path (page_path v)" "length (page_path v) = 3"
  by (simp_all add: path_def page_path_def)

lemma get_entry_mut_tab:
  "get_entry_mut P v st = (case tab P (table_mem st) (root_paddr st) (page_path v) of
     None \<Rightarrow> Inl BadState | Some t \<Rightarrow> Inr (t, p1_index v))"
  by (auto simp: get_entry_mut_def page_path_def next_tab_def next_table_mut_def split: if_splits)

text \<open>What the table relies on: entries of its own making are recognised, and the host hands out distinct
  frames above 0.\<close>

locale nested_paging = frame_source alloc free left inv
  for alloc :: "'s \<Rightarrow> (nat option \<times> 's) outcome" and free left inv +
  fixes P :: "'p generic_pte"
  assumes zero_unused: "pte_unused P (zero_pte P)" and zero_absent: "\<not> pte_present P (zero_pte P)"
    and clear_unused: "pte_unused P (pte_clear P e)"
    and unused_absent: "pte_unused P e \<Longrightarrow> \<not> pte_present P e"
    and table_entry: "inv s \<Longrightarrow> f \<in> free s \<Longrightarrow> next_table_mut P (new_table P (f * 4096)) = Inr (f * 4096)"
    and frame_above_0: "inv s \<Longrightarrow> f \<in> free s \<Longrightarrow> 0 < f"
begin

lemma next_tab_unused: "pte_unused P (mem a i) \<Longrightarrow> next_tab P mem a i = None"
  using unused_absent by (simp add: next_tab_def next_table_mut_def)

lemma tab_create:
  assumes tree: "tree_inv P root tabs mem" and p: "path p" "length p < 3" "tab P mem root p = Some a" and i: "i < 512"
    and new: "n \<notin> set tabs" "next_table_mut P e = Inr n"
    and mem': "mem' = (mem(n := (\<lambda>_. zero_pte P)))(a := (mem a)(i := e))"
  shows "path q \<Longrightarrow> tab P mem' root q =
    (if prefix (p @ [i]) q then (if q = p @ [i] then Some n else None) else tab P mem root q)"
proof (induction q rule: rev_induct)
  case (snoc j q)
  have q: "path q" "length q < 3" "j < 512" using snoc.prems by (simp_all add: path_snoc)
  have a: "a \<noteq> n" using tree_invD(1) [OF tree p(1,3)] new(1) by blast
  have zero: "next_tab P mem' n j = None"
    using a zero_absent by (simp add: mem' next_tab_def next_table_mut_def)
  note IH = snoc.IH [OF q(1)]
  show ?case
  proof (cases "prefix (p @ [i]) q")
    case True
    then have "q @ [j] \<noteq> p @ [i]" using prefix_length_le [OF True] by auto
    then show ?thesis using True IH zero by (auto simp: tab_snoc)
  next
    case False
    then have pre: "prefix (p @ [i]) (q @ [j]) \<longleftrightarrow> q @ [j] = p @ [i]" by auto
    show ?thesis
    proof (cases "tab P mem root q")
      case None
      then show ?thesis using False IH pre p(3) by (auto simp: tab_snoc)
    next
      case (Some b)
      have "b \<noteq> n" using tree_invD(1) [OF tree q(1) Some] new(1) by blast
      moreover have "b = a \<longleftrightarrow> q = p" using tree_invD(2) [OF tree q(1) Some p(1)] p(3) Some by auto
      ultimately have "next_tab P mem' b j = (if q @ [j] = p @ [i] then Some n else next_tab P mem b j)"
        using a new(2) by (auto simp: mem' next_tab_def)
      then show ?thesis using False IH pre Some by (simp add: tab_snoc)
    qed
  qed
qed (use p in auto)

lemma tree_inv_create:
  assumes tree: "tree_inv P root tabs mem" and p: "path p" "length p < 3" "tab P mem root p = Some a" and i: "i < 512"
    and new: "n \<notin> set tabs" "next_table_mut P e = Inr n"
    and mem': "mem' = (mem(n := (\<lambda>_. zero_pte P)))(a := (mem a)(i := e))"
  shows "tree_inv P root (tabs @ [n]) mem'"
  unfolding tree_inv_def
proof (intro allI impI)
  fix q b
  assume q: "path q" "tab P mem' root q = Some b"
  note tab' = tab_create [OF assms]
  have a: "a \<noteq> n" using tree_invD(1) [OF tree p(1,3)] new(1) by blast
  have old: "b' \<in> set tabs" if "path q'" "tab P mem' root q' = Some b'" "q' \<noteq> p @ [i]" for q' b'
    using that tab' [OF that(1)] tree_invD(1) [OF tree that(1)] by (auto split: if_splits)
  have new': "tab P mem' root (p @ [i]) = Some n" using tab' [of "p @ [i]"] p i by (simp add: path_snoc)
  show "b \<in> set (tabs @ [n]) \<and> (\<forall>q'. path q' \<longrightarrow> tab P mem' root q' = Some b \<longrightarrow> q' = q) \<and>
      (\<forall>j. length q < 3 \<longrightarrow> j < 512 \<longrightarrow> pte_unused P (mem' b j) \<or> next_tab P mem' b j \<noteq> None)"
  proof (cases "q = p @ [i]")
    case True
    with q new' have b: "b = n" by simp
    have "q' = q" if "path q'" "tab P mem' root q' = Some n" for q'
      using old [OF that] new(1) True by blast
    then show ?thesis using b a zero_unused by (auto simp: mem')
  next
    case False
    with old q have b: "b \<in> set tabs" "b \<noteq> n" using new(1) by blast+
    from False q have tq: "tab P mem root q = Some b" using tab' [OF q(1)] by (auto split: if_splits)
    have "q' = q" if "path q'" "tab P mem' root q' = Some b" for q'
    proof -
      have "q' \<noteq> p @ [i]" using that(2) new' b(2) by auto
      then have "tab P mem root q' = Some b" using that tab' [OF that(1)] by (auto split: if_splits)
      then show ?thesis using tree_invD(2) [OF tree q(1) tq that(1)] by simp
    qed
    moreover have "pte_unused P (mem' b j) \<or> next_tab P mem' b j \<noteq> None" if "length q < 3" "j < 512" for j
      using tree_invD(3) [OF tree q(1) tq that] b(2) new(2) a by (auto simp: mem' next_tab_def)
    ultimately show ?thesis using b(1) by simp
  qed
qed

lemma next_create_cases:
  assumes inv: "npt_inv P free inv st" and p: "path p" "length p < 3" "tab P (table_mem st) (root_paddr st) p = Some a" "i < 512"
  obtains (found) t where "next_table_mut_or_create P alloc a i st = Returns (Inr t, st)"
      "tab P (table_mem st) (root_paddr st) (p @ [i]) = Some t"
  | (created) t st' where "next_table_mut_or_create P alloc a i st = Returns (Inr t, st')" "npt_inv P free inv st'"
      "root_paddr st' = root_paddr st" "tab P (table_mem st) (root_paddr st) (p @ [i]) = None"
      "\<And>q. path q \<Longrightarrow> tab P (table_mem st') (root_paddr st) q =
        (if prefix (p @ [i]) q then (if q = p @ [i] then Some t else None) else tab P (table_mem st) (root_paddr st) q)"
      "\<And>q b j. path q \<Longrightarrow> length q = 3 \<Longrightarrow> tab P (table_mem st) (root_paddr st) q = Some b \<Longrightarrow> table_mem st' b j = table_mem st b j"
      "\<And>j. pte_unused P (table_mem st' t j)" "left (hal st) = Suc (left (hal st'))"
  | (failed) "next_table_mut_or_create P alloc a i st = Returns (Inl OutOfMemory, st)" "left (hal st) = 0"
proof (cases "pte_unused P (table_mem st a i)")
  case False
  have tree: "tree_inv P (root_paddr st) (intrm_tables st) (table_mem st)" using inv by (simp add: npt_inv_def)
  from tree_invD(3) [OF tree p(1,3,2,4)] False obtain t where "next_tab P (table_mem st) a i = Some t" by auto
  then show thesis
    using found [of t] False p by (auto simp: next_table_mut_or_create_def tab_snoc next_tab_def split: sum.splits)
next
  case True
  have tree: "tree_inv P (root_paddr st) (intrm_tables st) (table_mem st)" and hal: "inv (hal st)"
    and fresh: "\<And>f. f \<in> free (hal st) \<Longrightarrow> f * 4096 \<notin> set (intrm_tables st)"
    using inv by (auto simp: npt_inv_def)
  from hal show thesis
  proof (cases rule: alloc_cases)
    case (some f s')
    let ?n = "f * 4096" and ?e = "new_table P (f * 4096)"
    define st' where "st' = write_entry a i ?e (st\<lparr>hal := s', table_mem := (table_mem st)(?n := (\<lambda>_. zero_pte P)),
      intrm_tables := intrm_tables st @ [?n]\<rparr>)"
    have f: "0 < f" "?n \<notin> set (intrm_tables st)" "next_table_mut P ?e = Inr ?n"
      using frame_above_0 [OF hal some(2)] fresh [OF some(2)] table_entry [OF hal some(2)] by simp_all
    have a: "a \<noteq> ?n" using tree_invD(1) [OF tree p(1,3)] f(2) by blast
    have mem': "table_mem st' = ((table_mem st)(?n := (\<lambda>_. zero_pte P)))(a := (table_mem st a)(i := ?e))"
      using a by (simp add: st'_def write_entry_def)
    have run: "next_table_mut_or_create P alloc a i st = Returns (Inr ?n, st')"
      using some(1) f(1) True by (simp add: next_table_mut_or_create_def alloc_intrm_table_def alloc_zero_def phys_frame_alloc_def
          rust_assert_def st'_def)
    have "tree_inv P (root_paddr st') (intrm_tables st') (table_mem st')"
      using tree_inv_create [OF tree p f(2,3) mem'] by (simp add: st'_def write_entry_def)
    moreover have "\<forall>g\<in>free s'. g * 4096 \<notin> set (intrm_tables st @ [?n])" using some(3) fresh by auto
    ultimately have inv': "npt_inv P free inv st'" using some(4) by (simp add: npt_inv_def st'_def write_entry_def)
    have none: "tab P (table_mem st) (root_paddr st) (p @ [i]) = None"
      using next_tab_unused [of "table_mem st" a i] True p(3) by (simp add: tab_snoc)
    have leaf: "table_mem st' b j = table_mem st b j"
      if "path q" "length q = 3" "tab P (table_mem st) (root_paddr st) q = Some b" for q b j
    proof -
      have "b \<noteq> ?n" using tree_invD(1) [OF tree that(1,3)] f(2) by blast
      moreover have "b \<noteq> a" using tree_invD(2) [OF tree that(1,3) p(1)] p(2,3) that(2) by auto
      ultimately show ?thesis by (simp add: mem')
    qed
    show thesis
      using created [OF run inv' _ none tab_create [OF tree p f(2,3) mem'] leaf] some(5) a zero_unused
      by (simp add: mem' st'_def write_entry_def)
  next
    case none
    then show thesis using True failed
      by (simp add: next_table_mut_or_create_def alloc_intrm_table_def alloc_zero_def phys_frame_alloc_def)
  qed
qed

text \<open>Going down one level, creating a table where there is none, keeps what the table says about every page.\<close>

lemma next_create_spec:
  assumes inv: "npt_inv P free inv st" and p: "path p" "length p < 3" "tab P (table_mem st) (root_paddr st) p = Some a" "i < 512"
  shows "\<exists>r st'. next_table_mut_or_create P alloc a i st = Returns (r, st') \<and> npt_inv P free inv st' \<and>
    root_paddr st' = root_paddr st \<and>
    (\<forall>q j. path q \<longrightarrow> length q = 3 \<longrightarrow> lookup P st' q j = lookup P st q j) \<and>
    (\<forall>q. path q \<longrightarrow> tab P (table_mem st) (root_paddr st) q \<noteq> None \<longrightarrow>
      tab P (table_mem st') (root_paddr st) q = tab P (table_mem st) (root_paddr st) q) \<and>
    (case r of Inl e \<Rightarrow> e = OutOfMemory \<and> left (hal st) = 0
     | Inr t \<Rightarrow> tab P (table_mem st') (root_paddr st') (p @ [i]) = Some t) \<and> left (hal st) \<le> Suc (left (hal st'))"
  using assms
proof (cases rule: next_create_cases)
  case (found t)
  then show ?thesis using inv by (intro exI [of _ "Inr t"] exI [of _ st]) simp
next
  case (created t st')
  have pi: "path (p @ [i])" using p by (simp add: path_snoc)
  have below: "tab P (table_mem st) (root_paddr st) q = None" if "prefix (p @ [i]) q" for q
  proof -
    from that obtain r where q: "q = (p @ [i]) @ r" by (auto simp: prefix_def)
    show ?thesis unfolding q tab_append [of _ _ _ "p @ [i]"] created(4) by simp
  qed
  have "lookup P st' q j = lookup P st q j" if q: "path q" "length q = 3" for q j
  proof (cases "prefix (p @ [i]) q")
    case True
    then show ?thesis using created(3,5,7) q below [OF True] by (auto simp: lookup_def)
  next
    case False
    then show ?thesis
      using created(3,5) q created(6) [OF q] by (auto simp: lookup_def split: option.splits)
  qed
  then show ?thesis
    using created below pi by (intro exI [of _ "Inr t"] exI [of _ st']) auto
next
  case failed
  then show ?thesis using inv by (intro exI [of _ "Inl OutOfMemory"] exI [of _ st]) simp
qed

lemma next_create_step:
  assumes "npt_inv P free inv st" "path p" "length p < 3" "tab P (table_mem st) (root_paddr st) p = Some a" "i < 512" "q = p @ [i]"
  obtains r st' where "next_table_mut_or_create P alloc a i st = Returns (r, st')" "npt_inv P free inv st'"
    "\<forall>q j. path q \<longrightarrow> length q = 3 \<longrightarrow> lookup P st' q j = lookup P st q j"
    "case r of Inl e \<Rightarrow> e = OutOfMemory \<and> left (hal st) = 0 | Inr t \<Rightarrow> tab P (table_mem st') (root_paddr st') q = Some t"
    "left (hal st) \<le> Suc (left (hal st'))"
  using next_create_spec [OF assms(1-5)] that unfolding assms(6) by meson

lemma get_entry_or_create_spec:
  assumes inv: "npt_inv P free inv st"
  shows "\<exists>r st'. get_entry_mut_or_create P alloc v st = Returns (r, st') \<and> npt_inv P free inv st' \<and>
    (\<forall>q j. path q \<longrightarrow> length q = 3 \<longrightarrow> lookup P st' q j = lookup P st q j) \<and>
    (case r of Inl e \<Rightarrow> e = OutOfMemory \<and> left (hal st) < 3
     | Inr (t, i) \<Rightarrow> tab P (table_mem st') (root_paddr st') (page_path v) = Some t \<and> i = p1_index v)"
proof -
  have paths: "path []" "path [p4_index v]" "path [p4_index v, p3_index v]" by (simp_all add: path_def)
  obtain r1 st1 where 1:
    "next_table_mut_or_create P alloc (root_paddr st) (p4_index v) st = Returns (r1, st1)" "npt_inv P free inv st1"
    "\<forall>q j. path q \<longrightarrow> length q = 3 \<longrightarrow> lookup P st1 q j = lookup P st q j"
    "case r1 of Inl e \<Rightarrow> e = OutOfMemory \<and> left (hal st) = 0 | Inr t \<Rightarrow> tab P (table_mem st1) (root_paddr st1) [p4_index v] = Some t"
    "left (hal st) \<le> Suc (left (hal st1))"
    by (rule next_create_step [OF inv paths(1), of "root_paddr st" "p4_index v" "[p4_index v]"]) simp_all
  show ?thesis
  proof (cases r1)
    case (Inl e)
    then show ?thesis using 1 by (intro exI [of _ "Inl e"] exI [of _ st1]) (simp add: get_entry_mut_or_create_def)
  next
    case (Inr p3)
    with 1(4) have p3: "tab P (table_mem st1) (root_paddr st1) [p4_index v] = Some p3" by simp
    obtain r2 st2 where 2:
      "next_table_mut_or_create P alloc p3 (p3_index v) st1 = Returns (r2, st2)" "npt_inv P free inv st2"
      "\<forall>q j. path q \<longrightarrow> length q = 3 \<longrightarrow> lookup P st2 q j = lookup P st1 q j"
      "case r2 of Inl e \<Rightarrow> e = OutOfMemory \<and> left (hal st1) = 0 | Inr t \<Rightarrow> tab P (table_mem st2) (root_paddr st2) [p4_index v, p3_index v] = Some t"
      "left (hal st1) \<le> Suc (left (hal st2))"
      by (rule next_create_step [OF 1(2) paths(2) _ p3 index_bounds(2) [of v], of "[p4_index v, p3_index v]"]) simp_all
    show ?thesis
    proof (cases r2)
      case (Inl e)
      then show ?thesis using 1 2 Inr by (intro exI [of _ "Inl e"] exI [of _ st2]) (simp add: get_entry_mut_or_create_def)
    next
      case p2: (Inr p2)
      with 2(4) have p2t: "tab P (table_mem st2) (root_paddr st2) [p4_index v, p3_index v] = Some p2" by simp
      obtain r3 st3 where 3:
        "next_table_mut_or_create P alloc p2 (p2_index v) st2 = Returns (r3, st3)" "npt_inv P free inv st3"
        "\<forall>q j. path q \<longrightarrow> length q = 3 \<longrightarrow> lookup P st3 q j = lookup P st2 q j"
        "case r3 of Inl e \<Rightarrow> e = OutOfMemory \<and> left (hal st2) = 0 | Inr t \<Rightarrow> tab P (table_mem st3) (root_paddr st3) (page_path v) = Some t"
        "left (hal st2) \<le> Suc (left (hal st3))"
        by (rule next_create_step [OF 2(2) paths(3) _ p2t index_bounds(3) [of v], of "page_path v"]) (simp_all add: page_path_def)
      have run: "get_entry_mut_or_create P alloc v st = rbind (Returns (r3, st3)) (\<lambda>p1 st. Returns (Inr (p1, p1_index v), st))"
        using 1(1) 2(1) 3(1) Inr p2 by (simp add: get_entry_mut_or_create_def)
      show ?thesis
      proof (cases r3)
        case (Inl e)
        then show ?thesis using run 1 2 3 by (intro exI [of _ "Inl e"] exI [of _ st3]) simp
      next
        case (Inr p1)
        then show ?thesis using run 1 2 3 by (intro exI [of _ "Inr (p1, p1_index v)"] exI [of _ st3]) simp
      qed
    qed
  qed
qed

text \<open>Writing an entry of a last-level table.\<close>

lemma write_leaf_spec:
  assumes inv: "npt_inv P free inv st" and p: "path p" "length p = 3" "tab P (table_mem st) (root_paddr st) p = Some t"
  shows "npt_inv P free inv (write_entry t i e st)"
    and "path q \<Longrightarrow> length q = 3 \<Longrightarrow> lookup P (write_entry t i e st) q j =
      (if q = p \<and> j = i then (if pte_unused P e then None else Some (pte_paddr P e, pte_flags P e)) else lookup P st q j)"
proof -
  let ?st = "write_entry t i e st"
  have tree: "tree_inv P (root_paddr st) (intrm_tables st) (table_mem st)" using inv by (simp add: npt_inv_def)
  have fields: "root_paddr ?st = root_paddr st" "hal ?st = hal st" "intrm_tables ?st = intrm_tables st"
    by (simp_all add: write_entry_def)
  have mem: "table_mem ?st a j = (if a = t \<and> j = i then e else table_mem st a j)" for a j
    by (simp add: write_entry_def)
  have upper: "next_tab P (table_mem ?st) a j = next_tab P (table_mem st) a j"
    if "path q" "length q < 3" "tab P (table_mem st) (root_paddr st) q = Some a" for q a j
  proof -
    have "a \<noteq> t" using tree_invD(2) [OF tree that(1,3) p(1)] p(2,3) that(2) by auto
    then show ?thesis by (simp add: next_tab_def mem)
  qed
  have tab: "tab P (table_mem ?st) (root_paddr st) q = tab P (table_mem st) (root_paddr st) q" if "path q" for q
    using that
  proof (induction q rule: rev_induct)
    case (snoc k q)
    then show ?case using upper by (auto simp: tab_snoc path_snoc split: Option.bind_splits)
  qed simp
  have "tree_inv P (root_paddr st) (intrm_tables st) (table_mem ?st)"
    unfolding tree_inv_def
  proof (intro allI impI)
    fix q a
    assume q: "path q" "tab P (table_mem ?st) (root_paddr st) q = Some a"
    with tab have a: "tab P (table_mem st) (root_paddr st) q = Some a" by simp
    have "pte_unused P (table_mem ?st a k) \<or> next_tab P (table_mem ?st) a k \<noteq> None" if "length q < 3" "k < 512" for k
    proof -
      have "a \<noteq> t" using tree_invD(2) [OF tree q(1) a p(1)] p(2,3) that(1) by auto
      then show ?thesis using tree_invD(3) [OF tree q(1) a that] upper [OF q(1) that(1) a] by (simp add: mem)
    qed
    then show "a \<in> set (intrm_tables st) \<and>
       (\<forall>qa. path qa \<longrightarrow> tab P (table_mem ?st) (root_paddr st) qa = Some a \<longrightarrow> qa = q) \<and>
       (\<forall>k. length q < 3 \<longrightarrow> k < 512 \<longrightarrow> pte_unused P (table_mem ?st a k) \<or> next_tab P (table_mem ?st) a k \<noteq> None)"
      using tree_invD(1,2) [OF tree q(1) a] tab by auto
  qed
  then show "npt_inv P free inv ?st" using inv by (simp add: npt_inv_def fields)
  show "lookup P ?st q j =
      (if q = p \<and> j = i then (if pte_unused P e then None else Some (pte_paddr P e, pte_flags P e)) else lookup P st q j)"
    if q: "path q" "length q = 3"
  proof (cases "tab P (table_mem st) (root_paddr st) q")
    case None
    then show ?thesis using tab [OF q(1)] p(3) by (auto simp: lookup_def fields)
  next
    case (Some a)
    then have "a = t \<longleftrightarrow> q = p" using tree_invD(2) [OF tree q(1) Some p(1)] p(3) by auto
    then show ?thesis using Some tab [OF q(1)] p(3) by (auto simp: lookup_def fields mem)
  qed
qed

subsection \<open>The operations\<close>

lemma page_map_write:
  assumes "npt_inv P free inv st" "tab P (table_mem st) (root_paddr st) (page_path v) = Some t"
  shows "page_map P (write_entry t (p1_index v) e st) w = (if same_page w v then entry_target P e else page_map P st w)"
  using write_leaf_spec(2) [OF assms(1) path_page(1,2) assms(2), of "page_path w"] page_indices_eq [of w v]
  by (auto simp: page_map_def entry_target_def)

lemma npt_map_spec:
  assumes inv: "npt_inv P free inv st"
  shows "\<exists>r st'. npt_map P alloc v p fl st = Returns (r, st') \<and> npt_inv P free inv st' \<and>
    (case r of
       Inr _ \<Rightarrow> page_map P st v = None \<and>
         (\<forall>w. page_map P st' w = (if same_page w v then entry_target P (new_page P (align_down p) fl False) else page_map P st w))
     | Inl e \<Rightarrow> (\<forall>w. page_map P st' w = page_map P st w) \<and>
         (e = InvalidParam \<and> page_map P st v \<noteq> None \<or> e = OutOfMemory \<and> left (hal st) < 3))"
proof -
  from get_entry_or_create_spec [OF inv, of v] obtain r1 st1 where 1: "get_entry_mut_or_create P alloc v st = Returns (r1, st1)"
    "npt_inv P free inv st1" "\<forall>q j. path q \<longrightarrow> length q = 3 \<longrightarrow> lookup P st1 q j = lookup P st q j"
    "case r1 of Inl e \<Rightarrow> e = OutOfMemory \<and> left (hal st) < 3
     | Inr (t, i) \<Rightarrow> tab P (table_mem st1) (root_paddr st1) (page_path v) = Some t \<and> i = p1_index v" by meson
  have same: "page_map P st1 w = page_map P st w" for w using 1(3) by (simp add: page_map_def)
  show ?thesis
  proof (cases r1)
    case (Inl e)
    then show ?thesis using 1 same by (intro exI [of _ "Inl e"] exI [of _ st1]) (simp add: npt_map_def)
  next
    case (Inr ti)
    then obtain t where t: "r1 = Inr (t, p1_index v)" "tab P (table_mem st1) (root_paddr st1) (page_path v) = Some t"
      using 1(4) by auto
    have entry: "page_map P st1 v = entry_target P (table_mem st1 t (p1_index v))"
      using t(2) by (simp add: page_map_def lookup_def entry_target_def)
    show ?thesis
    proof (cases "pte_unused P (table_mem st1 t (p1_index v))")
      case True
      let ?st = "write_entry t (p1_index v) (new_page P (align_down p) fl False) st1"
      have "npt_map P alloc v p fl st = Returns (Inr (), ?st)" using 1(1) t(1) True by (simp add: npt_map_def)
      then show ?thesis
        using write_leaf_spec(1) [OF 1(2) path_page t(2)] page_map_write [OF 1(2) t(2)] same entry True
        by (intro exI [of _ "Inr ()"] exI [of _ ?st]) (simp add: entry_target_def)
    next
      case False
      then have "npt_map P alloc v p fl st = Returns (Inl InvalidParam, st1)" using 1(1) t(1) by (simp add: npt_map_def)
      then show ?thesis using 1(2) same entry False
        by (intro exI [of _ "Inl InvalidParam"] exI [of _ st1]) (auto simp: entry_target_def)
    qed
  qed
qed

lemma npt_unmap_spec:
  assumes inv: "npt_inv P free inv st"
  shows "case page_map P st v of
     None \<Rightarrow> (\<exists>e. npt_unmap P v st = (Inl e, st))
   | Some (p, fl) \<Rightarrow> (\<exists>st'. npt_unmap P v st = (Inr p, st') \<and> npt_inv P free inv st' \<and>
       (\<forall>w. page_map P st' w = (if same_page w v then None else page_map P st w)))"
proof (cases "tab P (table_mem st) (root_paddr st) (page_path v)")
  case None
  then show ?thesis by (simp add: npt_unmap_def get_entry_mut_tab page_map_def lookup_def)
next
  case (Some t)
  then show ?thesis
    using write_leaf_spec(1) [OF inv path_page Some] page_map_write [OF inv Some, of "pte_clear P (table_mem st t (p1_index v))"]
      clear_unused
    by (auto simp: npt_unmap_def get_entry_mut_tab page_map_def [of _ _ v] lookup_def entry_target_def)
qed

lemma npt_query_spec:
  "npt_query P v st = (case page_map P st v of
     None \<Rightarrow> Returns (Inl (if tab P (table_mem st) (root_paddr st) (page_path v) = None then BadState else InvalidParam))
   | Some (p, fl) \<Rightarrow> obind (uadd p (page_offset v)) (\<lambda>a. Returns (Inr (a, fl))))"
  by (auto simp: npt_query_def get_entry_mut_tab page_map_def lookup_def split: option.splits)

lemma npt_update_spec:
  assumes inv: "npt_inv P free inv st" and map: "page_map P st v = Some (p0, f0)"
  shows "\<exists>st' h. npt_update P v p fl st = (Inr (), st') \<and> npt_inv P free inv st' \<and>
     (\<forall>w. page_map P st' w = (if same_page w v
        then entry_target P (new_page P (align_down (case p of None \<Rightarrow> p0 | Some q \<Rightarrow> q)) (case fl of None \<Rightarrow> f0 | Some g \<Rightarrow> g) h)
        else page_map P st w))"
proof -
  obtain t where t: "tab P (table_mem st) (root_paddr st) (page_path v) = Some t"
    and e: "pte_paddr P (table_mem st t (p1_index v)) = p0" "pte_flags P (table_mem st t (p1_index v)) = f0"
    using map by (auto simp: page_map_def lookup_def split: option.splits if_splits)
  let ?h = "pte_huge P (table_mem st t (p1_index v))"
  let ?e = "new_page P (align_down (case p of None \<Rightarrow> p0 | Some q \<Rightarrow> q)) (case fl of None \<Rightarrow> f0 | Some g \<Rightarrow> g) ?h"
  have "npt_update P v p fl st = (Inr (), write_entry t (p1_index v) ?e st)"
    unfolding npt_update_def get_entry_mut_tab t Let_def e [symmetric] by simp
  then show ?thesis
    using write_leaf_spec(1) [OF inv path_page t] page_map_write [OF inv t]
    by (intro exI [of _ "write_entry t (p1_index v) ?e st"] exI [of _ ?h]) simp
qed

lemma npt_new_spec:
  assumes "inv (hal st)"
  shows "\<exists>r st'. npt_new P alloc st = Returns (r, st') \<and>
    (case r of Inl e \<Rightarrow> e = OutOfMemory \<and> left (hal st) = 0
     | Inr _ \<Rightarrow> npt_inv P free inv st' \<and> (\<forall>v. page_map P st' v = None))"
  using assms
proof (cases rule: alloc_cases)
  case none
  then show ?thesis
    by (intro exI [of _ "Inl OutOfMemory"] exI [of _ st])
      (simp add: npt_new_def alloc_zero_def phys_frame_alloc_def)
next
  case (some f s')
  let ?st = "st\<lparr>hal := s', table_mem := (table_mem st)(f * 4096 := (\<lambda>_. zero_pte P)), root_paddr := f * 4096,
    intrm_tables := [f * 4096]\<rparr>"
  have "0 < f" using frame_above_0 [OF assms some(2)] .
  then have run: "npt_new P alloc st = Returns (Inr (), ?st)"
    using some(1) by (simp add: npt_new_def alloc_zero_def phys_frame_alloc_def rust_assert_def)
  have none: "next_tab P (table_mem ?st) (f * 4096) i = None" for i
    using zero_absent by (simp add: next_tab_def next_table_mut_def)
  have tab: "tab P (table_mem ?st) (f * 4096) q = (if q = [] then Some (f * 4096) else None)" for q
    using none by (cases q) simp_all
  have "tree_inv P (root_paddr ?st) (intrm_tables ?st) (table_mem ?st)"
    using tab zero_unused by (simp add: tree_inv_def)
  moreover have "page_map P ?st v = None" for v
    using tab [of "page_path v"] by (simp add: page_map_def lookup_def page_path_def)
  moreover have "\<forall>g\<in>free s'. g * 4096 \<notin> {f * 4096}" using some(3) by auto
  ultimately show ?thesis
    using run some(4) by (intro exI [of _ "Inr ()"] exI [of _ ?st]) (simp add: npt_inv_def)
qed

end

section \<open>The extended page table is such a table\<close>

lemma bit_exp_u64: "n < 64 \<Longrightarrow> bit (push_bit n 1 :: u64) j \<longleftrightarrow> j = n"
  by (auto simp: bit_exp_iff push_bit_of_1)

lemma flags_contain_bit:
  assumes "\<And>j. bit g j \<longleftrightarrow> j = n" "n < 64"
  shows "flags_contain f g \<longleftrightarrow> bit f n"
proof -
  have "flags_contain f g \<longleftrightarrow> (\<forall>j. bit (f AND g) j \<longleftrightarrow> bit g j)" unfolding flags_contain_def by (metis bit_eqI)
  then show ?thesis unfolding bit_and_iff assms(1) by auto
qed

lemma bit_of_flag:
  "bit MEM_READ j \<longleftrightarrow> j = 0" "bit MEM_WRITE j \<longleftrightarrow> j = 1" "bit MEM_EXECUTE j \<longleftrightarrow> j = 2" "bit MEM_DEVICE j \<longleftrightarrow> j = 3"
  "bit EPT_READ j \<longleftrightarrow> j = 0" "bit EPT_WRITE j \<longleftrightarrow> j = 1" "bit EPT_EXECUTE j \<longleftrightarrow> j = 2" "bit EPT_HUGE_PAGE j \<longleftrightarrow> j = 7"
  unfolding MEM_READ_def MEM_WRITE_def MEM_EXECUTE_def MEM_DEVICE_def EPT_READ_def EPT_WRITE_def EPT_EXECUTE_def
    EPT_HUGE_PAGE_def by (rule bit_exp_u64, simp)+

lemma contains_flag:
  "flags_contain f MEM_READ \<longleftrightarrow> bit f 0" "flags_contain f MEM_WRITE \<longleftrightarrow> bit f 1" "flags_contain f MEM_EXECUTE \<longleftrightarrow> bit f 2"
  "flags_contain f MEM_DEVICE \<longleftrightarrow> bit f 3"
  "flags_contain f EPT_READ \<longleftrightarrow> bit f 0" "flags_contain f EPT_WRITE \<longleftrightarrow> bit f 1" "flags_contain f EPT_EXECUTE \<longleftrightarrow> bit f 2"
  "flags_contain f EPT_HUGE_PAGE \<longleftrightarrow> bit f 7"
  by (rule flags_contain_bit [OF bit_of_flag(1)] flags_contain_bit [OF bit_of_flag(2)] flags_contain_bit [OF bit_of_flag(3)]
      flags_contain_bit [OF bit_of_flag(4)] flags_contain_bit [OF bit_of_flag(5)] flags_contain_bit [OF bit_of_flag(6)]
      flags_contain_bit [OF bit_of_flag(7)] flags_contain_bit [OF bit_of_flag(8)], simp)+

lemma bit_mask_u64: "n < 64 \<Longrightarrow> bit (mask n :: u64) j \<longleftrightarrow> j < n"
  by (auto simp: bit_mask_iff)

lemma bit_write_back: "bit (6::u64) j \<longleftrightarrow> j = 1 \<or> j = 2"
proof -
  have "(6::u64) = push_bit 1 1 OR push_bit 2 1" by simp
  then have "bit (6::u64) j \<longleftrightarrow> bit (push_bit 1 1 :: u64) j \<or> bit (push_bit 2 1 :: u64) j" by (simp only: bit_or_iff)
  also have "\<dots> \<longleftrightarrow> j = 1 \<or> j = 2" by (subst (1 2) bit_exp_u64) simp_all
  finally show ?thesis .
qed

lemma bit_phys_mask: "bit PHYS_ADDR_MASK j \<longleftrightarrow> 12 \<le> j \<and> j < 52"
proof -
  have eq: "PHYS_ADDR_MASK = push_bit 12 (mask 40)" by (simp add: PHYS_ADDR_MASK_def mask_eq_exp_minus_1)
  show ?thesis unfolding eq bit_push_bit_iff using bit_mask_u64 [of 40 "j - 12"] by auto
qed

lemma valid_flags_bit: "f AND NOT (mask 4) = 0 \<Longrightarrow> bit f j \<Longrightarrow> j < 4" for f :: u64
proof -
  assume a: "f AND NOT (mask 4) = 0" "bit f j"
  have "bit (f AND NOT (mask 4)) j = False" using a(1) by simp
  then show "j < 4" using a(2) by (auto simp: bit_and_iff bit_not_iff bit_mask_iff dest: bit_imp_le_length)
qed

context bit_range
begin

lemma bit_ept_flags:
  assumes "f \<noteq> 0" "j < 64"
  shows "bit (ept_flags_from set_bits f) j \<longleftrightarrow> j < 3 \<and> bit f j \<or> (j = 4 \<or> j = 5) \<and> \<not> bit f 3"
proof -
  define r where "r = (let ret = (0::u64);
            ret = (if flags_contain f MEM_READ then ret OR EPT_READ else ret);
            ret = (if flags_contain f MEM_WRITE then ret OR EPT_WRITE else ret) in
            (if flags_contain f MEM_EXECUTE then ret OR EPT_EXECUTE else ret))"
  have low: "bit r k \<longleftrightarrow> k < 3 \<and> bit f k" for k
  proof -
    have "k < 3 \<longleftrightarrow> k = 0 \<or> k = 1 \<or> k = 2" by auto
    then show ?thesis unfolding r_def Let_def contains_flag by (auto simp: bit_or_iff bit_of_flag)
  qed
  have eq: "ept_flags_from set_bits f = (if \<not> bit f 3 then set_mem_type set_bits WriteBack r else r)"
    using assms(1) unfolding ept_flags_from_def r_def Let_def contains_flag by simp
  have "bit (set_mem_type set_bits WriteBack r) j \<longleftrightarrow> j < 3 \<and> bit f j \<or> j = 4 \<or> j = 5"
  proof -
    have "bit (set_mem_type set_bits WriteBack r) j \<longleftrightarrow> j < 11 \<and> (if 3 \<le> j \<and> j < 6 then bit (6::u64) (j - 3) else bit r j)"
      unfolding set_mem_type_def ept_truncate_def bit_and_iff mem_type_code.simps
      using bit_mask_u64 [of 11 j] bit_set_bits [of 3 6 j r 6] assms(2) by (auto split: if_splits)
    then show ?thesis unfolding low bit_write_back by auto
  qed
  then show ?thesis unfolding eq using low [of j] by auto
qed

lemma mem_type_uncached: "mem_type get_bits b = Inr Uncached \<longleftrightarrow> \<not> bit b 3 \<and> \<not> bit b 4 \<and> \<not> bit b 5"
proof -
  have bits: "bit (get_bits b 3 6) j \<longleftrightarrow> j < 3 \<and> bit b (3 + j)" for j using bit_get_bits [of 3 6 b j] by simp
  have "(ucast (get_bits b 3 6) :: u8) = 0 \<longleftrightarrow> (\<forall>j<3. \<not> bit b (3 + j))"
    unfolding bit_eq_iff by (auto simp: bit_ucast_iff bits)
  also have "\<dots> \<longleftrightarrow> \<not> bit b 3 \<and> \<not> bit b 4 \<and> \<not> bit b 5"
    by (simp add: numeral_3_eq_3 All_less_Suc) (auto simp: eval_nat_numeral)
  finally show ?thesis by (simp add: mem_type_def mem_type_try_from_def)
qed

lemma bit_mem_flags:
  "bit (mem_flags_from get_bits b) j \<longleftrightarrow> j < 3 \<and> bit b j \<or> j = 3 \<and> \<not> bit b 3 \<and> \<not> bit b 4 \<and> \<not> bit b 5"
proof -
  have "j < 3 \<longleftrightarrow> j = 0 \<or> j = 1 \<or> j = 2" by auto
  then show ?thesis
    unfolding mem_flags_from_def Let_def contains_flag mem_type_uncached by (auto simp: bit_or_iff bit_of_flag)
qed

end

lemma bit_frame_addr:
  assumes "p mod 4096 = 0" "p < 2 ^ 52"
  shows "bit (of_nat p :: u64) j \<longleftrightarrow> bit p j" "bit p j \<Longrightarrow> 12 \<le> j \<and> j < 52"
proof -
  have up: "p = push_bit 12 (p div 4096)" using assms(1) by (simp add: push_bit_eq_mult mult.commute [of _ "4096::nat"] mod_0_imp_dvd)
  have lo: "12 \<le> j" if "bit p j" for j using that by (subst (asm) up) (simp add: bit_push_bit_iff)
  have hi: "j < 52" if "bit p j" for j
  proof -
    have "take_bit 52 p = p" using assms(2) by (rule take_bit_nat_eq_self)
    then have "bit (take_bit 52 p) j" using that by simp
    then show ?thesis by (simp add: bit_take_bit_iff)
  qed
  show "bit p j \<Longrightarrow> 12 \<le> j \<and> j < 52" using lo hi by blast
  show "bit (of_nat p :: u64) j \<longleftrightarrow> bit p j" using hi [of j] by (auto simp: bit_of_nat_iff)
qed

lemma unat_frame_addr: "p < 2 ^ 52 \<Longrightarrow> unat (of_nat p :: u64) = p"
  by (simp add: unat_of_nat take_bit_nat_eq_self)

lemma paddr_bits:
  assumes p: "p mod 4096 = 0" "p < 2 ^ 52" and e: "\<And>j. 12 \<le> j \<Longrightarrow> j < 52 \<Longrightarrow> bit e j \<longleftrightarrow> bit p j"
  shows "ept_paddr e = p"
proof -
  have "e AND PHYS_ADDR_MASK = of_nat p"
    by (rule bit_eqI) (use e bit_frame_addr [OF p] in \<open>auto simp: bit_and_iff bit_phys_mask\<close>)
  then show ?thesis unfolding ept_paddr_def using unat_frame_addr [OF p(2)] by simp
qed

lemma bit_ept_table:
  assumes "p mod 4096 = 0" "p < 2 ^ 52"
  shows "bit (ept_new_table p) j \<longleftrightarrow> j < 3 \<or> bit p j"
proof -
  have "j < 3 \<longleftrightarrow> j = 0 \<or> j = 1 \<or> j = 2" by auto
  then show ?thesis unfolding ept_new_table_def bit_or_iff bit_and_iff bit_of_flag bit_phys_mask
    using bit_frame_addr [OF assms, of j] by auto
qed

lemma ept_present_bits: "e AND 7 \<noteq> 0 \<longleftrightarrow> bit e 0 \<or> bit e 1 \<or> bit e 2" for e :: u64
proof -
  have seven: "bit (7::u64) j \<longleftrightarrow> j = 0 \<or> j = 1 \<or> j = 2" for j
  proof -
    have eq: "(7::u64) = mask 3" by (simp add: mask_eq_exp_minus_1)
    have "bit (7::u64) j \<longleftrightarrow> j < 3" unfolding eq by (rule bit_mask_u64) simp
    then show ?thesis by auto
  qed
  have "e AND 7 = 0 \<longleftrightarrow> (\<forall>j. \<not> bit (e AND 7) j)" by (metis bit_eqI bit_0_eq bot_apply bot_bool_def)
  then show ?thesis unfolding bit_and_iff seven by auto
qed

lemma ept_table_entry:
  assumes "p mod 4096 = 0" "p < 2 ^ 52"
  shows "next_table_mut (ept_pte gbs sbs) (ept_new_table p) = Inr p"
proof -
  have "\<not> bit (ept_new_table p) 7" using bit_ept_table [OF assms] bit_frame_addr [OF assms, of 7] by auto
  moreover have "bit (ept_new_table p) 0" using bit_ept_table [OF assms] by simp
  moreover have "ept_paddr (ept_new_table p) = p"
    by (rule paddr_bits [OF assms]) (simp add: bit_ept_table [OF assms])
  ultimately show ?thesis
    by (simp add: next_table_mut_def ept_pte_def ept_present_bits contains_flag ept_truncate_def bit_and_iff)
qed

text \<open>The kernel gives the hypervisor frames of the first 52 bits of physical memory, never frame 0.\<close>

definition kernel_pages :: "frame_allocator \<Rightarrow> bool" where
  "kernel_pages a \<longleftrightarrow> fa_inv a \<and> (\<forall>f\<in>free_frames a. 0 < f \<and> f < 2 ^ 40)"

lemma hal_alloc_page_eq: "hal_alloc_page gb sb a = allocate_frame gb sb a"
  by (cases "allocate_frame gb sb a") (auto simp: hal_alloc_page_def split: option.splits)

context bit_range
begin

lemma bit_ept_page:
  assumes f: "f \<noteq> 0" and p: "p mod 4096 = 0" "p < 2 ^ 52" and j: "j < 64"
  shows "bit (ept_new_page set_bits p f h) j \<longleftrightarrow> j < 3 \<and> bit f j \<or> (j = 4 \<or> j = 5) \<and> \<not> bit f 3 \<or> h \<and> j = 7 \<or> bit p j"
  using bit_frame_addr [OF p, of j] bit_ept_flags [OF f j]
  by (cases h) (auto simp: ept_new_page_def Let_def bit_or_iff bit_and_iff bit_phys_mask bit_of_flag)

lemma ept_new_page_fields:
  assumes f: "f \<noteq> 0" "f AND NOT (mask 4) = 0" and p: "p mod 4096 = 0" "p < 2 ^ 52"
  shows "ept_paddr (ept_new_page set_bits p f h) = p" "mem_flags_from get_bits (ept_truncate (ept_new_page set_bits p f h)) = f"
    "pte_huge (ept_pte get_bits set_bits) (ept_new_page set_bits p f h) = h"
proof -
  let ?e = "ept_new_page set_bits p f h"
  note bits = bit_ept_page [OF f(1) p, where h = h]
  have small: "\<not> bit p j" if "j < 12" for j using bit_frame_addr(2) [OF p, of j] that by auto
  show "ept_paddr ?e = p" by (rule paddr_bits [OF p]) (use bits in auto)
  show "pte_huge (ept_pte get_bits set_bits) ?e = h"
    using bits [of 7] small [of 7] by (simp add: ept_pte_def contains_flag ept_truncate_def bit_and_iff bit_mask_iff)
  show "mem_flags_from get_bits (ept_truncate ?e) = f"
  proof (rule bit_eqI)
    fix j
    have trunc: "bit (ept_truncate ?e) k \<longleftrightarrow> bit ?e k" if "k < 11" for k
      using that by (simp add: ept_truncate_def bit_and_iff bit_mask_iff)
    have "bit (mem_flags_from get_bits (ept_truncate ?e)) j \<longleftrightarrow> j < 3 \<and> bit f j \<or> j = 3 \<and> bit f 3"
      unfolding bit_mem_flags using trunc [of j] trunc [of 3] trunc [of 4] trunc [of 5] bits [of j] bits [of 3] bits [of 4] bits [of 5]
        small [of j] small [of 3] small [of 4] small [of 5] by auto
    also have "\<dots> \<longleftrightarrow> bit f j" using valid_flags_bit [OF f(2), of j] by (cases "j = 3") auto
    finally show "bit (mem_flags_from get_bits (ept_truncate ?e)) j = bit f j" .
  qed
qed

lemma ept_new_page_unused:
  assumes f: "f \<noteq> 0" "f AND NOT (mask 4) = 0" and p: "p mod 4096 = 0" "p < 2 ^ 52"
  shows "ept_new_page set_bits p f h = 0 \<longleftrightarrow> f = MEM_DEVICE \<and> p = 0 \<and> \<not> h"
proof
  let ?e = "ept_new_page set_bits p f h"
  note bits = bit_ept_page [OF f(1) p, where h = h]
  assume z: "?e = 0"
  have none: "\<not> bit ?e j" for j unfolding z by simp
  have "p = 0" using ept_new_page_fields(1) [OF f p, of h] z by (simp add: ept_paddr_def)
  moreover have "\<not> h" using bits [of 7] none [of 7] by simp
  moreover have "f = MEM_DEVICE"
  proof (rule bit_eqI)
    fix j
    have "bit f j \<Longrightarrow> j < 4" by (rule valid_flags_bit [OF f(2)])
    moreover have "j < 4 \<longleftrightarrow> j < 3 \<or> j = 3" by auto
    ultimately show "bit f j = bit MEM_DEVICE j" unfolding bit_of_flag using bits [of j] bits [of 4] none [of j] none [of 4] by auto
  qed
  ultimately show "f = MEM_DEVICE \<and> p = 0 \<and> \<not> h" by simp
next
  assume a: "f = MEM_DEVICE \<and> p = 0 \<and> \<not> h"
  show "ept_new_page set_bits p f h = 0"
    by (rule bit_eqI) (use a bit_ept_page [OF f(1) p, where h = h] in \<open>simp add: bit_of_flag\<close>)
qed

end

locale ept_host = byte_bits gb sb + bit_range get_bits set_bits
  for gb :: get_bit_fn and sb :: set_bit_fn and get_bits :: get_bits_fn and set_bits :: set_bits_fn

sublocale ept_host \<subseteq> npt: nested_paging "hal_alloc_page gb sb" "\<lambda>a. frame_set (bitmap a)" usable_frames kernel_pages
  "ept_pte get_bits set_bits"
proof
  fix s
  assume "kernel_pages s" "usable_frames s \<noteq> 0"
  with bfa.alloc_some [of s] show "\<exists>f s'. hal_alloc_page gb sb s = Returns (Some (f * 4096), s') \<and> f \<in> frame_set (bitmap s) \<and>
      frame_set (bitmap s') = frame_set (bitmap s) - {f} \<and> kernel_pages s' \<and> usable_frames s' = usable_frames s - 1"
    unfolding hal_alloc_page_eq kernel_pages_def by (metis Diff_iff)
next
  fix s
  assume "kernel_pages s" "usable_frames s = 0"
  then show "hal_alloc_page gb sb s = Returns (None, s)"
    unfolding hal_alloc_page_eq kernel_pages_def using bfa.alloc_none by blast
next
  fix s f
  assume a: "kernel_pages s" "f \<in> frame_set (bitmap s)"
  then show "0 < f" by (simp add: kernel_pages_def)
  have "f * 4096 < 2 ^ 52" using a by (auto simp: kernel_pages_def)
  then show "next_table_mut (ept_pte get_bits set_bits) (new_table (ept_pte get_bits set_bits) (f * 4096)) = Inr (f * 4096)"
    using ept_table_entry [of "f * 4096"] by (simp add: ept_pte_def)
qed (simp_all add: ept_pte_def)

context ept_host
begin

lemmas ept_map_spec = npt.npt_map_spec
lemmas ept_unmap_spec = npt.npt_unmap_spec
lemmas ept_query_spec = npt.npt_query_spec
lemmas ept_update_spec = npt.npt_update_spec

end

interpretation ept_word: ept_host word_get_bit word_set_bit word_get_bits word_set_bits
  by unfold_locales

section \<open>The properties\<close>

text \<open>The invariant of the extended page table that lives in the kernel's frames.\<close>

abbreviation ept_inv :: "get_bits_fn \<Rightarrow> set_bits_fn \<Rightarrow> (frame_allocator, u64) npt \<Rightarrow> bool" where
  "ept_inv gbs sbs \<equiv> npt_inv (ept_pte gbs sbs) (\<lambda>a. frame_set (bitmap a)) kernel_pages"

abbreviation valid_flags :: "mem_flags \<Rightarrow> bool" where
  "valid_flags fl \<equiv> fl \<noteq> 0 \<and> fl AND NOT (mask 4) = 0"

lemma align_down_page: "align_down p mod 4096 = 0" "p < 2 ^ 52 \<Longrightarrow> align_down p < 2 ^ 52" "align_down p = 0 \<longleftrightarrow> p < 4096"
proof -
  have "align_down p = 4096 * (p div 4096)" unfolding align_down_def by (rule minus_mod_eq_mult_div)
  then show "align_down p mod 4096 = 0" "p < 2 ^ 52 \<Longrightarrow> align_down p < 2 ^ 52" "align_down p = 0 \<longleftrightarrow> p < 4096"
    by (simp_all add: align_down_def) (simp add: div_eq_0_iff)
qed

lemma page_offset_bound: "page_offset v < 4096"
proof -
  have "page_offset v = take_bit 12 v" by (simp add: page_offset_def take_bit_eq_mask mask_eq_exp_minus_1)
  then show ?thesis using take_bit_nat_less_exp [of 12 v] by simp
qed

lemma ept_paddr_bound: "ept_paddr e < 2 ^ 52"
proof -
  have "e AND PHYS_ADDR_MASK = take_bit 52 (e AND PHYS_ADDR_MASK)"
    by (rule bit_eqI) (auto simp: bit_take_bit_iff bit_and_iff bit_phys_mask)
  then have "unat (e AND PHYS_ADDR_MASK) = take_bit 52 (unat (e AND PHYS_ADDR_MASK))"
    by (metis unsigned_take_bit_eq)
  then show ?thesis unfolding ept_paddr_def by (metis take_bit_nat_less_exp)
qed

lemma page_map_bound: "page_map (ept_pte gbs sbs) st v = Some (p, fl) \<Longrightarrow> p < 2 ^ 52"
  using ept_paddr_bound by (auto simp: page_map_def lookup_def ept_pte_def split: option.splits if_splits)

lemma query_no_overflow: "p < 2 ^ 52 \<Longrightarrow> uadd p (page_offset v) = Returns (p + page_offset v)"
  using page_offset_bound [of v] by (simp add: uadd_def usize_max_def)

text \<open>C5. \<open>Level4PageTable::map\<close> on the extended page table, with frames from the kernel's allocator,
  refines the update of a partial function from guest pages to targets.  On a table that satisfies the invariant
  it never panics and keeps the invariant.  It succeeds only on a page that had no target, and then that page
  maps to the given frame with the given flags and no other page changes; the one exception is the frame at
  address 0 with the flag \<open>DEVICE\<close> alone, whose entry is zero and so reads as unused.  It fails only
  when the page is mapped already or fewer than three frames are left, and then no page changes.\<close>

theorem npt_map_refines:
  assumes "byte_bits gb sb" "bit_range gbs sbs" "ept_inv gbs sbs st" "valid_flags fl" "p < 2 ^ 52"
  shows "\<exists>r st'. npt_map (ept_pte gbs sbs) (hal_alloc_page gb sb) v p fl st = Returns (r, st') \<and> ept_inv gbs sbs st' \<and>
    (case r of
       Inr _ \<Rightarrow> page_map (ept_pte gbs sbs) st v = None \<and>
         (\<forall>w. page_map (ept_pte gbs sbs) st' w =
           (if same_page w v then (if fl = MEM_DEVICE \<and> p < 4096 then None else Some (align_down p, fl))
            else page_map (ept_pte gbs sbs) st w))
     | Inl e \<Rightarrow> (\<forall>w. page_map (ept_pte gbs sbs) st' w = page_map (ept_pte gbs sbs) st w) \<and>
         (e = InvalidParam \<and> page_map (ept_pte gbs sbs) st v \<noteq> None \<or> e = OutOfMemory \<and> usable_frames (hal st) < 3))"
proof -
  have host: "ept_host gb sb gbs sbs" using assms(1,2) by (simp add: ept_host_def)
  have target: "entry_target (ept_pte gbs sbs) (new_page (ept_pte gbs sbs) (align_down p) fl False) =
      (if fl = MEM_DEVICE \<and> p < 4096 then None else Some (align_down p, fl))"
    using bit_range.ept_new_page_fields [OF assms(2), of fl "align_down p" False] assms(4,5) align_down_page
      bit_range.ept_new_page_unused [OF assms(2), of fl "align_down p" False]
    by (simp add: ept_pte_def entry_target_def)
  show ?thesis by (rule ept_host.ept_map_spec [OF host assms(3), of v p fl, unfolded target])
qed

definition sample_npt :: "(frame_allocator, u64) npt" where
  "sample_npt = \<lparr>root_paddr = 12288, intrm_tables = [12288], hal = sample_alloc, table_mem = (\<lambda>_ _. 0)\<rparr>"

lemma sample_npt_inv: "ept_inv word_get_bits word_set_bits sample_npt"
proof -
  let ?P = "ept_pte word_get_bits word_set_bits"
  have nx: "next_tab ?P (\<lambda>_ _. 0) a i = None" for a i by (simp add: next_tab_def next_table_mut_def ept_pte_def)
  have tab: "tab ?P (\<lambda>_ _. 0) t q = (if q = [] then Some t else None)" for q t
    using nx by (cases q) simp_all
  have "tree_inv ?P 12288 [12288] (\<lambda>_ _. 0)" using tab by (simp add: tree_inv_def) (simp add: ept_pte_def)
  moreover have "kernel_pages sample_alloc" using sample_alloc_inv by (simp add: kernel_pages_def sample_alloc_frames)
  ultimately show ?thesis by (simp add: npt_inv_def sample_npt_def sample_alloc_frames)
qed

lemma bit_range_word: "bit_range word_get_bits word_set_bits" by unfold_locales

theorem npt_map_refines_witness:
  "\<exists>r st'. npt_map (ept_pte word_get_bits word_set_bits) (hal_alloc_page word_get_bit word_set_bit) 0x200000 0x7123 3 sample_npt =
      Returns (r, st') \<and> ept_inv word_get_bits word_set_bits st' \<and>
    (case r of
       Inr _ \<Rightarrow> page_map (ept_pte word_get_bits word_set_bits) sample_npt 0x200000 = None \<and>
         (\<forall>w. page_map (ept_pte word_get_bits word_set_bits) st' w =
           (if same_page w 0x200000 then (if 3 = MEM_DEVICE \<and> (0x7123::nat) < 4096 then None else Some (align_down 0x7123, 3))
            else page_map (ept_pte word_get_bits word_set_bits) sample_npt w))
     | Inl e \<Rightarrow> (\<forall>w. page_map (ept_pte word_get_bits word_set_bits) st' w = page_map (ept_pte word_get_bits word_set_bits) sample_npt w) \<and>
         (e = InvalidParam \<and> page_map (ept_pte word_get_bits word_set_bits) sample_npt 0x200000 \<noteq> None \<or>
          e = OutOfMemory \<and> usable_frames (hal sample_npt) < 3))"
  by (rule npt_map_refines [OF byte_bits_word bit_range_word sample_npt_inv]) (simp_all add: mask_eq_exp_minus_1)

text \<open>C8. \<open>query\<close> and \<open>unmap\<close> read the same partial function that \<open>map\<close> updates: on a
  mapped page \<open>query\<close> returns the target frame plus the offset in the page, with no overflow, and
  \<open>unmap\<close> returns the frame, takes the page out, leaves every other page as it is and keeps the invariant;
  on any other page both return an error and the table is unchanged.\<close>

theorem npt_query_unmap:
  assumes "byte_bits gb sb" "bit_range gbs sbs" "ept_inv gbs sbs st"
  shows "case page_map (ept_pte gbs sbs) st v of
      None \<Rightarrow> (\<exists>e. npt_query (ept_pte gbs sbs) v st = Returns (Inl e)) \<and> (\<exists>e. npt_unmap (ept_pte gbs sbs) v st = (Inl e, st))
    | Some (p, fl) \<Rightarrow> npt_query (ept_pte gbs sbs) v st = Returns (Inr (p + page_offset v, fl)) \<and>
        (\<exists>st'. npt_unmap (ept_pte gbs sbs) v st = (Inr p, st') \<and> ept_inv gbs sbs st' \<and>
          (\<forall>w. page_map (ept_pte gbs sbs) st' w = (if same_page w v then None else page_map (ept_pte gbs sbs) st w)))"
proof -
  have host: "ept_host gb sb gbs sbs" using assms(1,2) by (simp add: ept_host_def)
  note unmap = ept_host.ept_unmap_spec [OF host assms(3), of v]
  show ?thesis
  proof (cases "page_map (ept_pte gbs sbs) st v")
    case None
    then show ?thesis using unmap ept_host.ept_query_spec [OF host, of v st] by simp
  next
    case (Some t)
    obtain p fl where t: "t = (p, fl)" by (cases t)
    have "uadd p (page_offset v) = Returns (p + page_offset v)"
      using page_map_bound [OF Some [unfolded t]] by (rule query_no_overflow)
    then have "npt_query (ept_pte gbs sbs) v st = Returns (Inr (p + page_offset v, fl))"
      using ept_host.ept_query_spec [OF host, of v st] Some t by simp
    then show ?thesis using unmap Some t by simp
  qed
qed

text \<open>A table with one page, mapped at guest address 0 to the frame at 16384.\<close>

definition sample_leaf :: "nat \<Rightarrow> nat \<Rightarrow> u64" where
  "sample_leaf t i = (if i \<noteq> 0 then 0 else if t = 12288 then 0x5007 else if t = 0x5000 then 0x8007
     else if t = 0x8000 then 0x9007 else if t = 0x9000 then 0x4033 else 0)"

definition sample_mapped :: "(frame_allocator, u64) npt" where
  "sample_mapped = \<lparr>root_paddr = 12288, intrm_tables = [12288, 0x5000, 0x8000, 0x9000], hal = sample_alloc, table_mem = sample_leaf\<rparr>"


abbreviation word_ept :: "u64 generic_pte" where
  "word_ept \<equiv> ept_pte word_get_bits word_set_bits"

lemma sample_leaf_next:
  "next_tab word_ept sample_leaf t i = (if i \<noteq> 0 then None else if t = 12288 then Some 0x5000 else if t = 0x5000 then Some 0x8000
     else if t = 0x8000 then Some 0x9000 else if t = 0x9000 then Some 0x4000 else None)"
  by (simp add: next_tab_def next_table_mut_def ept_pte_def sample_leaf_def ept_paddr_def PHYS_ADDR_MASK_def ept_truncate_def
      flags_contain_def EPT_HUGE_PAGE_def mask_eq_exp_minus_1)

lemma sample_leaf_tab:
  assumes "path q" "tab word_ept sample_leaf 12288 q = Some a"
  shows "(q, a) \<in> {([], 12288), ([0], 0x5000), ([0, 0], 0x8000), ([0, 0, 0], 0x9000)}"
proof -
  have "length q \<le> 3" using assms(1) by (simp add: path_def)
  then consider "q = []" | i where "q = [i]" | i j where "q = [i, j]" | i j k where "q = [i, j, k]"
    by (cases q; cases "tl q"; cases "tl (tl q)"; cases "tl (tl (tl q))") auto
  then show ?thesis using assms(2) by cases (auto simp: sample_leaf_next split: if_splits)
qed

lemma sample_mapped_inv: "ept_inv word_get_bits word_set_bits sample_mapped"
proof -
  have "tree_inv word_ept 12288 [12288, 0x5000, 0x8000, 0x9000] sample_leaf"
    unfolding tree_inv_def
  proof (intro allI impI conjI)
    fix p a assume p: "path p" "tab word_ept sample_leaf 12288 p = Some a"
    note at = sample_leaf_tab [OF p]
    then show "a \<in> set [12288, 0x5000, 0x8000, 0x9000]" by auto
    show "q = p" if "path q" "tab word_ept sample_leaf 12288 q = Some a" for q
      using at sample_leaf_tab [OF that] by auto
    show "pte_unused word_ept (sample_leaf a i) \<or> next_tab word_ept sample_leaf a i \<noteq> None" if "length p < 3" "i < 512" for i
      using at that by (auto simp: sample_leaf_next) (simp_all add: ept_pte_def sample_leaf_def)
  qed
  moreover have "kernel_pages sample_alloc" using sample_alloc_inv by (simp add: kernel_pages_def sample_alloc_frames)
  ultimately show ?thesis by (simp add: npt_inv_def sample_mapped_def sample_alloc_frames)
qed

theorem npt_query_unmap_witness:
  "page_map word_ept sample_mapped 0x123 = Some (0x4000, 3) \<and>
   (case page_map word_ept sample_mapped 0x123 of
      None \<Rightarrow> (\<exists>e. npt_query word_ept 0x123 sample_mapped = Returns (Inl e)) \<and>
        (\<exists>e. npt_unmap word_ept 0x123 sample_mapped = (Inl e, sample_mapped))
    | Some (p, fl) \<Rightarrow> npt_query word_ept 0x123 sample_mapped = Returns (Inr (p + page_offset 0x123, fl)) \<and>
        (\<exists>st'. npt_unmap word_ept 0x123 sample_mapped = (Inr p, st') \<and> ept_inv word_get_bits word_set_bits st' \<and>
          (\<forall>w. page_map word_ept st' w = (if same_page w 0x123 then None else page_map word_ept sample_mapped w))))"
proof
  have idx: "p1_index 0x123 = 0" "page_path 0x123 = [0, 0, 0]" by (simp_all add: page_path_def index_div)
  show "page_map word_ept sample_mapped 0x123 = Some (0x4000, 3)"
    by (simp add: page_map_def lookup_def idx sample_mapped_def sample_leaf_next)
      (simp add: ept_pte_def sample_leaf_def ept_paddr_def PHYS_ADDR_MASK_def ept_truncate_def mem_flags_from_def contains_flag
        mem_type_def mem_type_try_from_def word_get_bits_def mask_eq_exp_minus_1 MEM_READ_def MEM_WRITE_def bit_1_iff take_bit_eq_mask)
qed (rule npt_query_unmap [OF byte_bits_word bit_range_word sample_mapped_inv])

text \<open>C30. An entry of the extended page table holds what it was made from: for flags that are not empty and a
  page-aligned address below \<open>2 ^ 52\<close>, \<open>paddr\<close>, \<open>flags\<close> and \<open>is_huge\<close> of
  \<open>new_page\<close> give the three arguments back, and the bits of the address and of the flags do not mix.
  The entry of a next-level table is present, not huge, and refers to that table.\<close>

theorem ept_entry_roundtrip:
  assumes "bit_range gbs sbs" "valid_flags fl" "p mod 4096 = 0" "p < 2 ^ 52"
  shows "ept_paddr (ept_new_page sbs p fl h) = p \<and> mem_flags_from gbs (ept_truncate (ept_new_page sbs p fl h)) = fl \<and>
    pte_huge (ept_pte gbs sbs) (ept_new_page sbs p fl h) = h \<and>
    next_table_mut (ept_pte gbs sbs) (ept_new_table p) = Inr p"
  using bit_range.ept_new_page_fields [OF assms(1), of fl p h] assms(2,3,4) ept_table_entry [OF assms(3,4), of gbs sbs] by simp

theorem ept_entry_roundtrip_witness:
  "ept_paddr (ept_new_page word_set_bits 0xABC000 5 True) = 0xABC000 \<and>
   mem_flags_from word_get_bits (ept_truncate (ept_new_page word_set_bits 0xABC000 5 True)) = 5 \<and>
   pte_huge word_ept (ept_new_page word_set_bits 0xABC000 5 True) = True \<and>
   next_table_mut word_ept (ept_new_table 0xABC000) = Inr 0xABC000"
  by (rule ept_entry_roundtrip [OF bit_range_word]) (simp_all add: mask_eq_exp_minus_1)

text \<open>\<open>From<MemFlags> for EPTFlags\<close> turns the empty set of flags into the empty entry, whose memory
  type is the code of \<open>Uncached\<close>; so \<open>From<EPTFlags> for MemFlags\<close> reads it back as
  \<open>DEVICE\<close>, a set that is not the one it came from.\<close>

lemma ept_empty_flags_read_as_device:
  assumes "bit_range gbs sbs"
  shows "ept_flags_from sbs 0 = 0 \<and> mem_flags_from gbs (ept_flags_from sbs 0) = MEM_DEVICE"
proof -
  have "ept_flags_from sbs 0 = 0" by (simp add: ept_flags_from_def)
  moreover have "mem_flags_from gbs 0 = MEM_DEVICE"
    by (rule bit_eqI) (simp add: bit_range.bit_mem_flags [OF assms] bit_of_flag)
  ultimately show ?thesis by simp
qed

lemma ept_empty_flags_read_as_device_example:
  "ept_flags_from word_set_bits 0 = 0 \<and> mem_flags_from word_get_bits (ept_flags_from word_set_bits 0) = MEM_DEVICE"
  by (rule ept_empty_flags_read_as_device [OF bit_range_word])

end
