(* ===== verification/VmxFields.thy ===== *)
theory VmxFields
  imports Nested
begin

text \<open>The enumerations of the hypervisor crate: the fields of the virtual-machine control structure
  (\<open>arch/x86_64/vmx/vmcs.rs\<close>), the model-specific registers (\<open>arch/x86_64/msr.rs\<close>), the exit
  reasons and interruption types (\<open>arch/x86_64/vmx/definitions.rs\<close>).

  A datatype stands for an \<open>enum\<close> and \<open>X_as_u32\<close> for its discriminants.  The macros
  \<open>vmcs_read!\<close> and \<open>vmcs_write!\<close> give every enumeration an integer type; \<open>accessor_bits\<close>
  is its width.  The encoding of a field carries its own width and kind, and the lemmas compare the two.\<close>

section \<open>Fields of the control structure\<close>

datatype VmcsControl16 =
    VPID | POSTED_INTERRUPT_NOTIFICATION_VECTOR | EPTP_INDEX

primrec VmcsControl16_as_u32 :: "VmcsControl16 \<Rightarrow> u32" where
  "VmcsControl16_as_u32 VmcsControl16.VPID = 0x0"
| "VmcsControl16_as_u32 VmcsControl16.POSTED_INTERRUPT_NOTIFICATION_VECTOR = 0x2"
| "VmcsControl16_as_u32 VmcsControl16.EPTP_INDEX = 0x4"

datatype (plugins only: size) VmcsControl64 =
    IO_BITMAP_A_ADDR | IO_BITMAP_B_ADDR | MSR_BITMAPS_ADDR | VMEXIT_MSR_STORE_ADDR | VMEXIT_MSR_LOAD_ADDR
    | VMENTRY_MSR_LOAD_ADDR | EXECUTIVE_VMCS_PTR | PML_ADDR | TSC_OFFSET | VIRT_APIC_ADDR | APIC_ACCESS_ADDR
    | POSTED_INTERRUPT_DESC_ADDR | VM_FUNCTION_CONTROLS | EPTP | EOI_EXIT0 | EOI_EXIT1 | EOI_EXIT2
    | EOI_EXIT3 | EPTP_LIST_ADDR | VMREAD_BITMAP_ADDR | VMWRITE_BITMAP_ADDR | VIRT_EXCEPTION_INFO_ADDR
    | XSS_EXITING_BITMAP | ENCLS_EXITING_BITMAP | SUBPAGE_PERM_TABLE_PTR | TSC_MULTIPLIER

primrec VmcsControl64_as_u32 :: "VmcsControl64 \<Rightarrow> u32" where
  "VmcsControl64_as_u32 VmcsControl64.IO_BITMAP_A_ADDR = 0x2000"
| "VmcsControl64_as_u32 VmcsControl64.IO_BITMAP_B_ADDR = 0x2002"
| "VmcsControl64_as_u32 VmcsControl64.MSR_BITMAPS_ADDR = 0x2004"
| "VmcsControl64_as_u32 VmcsControl64.VMEXIT_MSR_STORE_ADDR = 0x2006"
| "VmcsControl64_as_u32 VmcsControl64.VMEXIT_MSR_LOAD_ADDR = 0x2008"
| "VmcsControl64_as_u32 VmcsControl64.VMENTRY_MSR_LOAD_ADDR = 0x200A"
| "VmcsControl64_as_u32 VmcsControl64.EXECUTIVE_VMCS_PTR = 0x200C"
| "VmcsControl64_as_u32 VmcsControl64.PML_ADDR = 0x200E"
| "VmcsControl64_as_u32 VmcsControl64.TSC_OFFSET = 0x2010"
| "VmcsControl64_as_u32 VmcsControl64.VIRT_APIC_ADDR = 0x2012"
| "VmcsControl64_as_u32 VmcsControl64.APIC_ACCESS_ADDR = 0x2014"
| "VmcsControl64_as_u32 VmcsControl64.POSTED_INTERRUPT_DESC_ADDR = 0x2016"
| "VmcsControl64_as_u32 VmcsControl64.VM_FUNCTION_CONTROLS = 0x2018"
| "VmcsControl64_as_u32 VmcsControl64.EPTP = 0x201A"
| "VmcsControl64_as_u32 VmcsControl64.EOI_EXIT0 = 0x201C"
| "VmcsControl64_as_u32 VmcsControl64.EOI_EXIT1 = 0x201E"
| "VmcsControl64_as_u32 VmcsControl64.EOI_EXIT2 = 0x2020"
| "VmcsControl64_as_u32 VmcsControl64.EOI_EXIT3 = 0x2022"
| "VmcsControl64_as_u32 VmcsControl64.EPTP_LIST_ADDR = 0x2024"
| "VmcsControl64_as_u32 VmcsControl64.VMREAD_BITMAP_ADDR = 0x2026"
| "VmcsControl64_as_u32 VmcsControl64.VMWRITE_BITMAP_ADDR = 0x2028"
| "VmcsControl64_as_u32 VmcsControl64.VIRT_EXCEPTION_INFO_ADDR = 0x202A"
| "VmcsControl64_as_u32 VmcsControl64.XSS_EXITING_BITMAP = 0x202C"
| "VmcsControl64_as_u32 VmcsControl64.ENCLS_EXITING_BITMAP = 0x202E"
| "VmcsControl64_as_u32 VmcsControl64.SUBPAGE_PERM_TABLE_PTR = 0x2030"
| "VmcsControl64_as_u32 VmcsControl64.TSC_MULTIPLIER = 0x2032"

datatype (plugins only: size) VmcsControl32 =
    PINBASED_EXEC_CONTROLS | PRIMARY_PROCBASED_EXEC_CONTROLS | EXCEPTION_BITMAP | PAGE_FAULT_ERR_CODE_MASK
    | PAGE_FAULT_ERR_CODE_MATCH | CR3_TARGET_COUNT | VMEXIT_CONTROLS | VMEXIT_MSR_STORE_COUNT
    | VMEXIT_MSR_LOAD_COUNT | VMENTRY_CONTROLS | VMENTRY_MSR_LOAD_COUNT | VMENTRY_INTERRUPTION_INFO_FIELD
    | VMENTRY_EXCEPTION_ERR_CODE | VMENTRY_INSTRUCTION_LEN | TPR_THRESHOLD
    | SECONDARY_PROCBASED_EXEC_CONTROLS | PLE_GAP | PLE_WINDOW

primrec VmcsControl32_as_u32 :: "VmcsControl32 \<Rightarrow> u32" where
  "VmcsControl32_as_u32 VmcsControl32.PINBASED_EXEC_CONTROLS = 0x4000"
| "VmcsControl32_as_u32 VmcsControl32.PRIMARY_PROCBASED_EXEC_CONTROLS = 0x4002"
| "VmcsControl32_as_u32 VmcsControl32.EXCEPTION_BITMAP = 0x4004"
| "VmcsControl32_as_u32 VmcsControl32.PAGE_FAULT_ERR_CODE_MASK = 0x4006"
| "VmcsControl32_as_u32 VmcsControl32.PAGE_FAULT_ERR_CODE_MATCH = 0x4008"
| "VmcsControl32_as_u32 VmcsControl32.CR3_TARGET_COUNT = 0x400A"
| "VmcsControl32_as_u32 VmcsControl32.VMEXIT_CONTROLS = 0x400C"
| "VmcsControl32_as_u32 VmcsControl32.VMEXIT_MSR_STORE_COUNT = 0x400E"
| "VmcsControl32_as_u32 VmcsControl32.VMEXIT_MSR_LOAD_COUNT = 0x4010"
| "VmcsControl32_as_u32 VmcsControl32.VMENTRY_CONTROLS = 0x4012"
| "VmcsControl32_as_u32 VmcsControl32.VMENTRY_MSR_LOAD_COUNT = 0x4014"
| "VmcsControl32_as_u32 VmcsControl32.VMENTRY_INTERRUPTION_INFO_FIELD = 0x4016"
| "VmcsControl32_as_u32 VmcsControl32.VMENTRY_EXCEPTION_ERR_CODE = 0x4018"
| "VmcsControl32_as_u32 VmcsControl32.VMENTRY_INSTRUCTION_LEN = 0x401A"
| "VmcsControl32_as_u32 VmcsControl32.TPR_THRESHOLD = 0x401C"
| "VmcsControl32_as_u32 VmcsControl32.SECONDARY_PROCBASED_EXEC_CONTROLS = 0x401E"
| "VmcsControl32_as_u32 VmcsControl32.PLE_GAP = 0x4020"
| "VmcsControl32_as_u32 VmcsControl32.PLE_WINDOW = 0x4022"

datatype VmcsControlNW =
    CR0_GUEST_HOST_MASK | CR4_GUEST_HOST_MASK | CR0_READ_SHADOW | CR4_READ_SHADOW | CR3_TARGET_VALUE0
    | CR3_TARGET_VALUE1 | CR3_TARGET_VALUE2 | CR3_TARGET_VALUE3

primrec VmcsControlNW_as_u32 :: "VmcsControlNW \<Rightarrow> u32" where
  "VmcsControlNW_as_u32 VmcsControlNW.CR0_GUEST_HOST_MASK = 0x6000"
| "VmcsControlNW_as_u32 VmcsControlNW.CR4_GUEST_HOST_MASK = 0x6002"
| "VmcsControlNW_as_u32 VmcsControlNW.CR0_READ_SHADOW = 0x6004"
| "VmcsControlNW_as_u32 VmcsControlNW.CR4_READ_SHADOW = 0x6006"
| "VmcsControlNW_as_u32 VmcsControlNW.CR3_TARGET_VALUE0 = 0x6008"
| "VmcsControlNW_as_u32 VmcsControlNW.CR3_TARGET_VALUE1 = 0x600A"
| "VmcsControlNW_as_u32 VmcsControlNW.CR3_TARGET_VALUE2 = 0x600C"
| "VmcsControlNW_as_u32 VmcsControlNW.CR3_TARGET_VALUE3 = 0x600E"

datatype (plugins only: size) VmcsGuest16 =
    ES_SELECTOR | CS_SELECTOR | SS_SELECTOR | DS_SELECTOR | FS_SELECTOR | GS_SELECTOR | LDTR_SELECTOR
    | TR_SELECTOR | INTERRUPT_STATUS | PML_INDEX

primrec VmcsGuest16_as_u32 :: "VmcsGuest16 \<Rightarrow> u32" where
  "VmcsGuest16_as_u32 VmcsGuest16.ES_SELECTOR = 0x800"
| "VmcsGuest16_as_u32 VmcsGuest16.CS_SELECTOR = 0x802"
| "VmcsGuest16_as_u32 VmcsGuest16.SS_SELECTOR = 0x804"
| "VmcsGuest16_as_u32 VmcsGuest16.DS_SELECTOR = 0x806"
| "VmcsGuest16_as_u32 VmcsGuest16.FS_SELECTOR = 0x808"
| "VmcsGuest16_as_u32 VmcsGuest16.GS_SELECTOR = 0x80a"
| "VmcsGuest16_as_u32 VmcsGuest16.LDTR_SELECTOR = 0x80c"
| "VmcsGuest16_as_u32 VmcsGuest16.TR_SELECTOR = 0x80e"
| "VmcsGuest16_as_u32 VmcsGuest16.INTERRUPT_STATUS = 0x810"
| "VmcsGuest16_as_u32 VmcsGuest16.PML_INDEX = 0x812"

datatype (plugins only: size) VmcsGuest64 =
    LINK_PTR | IA32_DEBUGCTL | IA32_PAT | IA32_EFER | IA32_PERF_GLOBAL_CTRL | PDPTE0 | PDPTE1 | PDPTE2
    | PDPTE3 | IA32_BNDCFGS | IA32_RTIT_CTL

primrec VmcsGuest64_as_u32 :: "VmcsGuest64 \<Rightarrow> u32" where
  "VmcsGuest64_as_u32 VmcsGuest64.LINK_PTR = 0x2800"
| "VmcsGuest64_as_u32 VmcsGuest64.IA32_DEBUGCTL = 0x2802"
| "VmcsGuest64_as_u32 VmcsGuest64.IA32_PAT = 0x2804"
| "VmcsGuest64_as_u32 VmcsGuest64.IA32_EFER = 0x2806"
| "VmcsGuest64_as_u32 VmcsGuest64.IA32_PERF_GLOBAL_CTRL = 0x2808"
| "VmcsGuest64_as_u32 VmcsGuest64.PDPTE0 = 0x280A"
| "VmcsGuest64_as_u32 VmcsGuest64.PDPTE1 = 0x280C"
| "VmcsGuest64_as_u32 VmcsGuest64.PDPTE2 = 0x280E"
| "VmcsGuest64_as_u32 VmcsGuest64.PDPTE3 = 0x2810"
| "VmcsGuest64_as_u32 VmcsGuest64.IA32_BNDCFGS = 0x2812"
| "VmcsGuest64_as_u32 VmcsGuest64.IA32_RTIT_CTL = 0x2814"

datatype (plugins only: size) VmcsGuest32 =
    ES_LIMIT | CS_LIMIT | SS_LIMIT | DS_LIMIT | FS_LIMIT | GS_LIMIT | LDTR_LIMIT | TR_LIMIT | GDTR_LIMIT
    | IDTR_LIMIT | ES_ACCESS_RIGHTS | CS_ACCESS_RIGHTS | SS_ACCESS_RIGHTS | DS_ACCESS_RIGHTS
    | FS_ACCESS_RIGHTS | GS_ACCESS_RIGHTS | LDTR_ACCESS_RIGHTS | TR_ACCESS_RIGHTS | INTERRUPTIBILITY_STATE
    | ACTIVITY_STATE | SMBASE | IA32_SYSENTER_CS | VMX_PREEMPTION_TIMER_VALUE

primrec VmcsGuest32_as_u32 :: "VmcsGuest32 \<Rightarrow> u32" where
  "VmcsGuest32_as_u32 VmcsGuest32.ES_LIMIT = 0x4800"
| "VmcsGuest32_as_u32 VmcsGuest32.CS_LIMIT = 0x4802"
| "VmcsGuest32_as_u32 VmcsGuest32.SS_LIMIT = 0x4804"
| "VmcsGuest32_as_u32 VmcsGuest32.DS_LIMIT = 0x4806"
| "VmcsGuest32_as_u32 VmcsGuest32.FS_LIMIT = 0x4808"
| "VmcsGuest32_as_u32 VmcsGuest32.GS_LIMIT = 0x480A"
| "VmcsGuest32_as_u32 VmcsGuest32.LDTR_LIMIT = 0x480C"
| "VmcsGuest32_as_u32 VmcsGuest32.TR_LIMIT = 0x480E"
| "VmcsGuest32_as_u32 VmcsGuest32.GDTR_LIMIT = 0x4810"
| "VmcsGuest32_as_u32 VmcsGuest32.IDTR_LIMIT = 0x4812"
| "VmcsGuest32_as_u32 VmcsGuest32.ES_ACCESS_RIGHTS = 0x4814"
| "VmcsGuest32_as_u32 VmcsGuest32.CS_ACCESS_RIGHTS = 0x4816"
| "VmcsGuest32_as_u32 VmcsGuest32.SS_ACCESS_RIGHTS = 0x4818"
| "VmcsGuest32_as_u32 VmcsGuest32.DS_ACCESS_RIGHTS = 0x481A"
| "VmcsGuest32_as_u32 VmcsGuest32.FS_ACCESS_RIGHTS = 0x481C"
| "VmcsGuest32_as_u32 VmcsGuest32.GS_ACCESS_RIGHTS = 0x481E"
| "VmcsGuest32_as_u32 VmcsGuest32.LDTR_ACCESS_RIGHTS = 0x4820"
| "VmcsGuest32_as_u32 VmcsGuest32.TR_ACCESS_RIGHTS = 0x4822"
| "VmcsGuest32_as_u32 VmcsGuest32.INTERRUPTIBILITY_STATE = 0x4824"
| "VmcsGuest32_as_u32 VmcsGuest32.ACTIVITY_STATE = 0x4826"
| "VmcsGuest32_as_u32 VmcsGuest32.SMBASE = 0x4828"
| "VmcsGuest32_as_u32 VmcsGuest32.IA32_SYSENTER_CS = 0x482A"
| "VmcsGuest32_as_u32 VmcsGuest32.VMX_PREEMPTION_TIMER_VALUE = 0x482E"

datatype (plugins only: size) VmcsGuestNW =
    CR0 | CR3 | CR4 | ES_BASE | CS_BASE | SS_BASE | DS_BASE | FS_BASE | GS_BASE | LDTR_BASE | TR_BASE
    | GDTR_BASE | IDTR_BASE | DR7 | RSP | RIP | RFLAGS | PENDING_DBG_EXCEPTIONS | IA32_SYSENTER_ESP
    | IA32_SYSENTER_EIP

primrec VmcsGuestNW_as_u32 :: "VmcsGuestNW \<Rightarrow> u32" where
  "VmcsGuestNW_as_u32 VmcsGuestNW.CR0 = 0x6800"
| "VmcsGuestNW_as_u32 VmcsGuestNW.CR3 = 0x6802"
| "VmcsGuestNW_as_u32 VmcsGuestNW.CR4 = 0x6804"
| "VmcsGuestNW_as_u32 VmcsGuestNW.ES_BASE = 0x6806"
| "VmcsGuestNW_as_u32 VmcsGuestNW.CS_BASE = 0x6808"
| "VmcsGuestNW_as_u32 VmcsGuestNW.SS_BASE = 0x680A"
| "VmcsGuestNW_as_u32 VmcsGuestNW.DS_BASE = 0x680C"
| "VmcsGuestNW_as_u32 VmcsGuestNW.FS_BASE = 0x680E"
| "VmcsGuestNW_as_u32 VmcsGuestNW.GS_BASE = 0x6810"
| "VmcsGuestNW_as_u32 VmcsGuestNW.LDTR_BASE = 0x6812"
| "VmcsGuestNW_as_u32 VmcsGuestNW.TR_BASE = 0x6814"
| "VmcsGuestNW_as_u32 VmcsGuestNW.GDTR_BASE = 0x6816"
| "VmcsGuestNW_as_u32 VmcsGuestNW.IDTR_BASE = 0x6818"
| "VmcsGuestNW_as_u32 VmcsGuestNW.DR7 = 0x681A"
| "VmcsGuestNW_as_u32 VmcsGuestNW.RSP = 0x681C"
| "VmcsGuestNW_as_u32 VmcsGuestNW.RIP = 0x681E"
| "VmcsGuestNW_as_u32 VmcsGuestNW.RFLAGS = 0x6820"
| "VmcsGuestNW_as_u32 VmcsGuestNW.PENDING_DBG_EXCEPTIONS = 0x6822"
| "VmcsGuestNW_as_u32 VmcsGuestNW.IA32_SYSENTER_ESP = 0x6824"
| "VmcsGuestNW_as_u32 VmcsGuestNW.IA32_SYSENTER_EIP = 0x6826"

datatype VmcsHost16 =
    ES_SELECTOR | CS_SELECTOR | SS_SELECTOR | DS_SELECTOR | FS_SELECTOR | GS_SELECTOR | TR_SELECTOR

primrec VmcsHost16_as_u32 :: "VmcsHost16 \<Rightarrow> u32" where
  "VmcsHost16_as_u32 VmcsHost16.ES_SELECTOR = 0xC00"
| "VmcsHost16_as_u32 VmcsHost16.CS_SELECTOR = 0xC02"
| "VmcsHost16_as_u32 VmcsHost16.SS_SELECTOR = 0xC04"
| "VmcsHost16_as_u32 VmcsHost16.DS_SELECTOR = 0xC06"
| "VmcsHost16_as_u32 VmcsHost16.FS_SELECTOR = 0xC08"
| "VmcsHost16_as_u32 VmcsHost16.GS_SELECTOR = 0xC0A"
| "VmcsHost16_as_u32 VmcsHost16.TR_SELECTOR = 0xC0C"

datatype VmcsHost64 =
    IA32_PAT | IA32_EFER | IA32_PERF_GLOBAL_CTRL

primrec VmcsHost64_as_u32 :: "VmcsHost64 \<Rightarrow> u32" where
  "VmcsHost64_as_u32 VmcsHost64.IA32_PAT = 0x2C00"
| "VmcsHost64_as_u32 VmcsHost64.IA32_EFER = 0x2C02"
| "VmcsHost64_as_u32 VmcsHost64.IA32_PERF_GLOBAL_CTRL = 0x2C04"

datatype VmcsHost32 =
    IA32_SYSENTER_CS

primrec VmcsHost32_as_u32 :: "VmcsHost32 \<Rightarrow> u32" where
  "VmcsHost32_as_u32 VmcsHost32.IA32_SYSENTER_CS = 0x4C00"

datatype (plugins only: size) VmcsHostNW =
    CR0 | CR3 | CR4 | FS_BASE | GS_BASE | TR_BASE | GDTR_BASE | IDTR_BASE | IA32_SYSENTER_ESP
    | IA32_SYSENTER_EIP | RSP | RIP

primrec VmcsHostNW_as_u32 :: "VmcsHostNW \<Rightarrow> u32" where
  "VmcsHostNW_as_u32 VmcsHostNW.CR0 = 0x6C00"
| "VmcsHostNW_as_u32 VmcsHostNW.CR3 = 0x6C02"
| "VmcsHostNW_as_u32 VmcsHostNW.CR4 = 0x6C04"
| "VmcsHostNW_as_u32 VmcsHostNW.FS_BASE = 0x6C06"
| "VmcsHostNW_as_u32 VmcsHostNW.GS_BASE = 0x6C08"
| "VmcsHostNW_as_u32 VmcsHostNW.TR_BASE = 0x6C0A"
| "VmcsHostNW_as_u32 VmcsHostNW.GDTR_BASE = 0x6C0C"
| "VmcsHostNW_as_u32 VmcsHostNW.IDTR_BASE = 0x6C0E"
| "VmcsHostNW_as_u32 VmcsHostNW.IA32_SYSENTER_ESP = 0x6C10"
| "VmcsHostNW_as_u32 VmcsHostNW.IA32_SYSENTER_EIP = 0x6C12"
| "VmcsHostNW_as_u32 VmcsHostNW.RSP = 0x6C14"
| "VmcsHostNW_as_u32 VmcsHostNW.RIP = 0x6C16"

datatype VmcsReadOnly64 =
    GUEST_PHYSICAL_ADDR

primrec VmcsReadOnly64_as_u32 :: "VmcsReadOnly64 \<Rightarrow> u32" where
  "VmcsReadOnly64_as_u32 VmcsReadOnly64.GUEST_PHYSICAL_ADDR = 0x2400"

datatype VmcsReadOnly32 =
    VM_INSTRUCTION_ERROR | EXIT_REASON | VMEXIT_INTERRUPTION_INFO | VMEXIT_INTERRUPTION_ERR_CODE
    | IDT_VECTORING_INFO | IDT_VECTORING_ERR_CODE | VMEXIT_INSTRUCTION_LEN | VMEXIT_INSTRUCTION_INFO

primrec VmcsReadOnly32_as_u32 :: "VmcsReadOnly32 \<Rightarrow> u32" where
  "VmcsReadOnly32_as_u32 VmcsReadOnly32.VM_INSTRUCTION_ERROR = 0x4400"
| "VmcsReadOnly32_as_u32 VmcsReadOnly32.EXIT_REASON = 0x4402"
| "VmcsReadOnly32_as_u32 VmcsReadOnly32.VMEXIT_INTERRUPTION_INFO = 0x4404"
| "VmcsReadOnly32_as_u32 VmcsReadOnly32.VMEXIT_INTERRUPTION_ERR_CODE = 0x4406"
| "VmcsReadOnly32_as_u32 VmcsReadOnly32.IDT_VECTORING_INFO = 0x4408"
| "VmcsReadOnly32_as_u32 VmcsReadOnly32.IDT_VECTORING_ERR_CODE = 0x440A"
| "VmcsReadOnly32_as_u32 VmcsReadOnly32.VMEXIT_INSTRUCTION_LEN = 0x440C"
| "VmcsReadOnly32_as_u32 VmcsReadOnly32.VMEXIT_INSTRUCTION_INFO = 0x440E"

datatype VmcsReadOnlyNW =
    EXIT_QUALIFICATION | IO_RCX | IO_RSI | IO_RDI | IO_RIP | GUEST_LINEAR_ADDR

primrec VmcsReadOnlyNW_as_u32 :: "VmcsReadOnlyNW \<Rightarrow> u32" where
  "VmcsReadOnlyNW_as_u32 VmcsReadOnlyNW.EXIT_QUALIFICATION = 0x6400"
| "VmcsReadOnlyNW_as_u32 VmcsReadOnlyNW.IO_RCX = 0x6402"
| "VmcsReadOnlyNW_as_u32 VmcsReadOnlyNW.IO_RSI = 0x6404"
| "VmcsReadOnlyNW_as_u32 VmcsReadOnlyNW.IO_RDI = 0x6406"
| "VmcsReadOnlyNW_as_u32 VmcsReadOnlyNW.IO_RIP = 0x6408"
| "VmcsReadOnlyNW_as_u32 VmcsReadOnlyNW.GUEST_LINEAR_ADDR = 0x640A"

datatype vmcs_field =
    Control16 VmcsControl16
  | Control64 VmcsControl64
  | Control32 VmcsControl32
  | ControlNW VmcsControlNW
  | Guest16 VmcsGuest16
  | Guest64 VmcsGuest64
  | Guest32 VmcsGuest32
  | GuestNW VmcsGuestNW
  | Host16 VmcsHost16
  | Host64 VmcsHost64
  | Host32 VmcsHost32
  | HostNW VmcsHostNW
  | ReadOnly64 VmcsReadOnly64
  | ReadOnly32 VmcsReadOnly32
  | ReadOnlyNW VmcsReadOnlyNW

primrec as_u32 :: "vmcs_field \<Rightarrow> u32" where
  "as_u32 (Control16 f) = VmcsControl16_as_u32 f"
| "as_u32 (Control64 f) = VmcsControl64_as_u32 f"
| "as_u32 (Control32 f) = VmcsControl32_as_u32 f"
| "as_u32 (ControlNW f) = VmcsControlNW_as_u32 f"
| "as_u32 (Guest16 f) = VmcsGuest16_as_u32 f"
| "as_u32 (Guest64 f) = VmcsGuest64_as_u32 f"
| "as_u32 (Guest32 f) = VmcsGuest32_as_u32 f"
| "as_u32 (GuestNW f) = VmcsGuestNW_as_u32 f"
| "as_u32 (Host16 f) = VmcsHost16_as_u32 f"
| "as_u32 (Host64 f) = VmcsHost64_as_u32 f"
| "as_u32 (Host32 f) = VmcsHost32_as_u32 f"
| "as_u32 (HostNW f) = VmcsHostNW_as_u32 f"
| "as_u32 (ReadOnly64 f) = VmcsReadOnly64_as_u32 f"
| "as_u32 (ReadOnly32 f) = VmcsReadOnly32_as_u32 f"
| "as_u32 (ReadOnlyNW f) = VmcsReadOnlyNW_as_u32 f"

primrec accessor_bits :: "vmcs_field \<Rightarrow> nat" where
  "accessor_bits (Control16 _) = 16"
| "accessor_bits (Control64 _) = 64"
| "accessor_bits (Control32 _) = 32"
| "accessor_bits (ControlNW _) = 64"
| "accessor_bits (Guest16 _) = 16"
| "accessor_bits (Guest64 _) = 64"
| "accessor_bits (Guest32 _) = 32"
| "accessor_bits (GuestNW _) = 64"
| "accessor_bits (Host16 _) = 16"
| "accessor_bits (Host64 _) = 64"
| "accessor_bits (Host32 _) = 32"
| "accessor_bits (HostNW _) = 64"
| "accessor_bits (ReadOnly64 _) = 64"
| "accessor_bits (ReadOnly32 _) = 32"
| "accessor_bits (ReadOnlyNW _) = 64"

section \<open>Model-specific registers\<close>

datatype (plugins only: size) Msr =
    IA32_FEATURE_CONTROL | IA32_PAT | IA32_VMX_BASIC | IA32_VMX_PINBASED_CTLS | IA32_VMX_PROCBASED_CTLS
    | IA32_VMX_EXIT_CTLS | IA32_VMX_ENTRY_CTLS | IA32_VMX_MISC | IA32_VMX_CR0_FIXED0 | IA32_VMX_CR0_FIXED1
    | IA32_VMX_CR4_FIXED0 | IA32_VMX_CR4_FIXED1 | IA32_VMX_PROCBASED_CTLS2 | IA32_VMX_EPT_VPID_CAP
    | IA32_VMX_TRUE_PINBASED_CTLS | IA32_VMX_TRUE_PROCBASED_CTLS | IA32_VMX_TRUE_EXIT_CTLS
    | IA32_VMX_TRUE_ENTRY_CTLS | IA32_EFER | IA32_STAR | IA32_LSTAR | IA32_CSTAR | IA32_FMASK | IA32_FS_BASE
    | IA32_GS_BASE | IA32_KERNEL_GSBASE

primrec msr_as_u32 :: "Msr \<Rightarrow> u32" where
  "msr_as_u32 Msr.IA32_FEATURE_CONTROL = 0x3a"
| "msr_as_u32 Msr.IA32_PAT = 0x277"
| "msr_as_u32 Msr.IA32_VMX_BASIC = 0x480"
| "msr_as_u32 Msr.IA32_VMX_PINBASED_CTLS = 0x481"
| "msr_as_u32 Msr.IA32_VMX_PROCBASED_CTLS = 0x482"
| "msr_as_u32 Msr.IA32_VMX_EXIT_CTLS = 0x483"
| "msr_as_u32 Msr.IA32_VMX_ENTRY_CTLS = 0x484"
| "msr_as_u32 Msr.IA32_VMX_MISC = 0x485"
| "msr_as_u32 Msr.IA32_VMX_CR0_FIXED0 = 0x486"
| "msr_as_u32 Msr.IA32_VMX_CR0_FIXED1 = 0x487"
| "msr_as_u32 Msr.IA32_VMX_CR4_FIXED0 = 0x488"
| "msr_as_u32 Msr.IA32_VMX_CR4_FIXED1 = 0x489"
| "msr_as_u32 Msr.IA32_VMX_PROCBASED_CTLS2 = 0x48b"
| "msr_as_u32 Msr.IA32_VMX_EPT_VPID_CAP = 0x48c"
| "msr_as_u32 Msr.IA32_VMX_TRUE_PINBASED_CTLS = 0x48d"
| "msr_as_u32 Msr.IA32_VMX_TRUE_PROCBASED_CTLS = 0x48e"
| "msr_as_u32 Msr.IA32_VMX_TRUE_EXIT_CTLS = 0x48f"
| "msr_as_u32 Msr.IA32_VMX_TRUE_ENTRY_CTLS = 0x490"
| "msr_as_u32 Msr.IA32_EFER = 0xc0000080"
| "msr_as_u32 Msr.IA32_STAR = 0xc0000081"
| "msr_as_u32 Msr.IA32_LSTAR = 0xc0000082"
| "msr_as_u32 Msr.IA32_CSTAR = 0xc0000083"
| "msr_as_u32 Msr.IA32_FMASK = 0xc0000084"
| "msr_as_u32 Msr.IA32_FS_BASE = 0xc0000100"
| "msr_as_u32 Msr.IA32_GS_BASE = 0xc0000101"
| "msr_as_u32 Msr.IA32_KERNEL_GSBASE = 0xc0000102"

section \<open>Exit reasons\<close>

datatype (plugins only: size) VmxExitReason =
    EXCEPTION_NMI | EXTERNAL_INTERRUPT | TRIPLE_FAULT | INIT | SIPI | SMI | OTHER_SMI | INTERRUPT_WINDOW
    | NMI_WINDOW | TASK_SWITCH | CPUID | GETSEC | HLT | INVD | INVLPG | RDPMC | RDTSC | RSM | VMCALL
    | VMCLEAR | VMLAUNCH | VMPTRLD | VMPTRST | VMREAD | VMRESUME | VMWRITE | VMOFF | VMON | CR_ACCESS
    | DR_ACCESS | IO_INSTRUCTION | MSR_READ | MSR_WRITE | INVALID_GUEST_STATE | MSR_LOAD_FAIL
    | MWAIT_INSTRUCTION | MONITOR_TRAP_FLAG | MONITOR_INSTRUCTION | PAUSE_INSTRUCTION | MCE_DURING_VMENTRY
    | TPR_BELOW_THRESHOLD | APIC_ACCESS | VIRTUALIZED_EOI | GDTR_IDTR | LDTR_TR | EPT_VIOLATION
    | EPT_MISCONFIG | INVEPT | RDTSCP | PREEMPTION_TIMER | INVVPID | WBINVD | XSETBV | APIC_WRITE | RDRAND
    | INVPCID | VMFUNC | ENCLS | RDSEED | PML_FULL | XSAVES | XRSTORS | PCONFIG | SPP_EVENT | UMWAIT
    | TPAUSE | LOADIWKEY

primrec exit_reason_as_u32 :: "VmxExitReason \<Rightarrow> u32" where
  "exit_reason_as_u32 VmxExitReason.EXCEPTION_NMI = 0"
| "exit_reason_as_u32 VmxExitReason.EXTERNAL_INTERRUPT = 1"
| "exit_reason_as_u32 VmxExitReason.TRIPLE_FAULT = 2"
| "exit_reason_as_u32 VmxExitReason.INIT = 3"
| "exit_reason_as_u32 VmxExitReason.SIPI = 4"
| "exit_reason_as_u32 VmxExitReason.SMI = 5"
| "exit_reason_as_u32 VmxExitReason.OTHER_SMI = 6"
| "exit_reason_as_u32 VmxExitReason.INTERRUPT_WINDOW = 7"
| "exit_reason_as_u32 VmxExitReason.NMI_WINDOW = 8"
| "exit_reason_as_u32 VmxExitReason.TASK_SWITCH = 9"
| "exit_reason_as_u32 VmxExitReason.CPUID = 10"
| "exit_reason_as_u32 VmxExitReason.GETSEC = 11"
| "exit_reason_as_u32 VmxExitReason.HLT = 12"
| "exit_reason_as_u32 VmxExitReason.INVD = 13"
| "exit_reason_as_u32 VmxExitReason.INVLPG = 14"
| "exit_reason_as_u32 VmxExitReason.RDPMC = 15"
| "exit_reason_as_u32 VmxExitReason.RDTSC = 16"
| "exit_reason_as_u32 VmxExitReason.RSM = 17"
| "exit_reason_as_u32 VmxExitReason.VMCALL = 18"
| "exit_reason_as_u32 VmxExitReason.VMCLEAR = 19"
| "exit_reason_as_u32 VmxExitReason.VMLAUNCH = 20"
| "exit_reason_as_u32 VmxExitReason.VMPTRLD = 21"
| "exit_reason_as_u32 VmxExitReason.VMPTRST = 22"
| "exit_reason_as_u32 VmxExitReason.VMREAD = 23"
| "exit_reason_as_u32 VmxExitReason.VMRESUME = 24"
| "exit_reason_as_u32 VmxExitReason.VMWRITE = 25"
| "exit_reason_as_u32 VmxExitReason.VMOFF = 26"
| "exit_reason_as_u32 VmxExitReason.VMON = 27"
| "exit_reason_as_u32 VmxExitReason.CR_ACCESS = 28"
| "exit_reason_as_u32 VmxExitReason.DR_ACCESS = 29"
| "exit_reason_as_u32 VmxExitReason.IO_INSTRUCTION = 30"
| "exit_reason_as_u32 VmxExitReason.MSR_READ = 31"
| "exit_reason_as_u32 VmxExitReason.MSR_WRITE = 32"
| "exit_reason_as_u32 VmxExitReason.INVALID_GUEST_STATE = 33"
| "exit_reason_as_u32 VmxExitReason.MSR_LOAD_FAIL = 34"
| "exit_reason_as_u32 VmxExitReason.MWAIT_INSTRUCTION = 36"
| "exit_reason_as_u32 VmxExitReason.MONITOR_TRAP_FLAG = 37"
| "exit_reason_as_u32 VmxExitReason.MONITOR_INSTRUCTION = 39"
| "exit_reason_as_u32 VmxExitReason.PAUSE_INSTRUCTION = 40"
| "exit_reason_as_u32 VmxExitReason.MCE_DURING_VMENTRY = 41"
| "exit_reason_as_u32 VmxExitReason.TPR_BELOW_THRESHOLD = 43"
| "exit_reason_as_u32 VmxExitReason.APIC_ACCESS = 44"
| "exit_reason_as_u32 VmxExitReason.VIRTUALIZED_EOI = 45"
| "exit_reason_as_u32 VmxExitReason.GDTR_IDTR = 46"
| "exit_reason_as_u32 VmxExitReason.LDTR_TR = 47"
| "exit_reason_as_u32 VmxExitReason.EPT_VIOLATION = 48"
| "exit_reason_as_u32 VmxExitReason.EPT_MISCONFIG = 49"
| "exit_reason_as_u32 VmxExitReason.INVEPT = 50"
| "exit_reason_as_u32 VmxExitReason.RDTSCP = 51"
| "exit_reason_as_u32 VmxExitReason.PREEMPTION_TIMER = 52"
| "exit_reason_as_u32 VmxExitReason.INVVPID = 53"
| "exit_reason_as_u32 VmxExitReason.WBINVD = 54"
| "exit_reason_as_u32 VmxExitReason.XSETBV = 55"
| "exit_reason_as_u32 VmxExitReason.APIC_WRITE = 56"
| "exit_reason_as_u32 VmxExitReason.RDRAND = 57"
| "exit_reason_as_u32 VmxExitReason.INVPCID = 58"
| "exit_reason_as_u32 VmxExitReason.VMFUNC = 59"
| "exit_reason_as_u32 VmxExitReason.ENCLS = 60"
| "exit_reason_as_u32 VmxExitReason.RDSEED = 61"
| "exit_reason_as_u32 VmxExitReason.PML_FULL = 62"
| "exit_reason_as_u32 VmxExitReason.XSAVES = 63"
| "exit_reason_as_u32 VmxExitReason.XRSTORS = 64"
| "exit_reason_as_u32 VmxExitReason.PCONFIG = 65"
| "exit_reason_as_u32 VmxExitReason.SPP_EVENT = 66"
| "exit_reason_as_u32 VmxExitReason.UMWAIT = 67"
| "exit_reason_as_u32 VmxExitReason.TPAUSE = 68"
| "exit_reason_as_u32 VmxExitReason.LOADIWKEY = 69"

definition all_exit_reasons :: "VmxExitReason list" where
  "all_exit_reasons =
    [VmxExitReason.EXCEPTION_NMI, VmxExitReason.EXTERNAL_INTERRUPT, VmxExitReason.TRIPLE_FAULT
     , VmxExitReason.INIT, VmxExitReason.SIPI, VmxExitReason.SMI, VmxExitReason.OTHER_SMI
     , VmxExitReason.INTERRUPT_WINDOW, VmxExitReason.NMI_WINDOW, VmxExitReason.TASK_SWITCH
     , VmxExitReason.CPUID, VmxExitReason.GETSEC, VmxExitReason.HLT, VmxExitReason.INVD
     , VmxExitReason.INVLPG, VmxExitReason.RDPMC, VmxExitReason.RDTSC, VmxExitReason.RSM
     , VmxExitReason.VMCALL, VmxExitReason.VMCLEAR, VmxExitReason.VMLAUNCH, VmxExitReason.VMPTRLD
     , VmxExitReason.VMPTRST, VmxExitReason.VMREAD, VmxExitReason.VMRESUME, VmxExitReason.VMWRITE
     , VmxExitReason.VMOFF, VmxExitReason.VMON, VmxExitReason.CR_ACCESS, VmxExitReason.DR_ACCESS
     , VmxExitReason.IO_INSTRUCTION, VmxExitReason.MSR_READ, VmxExitReason.MSR_WRITE
     , VmxExitReason.INVALID_GUEST_STATE, VmxExitReason.MSR_LOAD_FAIL, VmxExitReason.MWAIT_INSTRUCTION
     , VmxExitReason.MONITOR_TRAP_FLAG, VmxExitReason.MONITOR_INSTRUCTION, VmxExitReason.PAUSE_INSTRUCTION
     , VmxExitReason.MCE_DURING_VMENTRY, VmxExitReason.TPR_BELOW_THRESHOLD, VmxExitReason.APIC_ACCESS
     , VmxExitReason.VIRTUALIZED_EOI, VmxExitReason.GDTR_IDTR, VmxExitReason.LDTR_TR
     , VmxExitReason.EPT_VIOLATION, VmxExitReason.EPT_MISCONFIG, VmxExitReason.INVEPT, VmxExitReason.RDTSCP
     , VmxExitReason.PREEMPTION_TIMER, VmxExitReason.INVVPID, VmxExitReason.WBINVD, VmxExitReason.XSETBV
     , VmxExitReason.APIC_WRITE, VmxExitReason.RDRAND, VmxExitReason.INVPCID, VmxExitReason.VMFUNC
     , VmxExitReason.ENCLS, VmxExitReason.RDSEED, VmxExitReason.PML_FULL, VmxExitReason.XSAVES
     , VmxExitReason.XRSTORS, VmxExitReason.PCONFIG, VmxExitReason.SPP_EVENT, VmxExitReason.UMWAIT
     , VmxExitReason.TPAUSE, VmxExitReason.LOADIWKEY]"

text \<open>\<open>TryFrom<u32>\<close>, which the macro \<open>numeric_enum\<close> derives.\<close>

definition exit_reason_try_from :: "u32 \<Rightarrow> u32 + VmxExitReason" where
  "exit_reason_try_from v = (case find (\<lambda>r. exit_reason_as_u32 r = v) all_exit_reasons of
     Some r \<Rightarrow> Inr r
   | None \<Rightarrow> Inl v)"

section \<open>Interruption types\<close>

datatype VmxInterruptionType =
    External | Reserved | NMI | HardException | SoftIntr | PrivSoftException | SoftException | Other

primrec int_type_as_u8 :: "VmxInterruptionType \<Rightarrow> u8" where
  "int_type_as_u8 External = 0"
| "int_type_as_u8 Reserved = 1"
| "int_type_as_u8 NMI = 2"
| "int_type_as_u8 HardException = 3"
| "int_type_as_u8 SoftIntr = 4"
| "int_type_as_u8 PrivSoftException = 5"
| "int_type_as_u8 SoftException = 6"
| "int_type_as_u8 Other = 7"

definition int_type_try_from :: "u8 \<Rightarrow> u8 + VmxInterruptionType" where
  "int_type_try_from v = (case find (\<lambda>t. int_type_as_u8 t = v)
       [External, Reserved, NMI, HardException, SoftIntr, PrivSoftException, SoftException, Other] of
     Some t \<Rightarrow> Inr t
   | None \<Rightarrow> Inl v)"

text \<open>The vector numbers are constants of the crate \<open>x86\<close>; \<open>sdm_vectors\<close> states the numbers that
  the architecture gives them.\<close>

record irq_vectors =
  DEBUG_VECTOR :: u8
  NONMASKABLE_INTERRUPT_VECTOR :: u8
  BREAKPOINT_VECTOR :: u8
  OVERFLOW_VECTOR :: u8
  DOUBLE_FAULT_VECTOR :: u8
  INVALID_TSS_VECTOR :: u8
  SEGMENT_NOT_PRESENT_VECTOR :: u8
  STACK_SEGEMENT_FAULT_VECTOR :: u8
  GENERAL_PROTECTION_FAULT_VECTOR :: u8
  PAGE_FAULT_VECTOR :: u8
  ALIGNMENT_CHECK_VECTOR :: u8
  VIRTUALIZATION_VECTOR :: u8

definition vector_has_error_code :: "irq_vectors \<Rightarrow> u8 \<Rightarrow> bool" where
  "vector_has_error_code V vector \<longleftrightarrow>
     vector = DOUBLE_FAULT_VECTOR V \<or> vector = INVALID_TSS_VECTOR V \<or> vector = SEGMENT_NOT_PRESENT_VECTOR V \<or>
     vector = STACK_SEGEMENT_FAULT_VECTOR V \<or> vector = GENERAL_PROTECTION_FAULT_VECTOR V \<or>
     vector = PAGE_FAULT_VECTOR V \<or> vector = ALIGNMENT_CHECK_VECTOR V"

definition from_vector :: "irq_vectors \<Rightarrow> u8 \<Rightarrow> VmxInterruptionType" where
  "from_vector V vector =
     (if vector = DEBUG_VECTOR V then PrivSoftException
      else if vector = NONMASKABLE_INTERRUPT_VECTOR V then NMI
      else if vector = BREAKPOINT_VECTOR V \<or> vector = OVERFLOW_VECTOR V then SoftException
      else if vector \<le> VIRTUALIZATION_VECTOR V then HardException
      else if 32 \<le> vector then External
      else Other)"

definition is_soft :: "VmxInterruptionType \<Rightarrow> bool" where
  "is_soft t \<longleftrightarrow> t = SoftIntr \<or> t = SoftException \<or> t = PrivSoftException"

definition sdm_vectors :: "irq_vectors \<Rightarrow> bool" where
  "sdm_vectors V \<longleftrightarrow> V = \<lparr>DEBUG_VECTOR = 1, NONMASKABLE_INTERRUPT_VECTOR = 2, BREAKPOINT_VECTOR = 3, OVERFLOW_VECTOR = 4,
     DOUBLE_FAULT_VECTOR = 8, INVALID_TSS_VECTOR = 10, SEGMENT_NOT_PRESENT_VECTOR = 11, STACK_SEGEMENT_FAULT_VECTOR = 12,
     GENERAL_PROTECTION_FAULT_VECTOR = 13, PAGE_FAULT_VECTOR = 14, ALIGNMENT_CHECK_VECTOR = 17, VIRTUALIZATION_VECTOR = 20\<rparr>"

section \<open>The encodings are sound\<close>

text \<open>The width and the kind of a field, as the processor reads them off its encoding: bits 13 and 14 give the
  width (16, 64, 32 or natural), bits 10 and 11 the kind (control, read-only, guest, host), bit 0 is set for the
  high half of a 64-bit field.\<close>

definition encoded_bits :: "u32 \<Rightarrow> nat" where
  "encoded_bits c = (let w = drop_bit 13 c AND 3 in if w = 0 then 16 else if w = 2 then 32 else 64)"

definition encoded_kind :: "u32 \<Rightarrow> u32" where
  "encoded_kind c = drop_bit 10 c AND 3"

primrec field_kind :: "vmcs_field \<Rightarrow> u32" where
  "field_kind (Control16 _) = 0"
| "field_kind (Control64 _) = 0"
| "field_kind (Control32 _) = 0"
| "field_kind (ControlNW _) = 0"
| "field_kind (Guest16 _) = 2"
| "field_kind (Guest64 _) = 2"
| "field_kind (Guest32 _) = 2"
| "field_kind (GuestNW _) = 2"
| "field_kind (Host16 _) = 3"
| "field_kind (Host64 _) = 3"
| "field_kind (Host32 _) = 3"
| "field_kind (HostNW _) = 3"
| "field_kind (ReadOnly64 _) = 1"
| "field_kind (ReadOnly32 _) = 1"
| "field_kind (ReadOnlyNW _) = 1"

definition all_vmcs_fields :: "vmcs_field list" where
  "all_vmcs_fields =
    [Control16 VmcsControl16.VPID, Control16 VmcsControl16.POSTED_INTERRUPT_NOTIFICATION_VECTOR
     , Control16 VmcsControl16.EPTP_INDEX, Guest16 VmcsGuest16.ES_SELECTOR, Guest16 VmcsGuest16.CS_SELECTOR
     , Guest16 VmcsGuest16.SS_SELECTOR, Guest16 VmcsGuest16.DS_SELECTOR, Guest16 VmcsGuest16.FS_SELECTOR
     , Guest16 VmcsGuest16.GS_SELECTOR, Guest16 VmcsGuest16.LDTR_SELECTOR, Guest16 VmcsGuest16.TR_SELECTOR
     , Guest16 VmcsGuest16.INTERRUPT_STATUS, Guest16 VmcsGuest16.PML_INDEX, Host16 VmcsHost16.ES_SELECTOR
     , Host16 VmcsHost16.CS_SELECTOR, Host16 VmcsHost16.SS_SELECTOR, Host16 VmcsHost16.DS_SELECTOR
     , Host16 VmcsHost16.FS_SELECTOR, Host16 VmcsHost16.GS_SELECTOR, Host16 VmcsHost16.TR_SELECTOR
     , Control64 VmcsControl64.IO_BITMAP_A_ADDR, Control64 VmcsControl64.IO_BITMAP_B_ADDR
     , Control64 VmcsControl64.MSR_BITMAPS_ADDR, Control64 VmcsControl64.VMEXIT_MSR_STORE_ADDR
     , Control64 VmcsControl64.VMEXIT_MSR_LOAD_ADDR, Control64 VmcsControl64.VMENTRY_MSR_LOAD_ADDR
     , Control64 VmcsControl64.EXECUTIVE_VMCS_PTR, Control64 VmcsControl64.PML_ADDR
     , Control64 VmcsControl64.TSC_OFFSET, Control64 VmcsControl64.VIRT_APIC_ADDR
     , Control64 VmcsControl64.APIC_ACCESS_ADDR, Control64 VmcsControl64.POSTED_INTERRUPT_DESC_ADDR
     , Control64 VmcsControl64.VM_FUNCTION_CONTROLS, Control64 VmcsControl64.EPTP
     , Control64 VmcsControl64.EOI_EXIT0, Control64 VmcsControl64.EOI_EXIT1
     , Control64 VmcsControl64.EOI_EXIT2, Control64 VmcsControl64.EOI_EXIT3
     , Control64 VmcsControl64.EPTP_LIST_ADDR, Control64 VmcsControl64.VMREAD_BITMAP_ADDR
     , Control64 VmcsControl64.VMWRITE_BITMAP_ADDR, Control64 VmcsControl64.VIRT_EXCEPTION_INFO_ADDR
     , Control64 VmcsControl64.XSS_EXITING_BITMAP, Control64 VmcsControl64.ENCLS_EXITING_BITMAP
     , Control64 VmcsControl64.SUBPAGE_PERM_TABLE_PTR, Control64 VmcsControl64.TSC_MULTIPLIER
     , ReadOnly64 VmcsReadOnly64.GUEST_PHYSICAL_ADDR, Guest64 VmcsGuest64.LINK_PTR
     , Guest64 VmcsGuest64.IA32_DEBUGCTL, Guest64 VmcsGuest64.IA32_PAT, Guest64 VmcsGuest64.IA32_EFER
     , Guest64 VmcsGuest64.IA32_PERF_GLOBAL_CTRL, Guest64 VmcsGuest64.PDPTE0, Guest64 VmcsGuest64.PDPTE1
     , Guest64 VmcsGuest64.PDPTE2, Guest64 VmcsGuest64.PDPTE3, Guest64 VmcsGuest64.IA32_BNDCFGS
     , Guest64 VmcsGuest64.IA32_RTIT_CTL, Host64 VmcsHost64.IA32_PAT, Host64 VmcsHost64.IA32_EFER
     , Host64 VmcsHost64.IA32_PERF_GLOBAL_CTRL, Control32 VmcsControl32.PINBASED_EXEC_CONTROLS
     , Control32 VmcsControl32.PRIMARY_PROCBASED_EXEC_CONTROLS, Control32 VmcsControl32.EXCEPTION_BITMAP
     , Control32 VmcsControl32.PAGE_FAULT_ERR_CODE_MASK, Control32 VmcsControl32.PAGE_FAULT_ERR_CODE_MATCH
     , Control32 VmcsControl32.CR3_TARGET_COUNT, Control32 VmcsControl32.VMEXIT_CONTROLS
     , Control32 VmcsControl32.VMEXIT_MSR_STORE_COUNT, Control32 VmcsControl32.VMEXIT_MSR_LOAD_COUNT
     , Control32 VmcsControl32.VMENTRY_CONTROLS, Control32 VmcsControl32.VMENTRY_MSR_LOAD_COUNT
     , Control32 VmcsControl32.VMENTRY_INTERRUPTION_INFO_FIELD
     , Control32 VmcsControl32.VMENTRY_EXCEPTION_ERR_CODE, Control32 VmcsControl32.VMENTRY_INSTRUCTION_LEN
     , Control32 VmcsControl32.TPR_THRESHOLD, Control32 VmcsControl32.SECONDARY_PROCBASED_EXEC_CONTROLS
     , Control32 VmcsControl32.PLE_GAP, Control32 VmcsControl32.PLE_WINDOW
     , ReadOnly32 VmcsReadOnly32.VM_INSTRUCTION_ERROR, ReadOnly32 VmcsReadOnly32.EXIT_REASON
     , ReadOnly32 VmcsReadOnly32.VMEXIT_INTERRUPTION_INFO
     , ReadOnly32 VmcsReadOnly32.VMEXIT_INTERRUPTION_ERR_CODE, ReadOnly32 VmcsReadOnly32.IDT_VECTORING_INFO
     , ReadOnly32 VmcsReadOnly32.IDT_VECTORING_ERR_CODE, ReadOnly32 VmcsReadOnly32.VMEXIT_INSTRUCTION_LEN
     , ReadOnly32 VmcsReadOnly32.VMEXIT_INSTRUCTION_INFO, Guest32 VmcsGuest32.ES_LIMIT
     , Guest32 VmcsGuest32.CS_LIMIT, Guest32 VmcsGuest32.SS_LIMIT, Guest32 VmcsGuest32.DS_LIMIT
     , Guest32 VmcsGuest32.FS_LIMIT, Guest32 VmcsGuest32.GS_LIMIT, Guest32 VmcsGuest32.LDTR_LIMIT
     , Guest32 VmcsGuest32.TR_LIMIT, Guest32 VmcsGuest32.GDTR_LIMIT, Guest32 VmcsGuest32.IDTR_LIMIT
     , Guest32 VmcsGuest32.ES_ACCESS_RIGHTS, Guest32 VmcsGuest32.CS_ACCESS_RIGHTS
     , Guest32 VmcsGuest32.SS_ACCESS_RIGHTS, Guest32 VmcsGuest32.DS_ACCESS_RIGHTS
     , Guest32 VmcsGuest32.FS_ACCESS_RIGHTS, Guest32 VmcsGuest32.GS_ACCESS_RIGHTS
     , Guest32 VmcsGuest32.LDTR_ACCESS_RIGHTS, Guest32 VmcsGuest32.TR_ACCESS_RIGHTS
     , Guest32 VmcsGuest32.INTERRUPTIBILITY_STATE, Guest32 VmcsGuest32.ACTIVITY_STATE
     , Guest32 VmcsGuest32.SMBASE, Guest32 VmcsGuest32.IA32_SYSENTER_CS
     , Guest32 VmcsGuest32.VMX_PREEMPTION_TIMER_VALUE, Host32 VmcsHost32.IA32_SYSENTER_CS
     , ControlNW VmcsControlNW.CR0_GUEST_HOST_MASK, ControlNW VmcsControlNW.CR4_GUEST_HOST_MASK
     , ControlNW VmcsControlNW.CR0_READ_SHADOW, ControlNW VmcsControlNW.CR4_READ_SHADOW
     , ControlNW VmcsControlNW.CR3_TARGET_VALUE0, ControlNW VmcsControlNW.CR3_TARGET_VALUE1
     , ControlNW VmcsControlNW.CR3_TARGET_VALUE2, ControlNW VmcsControlNW.CR3_TARGET_VALUE3
     , ReadOnlyNW VmcsReadOnlyNW.EXIT_QUALIFICATION, ReadOnlyNW VmcsReadOnlyNW.IO_RCX
     , ReadOnlyNW VmcsReadOnlyNW.IO_RSI, ReadOnlyNW VmcsReadOnlyNW.IO_RDI, ReadOnlyNW VmcsReadOnlyNW.IO_RIP
     , ReadOnlyNW VmcsReadOnlyNW.GUEST_LINEAR_ADDR, GuestNW VmcsGuestNW.CR0, GuestNW VmcsGuestNW.CR3
     , GuestNW VmcsGuestNW.CR4, GuestNW VmcsGuestNW.ES_BASE, GuestNW VmcsGuestNW.CS_BASE
     , GuestNW VmcsGuestNW.SS_BASE, GuestNW VmcsGuestNW.DS_BASE, GuestNW VmcsGuestNW.FS_BASE
     , GuestNW VmcsGuestNW.GS_BASE, GuestNW VmcsGuestNW.LDTR_BASE, GuestNW VmcsGuestNW.TR_BASE
     , GuestNW VmcsGuestNW.GDTR_BASE, GuestNW VmcsGuestNW.IDTR_BASE, GuestNW VmcsGuestNW.DR7
     , GuestNW VmcsGuestNW.RSP, GuestNW VmcsGuestNW.RIP, GuestNW VmcsGuestNW.RFLAGS
     , GuestNW VmcsGuestNW.PENDING_DBG_EXCEPTIONS, GuestNW VmcsGuestNW.IA32_SYSENTER_ESP
     , GuestNW VmcsGuestNW.IA32_SYSENTER_EIP, HostNW VmcsHostNW.CR0, HostNW VmcsHostNW.CR3
     , HostNW VmcsHostNW.CR4, HostNW VmcsHostNW.FS_BASE, HostNW VmcsHostNW.GS_BASE
     , HostNW VmcsHostNW.TR_BASE, HostNW VmcsHostNW.GDTR_BASE, HostNW VmcsHostNW.IDTR_BASE
     , HostNW VmcsHostNW.IA32_SYSENTER_ESP, HostNW VmcsHostNW.IA32_SYSENTER_EIP, HostNW VmcsHostNW.RSP
     , HostNW VmcsHostNW.RIP]"

fun ascending :: "u32 list \<Rightarrow> bool" where
  "ascending (x # y # zs) \<longleftrightarrow> x < y \<and> ascending (y # zs)"
| "ascending _ \<longleftrightarrow> True"

lemma ascending_less: "ascending (x # ys) \<Longrightarrow> y \<in> set ys \<Longrightarrow> x < y"
  by (induction ys arbitrary: x) (auto, fastforce dest: order.strict_trans)

lemma ascending_distinct: "ascending xs \<Longrightarrow> distinct xs"
proof (induction xs)
  case (Cons x xs)
  have "x \<notin> set xs" using ascending_less [OF Cons.prems] by blast
  moreover have "ascending xs" using Cons.prems by (cases xs) auto
  ultimately show ?case using Cons.IH by simp
qed simp

lemma ascending_inj:
  assumes "ascending (map f xs)" "x \<in> set xs" "y \<in> set xs" "f x = f y"
  shows "x = y"
  using ascending_distinct [OF assms(1)] assms(2-4) by (auto simp: distinct_map inj_on_def)

lemma all_vmcs_fields: "f \<in> set all_vmcs_fields"
proof (cases f)
  case (Control16 x)
  then show ?thesis by (cases x) (simp_all add: all_vmcs_fields_def)
next
  case (Control64 x)
  then show ?thesis by (cases x) (simp_all add: all_vmcs_fields_def)
next
  case (Control32 x)
  then show ?thesis by (cases x) (simp_all add: all_vmcs_fields_def)
next
  case (ControlNW x)
  then show ?thesis by (cases x) (simp_all add: all_vmcs_fields_def)
next
  case (Guest16 x)
  then show ?thesis by (cases x) (simp_all add: all_vmcs_fields_def)
next
  case (Guest64 x)
  then show ?thesis by (cases x) (simp_all add: all_vmcs_fields_def)
next
  case (Guest32 x)
  then show ?thesis by (cases x) (simp_all add: all_vmcs_fields_def)
next
  case (GuestNW x)
  then show ?thesis by (cases x) (simp_all add: all_vmcs_fields_def)
next
  case (Host16 x)
  then show ?thesis by (cases x) (simp_all add: all_vmcs_fields_def)
next
  case (Host64 x)
  then show ?thesis by (cases x) (simp_all add: all_vmcs_fields_def)
next
  case (Host32 x)
  then show ?thesis by (cases x) (simp_all add: all_vmcs_fields_def)
next
  case (HostNW x)
  then show ?thesis by (cases x) (simp_all add: all_vmcs_fields_def)
next
  case (ReadOnly64 x)
  then show ?thesis by (cases x) (simp_all add: all_vmcs_fields_def)
next
  case (ReadOnly32 x)
  then show ?thesis by (cases x) (simp_all add: all_vmcs_fields_def)
next
  case (ReadOnlyNW x)
  then show ?thesis by (cases x) (simp_all add: all_vmcs_fields_def)
qed

lemma ascending_fields: "ascending (map as_u32 all_vmcs_fields)"
  by (simp add: all_vmcs_fields_def)

lemma as_u32_inj: "as_u32 f = as_u32 g \<longleftrightarrow> f = g"
  using ascending_inj [OF ascending_fields all_vmcs_fields all_vmcs_fields] by blast

lemma all_exit_reasons: "r \<in> set all_exit_reasons"
  by (cases r) (simp_all add: all_exit_reasons_def)

lemma ascending_exit_reasons: "ascending (map exit_reason_as_u32 all_exit_reasons)"
  by (simp add: all_exit_reasons_def)

lemma exit_reason_inj: "exit_reason_as_u32 r = exit_reason_as_u32 r' \<longleftrightarrow> r = r'"
  using ascending_inj [OF ascending_exit_reasons all_exit_reasons all_exit_reasons] by blast

instantiation VmxExitReason :: equal
begin

definition equal_VmxExitReason :: "VmxExitReason \<Rightarrow> VmxExitReason \<Rightarrow> bool" where
  "equal_VmxExitReason r r' \<longleftrightarrow> exit_reason_as_u32 r = exit_reason_as_u32 r'"

instance by standard (simp add: equal_VmxExitReason_def exit_reason_inj)

end

lemma encoding_shape:
  "encoded_bits (as_u32 f) = accessor_bits f \<and> encoded_kind (as_u32 f) = field_kind f \<and> \<not> bit (as_u32 f) 0"
proof (cases f)
  case (Control16 x)
  then show ?thesis by (cases x) (simp_all add: encoded_bits_def encoded_kind_def)
next
  case (Control64 x)
  then show ?thesis by (cases x) (simp_all add: encoded_bits_def encoded_kind_def)
next
  case (Control32 x)
  then show ?thesis by (cases x) (simp_all add: encoded_bits_def encoded_kind_def)
next
  case (ControlNW x)
  then show ?thesis by (cases x) (simp_all add: encoded_bits_def encoded_kind_def)
next
  case (Guest16 x)
  then show ?thesis by (cases x) (simp_all add: encoded_bits_def encoded_kind_def)
next
  case (Guest64 x)
  then show ?thesis by (cases x) (simp_all add: encoded_bits_def encoded_kind_def)
next
  case (Guest32 x)
  then show ?thesis by (cases x) (simp_all add: encoded_bits_def encoded_kind_def)
next
  case (GuestNW x)
  then show ?thesis by (cases x) (simp_all add: encoded_bits_def encoded_kind_def)
next
  case (Host16 x)
  then show ?thesis by (cases x) (simp_all add: encoded_bits_def encoded_kind_def)
next
  case (Host64 x)
  then show ?thesis by (cases x) (simp_all add: encoded_bits_def encoded_kind_def)
next
  case (Host32 x)
  then show ?thesis by (cases x) (simp_all add: encoded_bits_def encoded_kind_def)
next
  case (HostNW x)
  then show ?thesis by (cases x) (simp_all add: encoded_bits_def encoded_kind_def)
next
  case (ReadOnly64 x)
  then show ?thesis by (cases x) (simp_all add: encoded_bits_def encoded_kind_def)
next
  case (ReadOnly32 x)
  then show ?thesis by (cases x) (simp_all add: encoded_bits_def encoded_kind_def)
next
  case (ReadOnlyNW x)
  then show ?thesis by (cases x) (simp_all add: encoded_bits_def encoded_kind_def)
qed

lemma find_satisfies: "find P xs = Some x \<Longrightarrow> P x"
  by (induction xs) (auto split: if_splits)

lemma find_exists: "x \<in> set xs \<Longrightarrow> P x \<Longrightarrow> \<exists>y. find P xs = Some y"
  by (induction xs) auto

lemma exit_reason_roundtrip: "exit_reason_try_from v = Inr r \<longleftrightarrow> exit_reason_as_u32 r = v"
proof (cases "find (\<lambda>r. exit_reason_as_u32 r = v) all_exit_reasons")
  case None
  have "exit_reason_as_u32 r \<noteq> v"
  proof
    assume "exit_reason_as_u32 r = v"
    from find_exists [OF all_exit_reasons, of "\<lambda>r. exit_reason_as_u32 r = v", OF this] None show False by simp
  qed
  then show ?thesis using None by (simp add: exit_reason_try_from_def)
next
  case (Some r')
  have v: "exit_reason_as_u32 r' = v" by (rule find_satisfies [OF Some])
  have "exit_reason_as_u32 r = v \<longleftrightarrow> r = r'" unfolding v [symmetric] by (rule exit_reason_inj)
  then show ?thesis using Some by (simp add: exit_reason_try_from_def) metis
qed

lemma int_type_roundtrip: "int_type_try_from (int_type_as_u8 t) = Inr t"
  by (cases t) (simp_all add: int_type_try_from_def)

text \<open>C31. The enumerations of the fields agree with the encoding that the processor uses: the integer type of the
  accessors of a field has the width that its encoding says, the enumeration it is listed in is the kind that its
  encoding says, it names the low part of the field, and no two fields share an encoding.  The exit reasons, too,
  are told apart by their numbers, and reading a number gives the reason that was encoded.\<close>

theorem vmcs_encodings_typed:
  "encoded_bits (as_u32 f) = accessor_bits f \<and> encoded_kind (as_u32 f) = field_kind f \<and> \<not> bit (as_u32 f) 0 \<and>
   (as_u32 f = as_u32 g \<longleftrightarrow> f = g) \<and> (exit_reason_try_from v = Inr r \<longleftrightarrow> exit_reason_as_u32 r = v)"
  using encoding_shape [of f] as_u32_inj [of f g] exit_reason_roundtrip [of v r] by simp

end
