(* ===== verification/Vmcs.thy ===== *)
theory Vmcs
  imports VmxFields
begin

text \<open>Operations on the virtual-machine control structure: \<open>arch/x86_64/vmx/vmcs.rs\<close>, the instructions of
  \<open>arch/x86_64/vmx/instructions.rs\<close> and the bit layouts of \<open>arch/x86_64/vmx/structs.rs\<close>.

  The instructions of the processor are arguments, collected in the record \<open>vmx_machine\<close>: they come from the
  crate \<open>x86\<close> or are inline assembly.  The locale \<open>vmx_cpu\<close> states what the architecture documents of
  them, and \<open>plain_cpu\<close> is a processor that keeps its fields in a function.

  The lemmas show that \<open>set_control\<close> computes the value that the architecture prescribes, that
  \<open>inject_event\<close> stores the event in the fields that the processor reads at the next entry, and that the
  interruption information of an exit is decoded to what was encoded.\<close>

section \<open>The processor\<close>

datatype vm_fail = VmFailValid | VmFailInvalid

record 's vmx_machine =
  vmread :: "u32 \<Rightarrow> 's \<Rightarrow> vm_fail + u64"
  vmwrite :: "u32 \<Rightarrow> u64 \<Rightarrow> 's \<Rightarrow> (vm_fail + unit) \<times> 's"
  vmclear :: "u64 \<Rightarrow> 's \<Rightarrow> (vm_fail + unit) \<times> 's"
  vmptrld :: "u64 \<Rightarrow> 's \<Rightarrow> (vm_fail + unit) \<times> 's"
  vmxon :: "u64 \<Rightarrow> 's \<Rightarrow> (vm_fail + unit) \<times> 's"
  vmxoff :: "'s \<Rightarrow> (vm_fail + unit) \<times> 's"
  invept_instr :: "u64 \<Rightarrow> u64 list \<Rightarrow> 's \<Rightarrow> 's"
  read_rflags :: "'s \<Rightarrow> u64"
  FLAGS_ZF :: u64
  FLAGS_CF :: u64
  rdmsr :: "u32 \<Rightarrow> 's \<Rightarrow> u64"
  wrmsr :: "u32 \<Rightarrow> u64 \<Rightarrow> 's \<Rightarrow> 's"

definition vmcs_read :: "('s, 'z) vmx_machine_scheme \<Rightarrow> vmcs_field \<Rightarrow> 's \<Rightarrow> vm_fail + u64" where
  "vmcs_read M f s = map_sum id (take_bit (accessor_bits f)) (vmread M (as_u32 f) s)"

definition vmcs_write :: "('s, 'z) vmx_machine_scheme \<Rightarrow> vmcs_field \<Rightarrow> u64 \<Rightarrow> 's \<Rightarrow> (vm_fail + unit) \<times> 's" where
  "vmcs_write M f v s = vmwrite M (as_u32 f) v s"

definition msr_read :: "('s, 'z) vmx_machine_scheme \<Rightarrow> Msr \<Rightarrow> 's \<Rightarrow> u64" where
  "msr_read M r s = rdmsr M (msr_as_u32 r) s"

definition msr_write :: "('s, 'z) vmx_machine_scheme \<Rightarrow> Msr \<Rightarrow> u64 \<Rightarrow> 's \<Rightarrow> 's" where
  "msr_write M r v s = wrmsr M (msr_as_u32 r) v s"

text \<open>\<open>From<VmFail> for RvmError\<close>: the message of the error reads the error field of the control structure.\<close>

definition instruction_error :: "('s, 'z) vmx_machine_scheme \<Rightarrow> 's \<Rightarrow> u32 outcome" where
  "instruction_error M s = (case vmcs_read M (ReadOnly32 VmcsReadOnly32.VM_INSTRUCTION_ERROR) s of
     Inl _ \<Rightarrow> Panics
   | Inr v \<Rightarrow> Returns (ucast v))"

definition rvm_error_from :: "('s, 'z) vmx_machine_scheme \<Rightarrow> vm_fail \<Rightarrow> 's \<Rightarrow> rvm_error outcome" where
  "rvm_error_from M e s = (case e of
     VmFailValid \<Rightarrow> obind (instruction_error M s) (\<lambda>_. Returns BadState)
   | VmFailInvalid \<Rightarrow> Returns BadState)"

text \<open>The operator \<open>?\<close> on the result of an instruction.\<close>

definition vmx_try :: "('s, 'z) vmx_machine_scheme \<Rightarrow> (vm_fail + 'a) \<times> 's \<Rightarrow> ('s, 'a) rvm_result" where
  "vmx_try M = (\<lambda>(r, s). case r of
     Inr x \<Rightarrow> Returns (Inr x, s)
   | Inl e \<Rightarrow> obind (rvm_error_from M e s) (\<lambda>e. Returns (Inl e, s)))"

lemma vmx_try_simps [simp]: "vmx_try M (Inr x, s) = Returns (Inr x, s)"
  by (simp add: vmx_try_def)

section \<open>Instructions and pointers\<close>

definition vmx_capture_status :: "('s, 'z) vmx_machine_scheme \<Rightarrow> 's \<Rightarrow> vm_fail + unit" where
  "vmx_capture_status M s =
     (let fl = read_rflags M s in
      if flags_contain fl (FLAGS_ZF M) then Inl VmFailValid
      else if flags_contain fl (FLAGS_CF M) then Inl VmFailInvalid
      else Inr ())"

datatype InvEptType = SingleContext | Global

primrec inv_ept_type_as_u64 :: "InvEptType \<Rightarrow> u64" where
  "inv_ept_type_as_u64 SingleContext = 1"
| "inv_ept_type_as_u64 Global = 2"

definition invept :: "('s, 'z) vmx_machine_scheme \<Rightarrow> InvEptType \<Rightarrow> u64 \<Rightarrow> 's \<Rightarrow> (vm_fail + unit) \<times> 's" where
  "invept M inv_type eptp s =
     (let s = invept_instr M (inv_ept_type_as_u64 inv_type) [eptp, 0] s in (vmx_capture_status M s, s))"

definition EPTP_MEM_TYPE_WB :: u64 where "EPTP_MEM_TYPE_WB = push_bit 0 6"
definition EPTP_WALK_LENGTH_4 :: u64 where "EPTP_WALK_LENGTH_4 = push_bit 3 3"
definition EPTP_ENABLE_ACCESSED_DIRTY :: u64 where "EPTP_ENABLE_ACCESSED_DIRTY = push_bit 6 1"

definition from_table_phys :: "u64 \<Rightarrow> u64" where
  "from_table_phys pml4_paddr =
     (let aligned_addr = pml4_paddr AND NOT (4096 - 1) in
      aligned_addr OR EPTP_MEM_TYPE_WB OR EPTP_WALK_LENGTH_4 OR EPTP_ENABLE_ACCESSED_DIRTY)"

section \<open>Controls\<close>

definition set_control :: "('s, 'z) vmx_machine_scheme \<Rightarrow> VmcsControl32 \<Rightarrow> Msr \<Rightarrow> u32 \<Rightarrow> u32 \<Rightarrow> u32 \<Rightarrow> 's \<Rightarrow> ('s, unit) rvm_result" where
  "set_control M control capability_msr old_value sets clears s =
     (let cap = msr_read M capability_msr s;
          allowed0 = ucast cap :: u32;
          allowed1 = ucast (drop_bit 32 cap) :: u32 in
      obind (rust_assert (allowed0 AND allowed1 = allowed0)) (\<lambda>_.
      if sets AND clears \<noteq> 0 then Returns (Inl InvalidParam, s)
      else if allowed1 AND sets \<noteq> sets then Returns (Inl Unsupported, s)
      else if allowed0 AND clears \<noteq> 0 then Returns (Inl Unsupported, s)
      else
        let flexible = NOT allowed0 AND allowed1;
            unknown = flexible AND NOT (sets OR clears);
            default = unknown AND old_value;
            fixed1 = allowed0 in
        rbind (vmx_try M (vmcs_write M (Control32 control) (ucast (fixed1 OR default OR sets)) s)) (\<lambda>_ s.
        Returns (Inr (), s))))"

definition set_ept_pointer :: "('s, 'z) vmx_machine_scheme \<Rightarrow> u64 \<Rightarrow> 's \<Rightarrow> ('s, unit) rvm_result" where
  "set_ept_pointer M pml4_paddr s =
     (let eptp = from_table_phys pml4_paddr in
      rbind (vmx_try M (vmcs_write M (Control64 VmcsControl64.EPTP) eptp s)) (\<lambda>_ s.
      rbind (vmx_try M (invept M SingleContext eptp s)) (\<lambda>_ s.
      Returns (Inr (), s))))"

section \<open>Exits and events\<close>

record vmx_exit_info =
  entry_failure :: bool
  exit_reason :: VmxExitReason
  exit_instruction_length :: u32
  exit_guest_rip :: u64

record vmx_interrupt_info =
  vector :: u8
  int_type :: VmxInterruptionType
  err_code :: "u32 option"
  valid :: bool

record vmx_io_exit_info =
  access_size :: u8
  is_in :: bool
  is_string :: bool
  is_repeat :: bool
  port :: u16

record nested_page_fault_info =
  access_flags :: mem_flags
  fault_guest_paddr :: u64

definition interrupt_info_from :: "irq_vectors \<Rightarrow> u8 \<Rightarrow> u32 option \<Rightarrow> vmx_interrupt_info" where
  "interrupt_info_from V vec err = \<lparr>vector = vec, int_type = from_vector V vec, err_code = err, valid = True\<rparr>"

definition interrupt_bits :: "(u32 \<Rightarrow> nat \<Rightarrow> bool \<Rightarrow> u32) \<Rightarrow> vmx_interrupt_info \<Rightarrow> u32" where
  "interrupt_bits sb i =
     (let bits = ucast (vector i);
          bits = bits OR push_bit 8 (ucast (int_type_as_u8 (int_type i)));
          bits = sb bits 11 (err_code i \<noteq> None);
          bits = sb bits 31 (valid i) in bits)"

type_synonym get_bits32_fn = "u32 \<Rightarrow> nat \<Rightarrow> nat \<Rightarrow> u32"
type_synonym get_bit32_fn = "u32 \<Rightarrow> nat \<Rightarrow> bool"
type_synonym set_bit32_fn = "u32 \<Rightarrow> nat \<Rightarrow> bool \<Rightarrow> u32"

definition read_try :: "('s, 'z) vmx_machine_scheme \<Rightarrow> vmcs_field \<Rightarrow> 's \<Rightarrow> ('s, u64) rvm_result" where
  "read_try M f s = vmx_try M (vmcs_read M f s, s)"

definition vmcs_exit_info :: "('s, 'z) vmx_machine_scheme \<Rightarrow> get_bits32_fn \<Rightarrow> get_bit32_fn \<Rightarrow> 's \<Rightarrow> ('s, vmx_exit_info) rvm_result" where
  "vmcs_exit_info M gbs gb s =
     rbind (read_try M (ReadOnly32 VmcsReadOnly32.EXIT_REASON) s) (\<lambda>v s.
     let full_reason = ucast v :: u32 in
     case exit_reason_try_from (gbs full_reason 0 16) of
       Inl _ \<Rightarrow> Panics
     | Inr reason \<Rightarrow>
         rbind (read_try M (ReadOnly32 VmcsReadOnly32.VMEXIT_INSTRUCTION_LEN) s) (\<lambda>len s.
         rbind (read_try M (GuestNW VmcsGuestNW.RIP) s) (\<lambda>rip s.
         Returns (Inr \<lparr>entry_failure = gb full_reason 31, exit_reason = reason,
           exit_instruction_length = ucast len, exit_guest_rip = rip\<rparr>, s))))"

definition interrupt_exit_info :: "('s, 'z) vmx_machine_scheme \<Rightarrow> get_bits32_fn \<Rightarrow> get_bit32_fn \<Rightarrow> 's \<Rightarrow> ('s, vmx_interrupt_info) rvm_result" where
  "interrupt_exit_info M gbs gb s =
     rbind (read_try M (ReadOnly32 VmcsReadOnly32.VMEXIT_INTERRUPTION_INFO) s) (\<lambda>v s.
     let info = ucast v :: u32 in
     case int_type_try_from (ucast (gbs info 8 11)) of
       Inl _ \<Rightarrow> Panics
     | Inr t \<Rightarrow>
         rbind (if gb info 11
                then rbind (read_try M (ReadOnly32 VmcsReadOnly32.VMEXIT_INTERRUPTION_ERR_CODE) s) (\<lambda>e s. Returns (Inr (Some (ucast e)), s))
                else Returns (Inr None, s)) (\<lambda>err s.
         Returns (Inr \<lparr>vector = ucast (gbs info 0 8), int_type = t, err_code = err, valid = gb info 31\<rparr>, s)))"

definition inject_event :: "('s, 'z) vmx_machine_scheme \<Rightarrow> set_bit32_fn \<Rightarrow> irq_vectors \<Rightarrow> u8 \<Rightarrow> u32 option \<Rightarrow> 's \<Rightarrow> ('s, unit) rvm_result" where
  "inject_event M sb V vec err s =
     obind (if vector_has_error_code V vec
            then case err of
                Some e \<Rightarrow> Returns (Some e)
              | None \<Rightarrow> (case vmcs_read M (ReadOnly32 VmcsReadOnly32.VMEXIT_INTERRUPTION_ERR_CODE) s of
                  Inl _ \<Rightarrow> Panics
                | Inr e \<Rightarrow> Returns (Some (ucast e)))
            else Returns None) (\<lambda>err.
     let int_info = interrupt_info_from V vec err in
     rbind (case err_code int_info of
         Some e \<Rightarrow> vmx_try M (vmcs_write M (Control32 VmcsControl32.VMENTRY_EXCEPTION_ERR_CODE) (ucast e) s)
       | None \<Rightarrow> Returns (Inr (), s)) (\<lambda>_ s.
     rbind (if is_soft (int_type int_info)
         then rbind (read_try M (ReadOnly32 VmcsReadOnly32.VMEXIT_INSTRUCTION_LEN) s) (\<lambda>len s.
           vmx_try M (vmcs_write M (Control32 VmcsControl32.VMENTRY_INSTRUCTION_LEN) len s))
         else Returns (Inr (), s)) (\<lambda>_ s.
     rbind (vmx_try M (vmcs_write M (Control32 VmcsControl32.VMENTRY_INTERRUPTION_INFO_FIELD) (ucast (interrupt_bits sb int_info)) s)) (\<lambda>_ s.
     Returns (Inr (), s)))))"

definition io_exit_info :: "('s, 'z) vmx_machine_scheme \<Rightarrow> get_bits_fn \<Rightarrow> (u64 \<Rightarrow> nat \<Rightarrow> bool) \<Rightarrow> 's \<Rightarrow> ('s, vmx_io_exit_info) rvm_result" where
  "io_exit_info M gbs gb s =
     rbind (read_try M (ReadOnlyNW VmcsReadOnlyNW.EXIT_QUALIFICATION) s) (\<lambda>qualification s.
     Returns (Inr \<lparr>access_size = ucast (gbs qualification 0 3) + 1, is_in = gb qualification 3,
       is_string = gb qualification 4, is_repeat = gb qualification 5, port = ucast (gbs qualification 16 32)\<rparr>, s))"

definition ept_violation_info :: "('s, 'z) vmx_machine_scheme \<Rightarrow> (u64 \<Rightarrow> nat \<Rightarrow> bool) \<Rightarrow> 's \<Rightarrow> ('s, nested_page_fault_info) rvm_result" where
  "ept_violation_info M gb s =
     rbind (read_try M (ReadOnlyNW VmcsReadOnlyNW.EXIT_QUALIFICATION) s) (\<lambda>qualification s.
     rbind (read_try M (ReadOnly64 VmcsReadOnly64.GUEST_PHYSICAL_ADDR) s) (\<lambda>gpa s.
     let fl = 0;
         fl = (if gb qualification 0 then fl OR MEM_READ else fl);
         fl = (if gb qualification 1 then fl OR MEM_WRITE else fl);
         fl = (if gb qualification 2 then fl OR MEM_EXECUTE else fl) in
     Returns (Inr \<lparr>access_flags = fl, fault_guest_paddr = gpa\<rparr>, s)))"

section \<open>What the processor promises\<close>

text \<open>A supported field that is not read-only can be written, and reads as the low bits that its encoding leaves
  room for; the other fields and the model-specific registers do not change.\<close>

locale vmx_cpu =
  fixes M :: "('s, 'z) vmx_machine_scheme" and ok :: "'s \<Rightarrow> bool" and supported :: "vmcs_field set"
  assumes vmread_ok: "ok s \<Longrightarrow> f \<in> supported \<Longrightarrow> \<exists>v. vmread M (as_u32 f) s = Inr v"
    and vmwrite_ok: "ok s \<Longrightarrow> f \<in> supported \<Longrightarrow> encoded_kind (as_u32 f) \<noteq> 1 \<Longrightarrow>
      \<exists>s'. vmwrite M (as_u32 f) v s = (Inr (), s') \<and> ok s' \<and>
        vmread M (as_u32 f) s' = Inr (take_bit (encoded_bits (as_u32 f)) v) \<and>
        (\<forall>g. as_u32 g \<noteq> as_u32 f \<longrightarrow> vmread M (as_u32 g) s' = vmread M (as_u32 g) s) \<and>
        (\<forall>m. rdmsr M m s' = rdmsr M m s)"
begin

lemma vmcs_read_ok: "ok s \<Longrightarrow> f \<in> supported \<Longrightarrow> \<exists>v. vmcs_read M f s = Inr v"
  using vmread_ok [of s f] by (auto simp: vmcs_read_def)

lemma vmcs_write_ok:
  assumes "ok s" "f \<in> supported" "field_kind f \<noteq> 1"
  shows "\<exists>s'. vmcs_write M f v s = (Inr (), s') \<and> ok s' \<and> vmcs_read M f s' = Inr (take_bit (accessor_bits f) v) \<and>
    (\<forall>g. g \<noteq> f \<longrightarrow> vmcs_read M g s' = vmcs_read M g s) \<and> (\<forall>m. rdmsr M m s' = rdmsr M m s)"
  using vmwrite_ok [OF assms(1,2), of v] assms(3) encoding_shape [of f] as_u32_inj
  by (auto simp: vmcs_write_def vmcs_read_def)

lemma write_ok:
  assumes "ok s" "f \<in> supported" "field_kind f \<noteq> 1"
  obtains s' where "vmx_try M (vmcs_write M f v s) = Returns (Inr (), s')" "ok s'"
    "vmcs_read M f s' = Inr (take_bit (accessor_bits f) v)" "\<And>g. g \<noteq> f \<Longrightarrow> vmcs_read M g s' = vmcs_read M g s"
    "\<And>m. rdmsr M m s' = rdmsr M m s"
  using vmcs_write_ok [OF assms, of v] by auto

lemma read_ok:
  assumes "ok s" "f \<in> supported"
  obtains v where "read_try M f s = Returns (Inr v, s)" "vmcs_read M f s = Inr v"
  using vmcs_read_ok [OF assms] by (auto simp: read_try_def)

end

text \<open>A processor that keeps its fields and registers in two functions.\<close>

record plain_cpu_state =
  cpu_fields :: "u32 \<Rightarrow> u64"
  cpu_msrs :: "u32 \<Rightarrow> u64"

definition plain_cpu :: "plain_cpu_state vmx_machine" where
  "plain_cpu = \<lparr>vmread = (\<lambda>f s. Inr (cpu_fields s f)),
     vmwrite = (\<lambda>f v s. (Inr (), s\<lparr>cpu_fields := (cpu_fields s)(f := take_bit (encoded_bits f) v)\<rparr>)),
     vmclear = (\<lambda>_ s. (Inr (), s)), vmptrld = (\<lambda>_ s. (Inr (), s)), vmxon = (\<lambda>_ s. (Inr (), s)), vmxoff = (\<lambda>s. (Inr (), s)),
     invept_instr = (\<lambda>_ _ s. s), read_rflags = (\<lambda>_. 2), FLAGS_ZF = 0x40, FLAGS_CF = 1,
     rdmsr = (\<lambda>m s. cpu_msrs s m), wrmsr = (\<lambda>m v s. s\<lparr>cpu_msrs := (cpu_msrs s)(m := v)\<rparr>)\<rparr>"

interpretation plain: vmx_cpu plain_cpu "\<lambda>_. True" UNIV
  by unfold_locales (auto simp: plain_cpu_def)

lemma vmx_cpu_plain: "vmx_cpu plain_cpu (\<lambda>_. True) UNIV" by unfold_locales

lemma take_bit_ucast32: "take_bit 32 (ucast (w::u32) :: u64) = ucast w"
  by (rule bit_eqI) (auto simp: bit_take_bit_iff bit_ucast_iff dest: bit_imp_le_length)

lemma ucast_ucast32: "ucast (ucast (w::u32) :: u64) = w"
  by (rule bit_eqI) (auto simp: bit_ucast_iff dest: bit_imp_le_length)

lemma ucast_down_up32: "ucast (ucast (v::u64) :: u32) = take_bit 32 v"
  by (rule bit_eqI) (auto simp: bit_take_bit_iff bit_ucast_iff)

lemma ucast_take_bit32: "ucast (take_bit 32 v :: u64) = (ucast v :: u32)"
  by (rule bit_eqI) (auto simp: bit_take_bit_iff bit_ucast_iff)

section \<open>The properties\<close>

text \<open>C15. \<open>set_control\<close> follows the algorithm that the architecture prescribes.  Let the low half of the
  capability register be the bits that must be one and the high half the bits that may be one; the call panics when
  the first are not among the second.  Otherwise it succeeds exactly when no bit is to be both set and cleared, every
  bit to set may be one and no bit to clear must be one.  The value it writes then respects the capability, has the
  requested bits set and cleared, and every other free bit as in the old value.  When it fails, nothing is written.\<close>

theorem set_control_respects_capability:
  assumes cpu: "vmx_cpu M ok supported" "ok s" "Control32 c \<in> supported"
    and caps: "req = ucast (msr_read M cap s)" "may = ucast (drop_bit 32 (msr_read M cap s))"
  shows "if req AND NOT may \<noteq> (0::u32) then set_control M c cap old on off s = Panics
    else if on AND off = 0 \<and> on AND NOT may = 0 \<and> req AND off = 0
    then \<exists>s' v. set_control M c cap old on off s = Returns (Inr (), s') \<and> ok s' \<and>
      vmcs_read M (Control32 c) s' = Inr (ucast (v::u32)) \<and> (\<forall>g. g = Control32 c \<or> vmcs_read M g s' = vmcs_read M g s) \<and>
      req AND NOT v = 0 \<and> v AND NOT may = 0 \<and> on AND NOT v = 0 \<and> v AND off = 0 \<and>
      (v AND (may AND NOT req AND NOT on AND NOT off)) = (old AND (may AND NOT req AND NOT on AND NOT off))
    else \<exists>e. set_control M c cap old on off s = Returns (Inl e, s)"
proof -
  let ?v = "req OR (((NOT req AND may) AND NOT (on OR off)) AND old) OR on"
  have sub: "a AND b = a \<longleftrightarrow> a AND NOT b = 0" "b AND a = a \<longleftrightarrow> a AND NOT b = 0" for a b :: u32
    by (auto simp: bit_eq_iff bit_and_iff bit_not_iff)
  have bits: "req AND NOT ?v = 0" "on AND NOT ?v = 0"
    "?v AND (may AND NOT req AND NOT on AND NOT off) = old AND (may AND NOT req AND NOT on AND NOT off)"
    by (auto simp: bit_eq_iff bit_and_iff bit_or_iff bit_not_iff)
  have valid: "?v AND NOT may = 0" "?v AND off = 0"
    if "req AND NOT may = 0" "on AND off = 0" "on AND NOT may = 0" "req AND off = 0"
    using that by (auto simp: bit_eq_iff bit_and_iff bit_or_iff bit_not_iff)
  obtain s' where w: "vmx_try M (vmcs_write M (Control32 c) (ucast ?v) s) = Returns (Inr (), s')" "ok s'"
    "vmcs_read M (Control32 c) s' = Inr (take_bit 32 (ucast ?v))" "\<And>g. g \<noteq> Control32 c \<Longrightarrow> vmcs_read M g s' = vmcs_read M g s"
    by (rule vmx_cpu.write_ok [OF cpu, of "ucast ?v"]) auto
  have read: "vmcs_read M (Control32 c) s' = Inr (ucast ?v)" using w(3) by (simp only: take_bit_ucast32)
  have run: "set_control M c cap old on off s =
      (if req AND NOT may \<noteq> 0 then Panics else if on AND off \<noteq> 0 then Returns (Inl InvalidParam, s)
       else if on AND NOT may \<noteq> 0 then Returns (Inl Unsupported, s)
       else if req AND off \<noteq> 0 then Returns (Inl Unsupported, s)
       else Returns (Inr (), s'))"
    using w(1) unfolding set_control_def Let_def caps [symmetric] sub rust_assert_def by simp
  show ?thesis
    using run w(2,4) read bits valid by (auto intro!: exI [of _ s'] exI [of _ ?v])
qed

definition sample_cpu :: plain_cpu_state where
  "sample_cpu = \<lparr>cpu_fields = (\<lambda>_. 0), cpu_msrs = (\<lambda>_. 0xFF00000016)\<rparr>"

theorem set_control_respects_capability_witness:
  "\<exists>s' v. set_control plain_cpu VmcsControl32.PINBASED_EXEC_CONTROLS Msr.IA32_VMX_TRUE_PINBASED_CTLS 0x40 0x9 0x20 sample_cpu =
      Returns (Inr (), s') \<and> True \<and>
      vmcs_read plain_cpu (Control32 VmcsControl32.PINBASED_EXEC_CONTROLS) s' = Inr (ucast (v::u32)) \<and>
      (\<forall>g. g = Control32 VmcsControl32.PINBASED_EXEC_CONTROLS \<or> vmcs_read plain_cpu g s' = vmcs_read plain_cpu g sample_cpu) \<and>
      0x16 AND NOT v = 0 \<and> v AND NOT 0xFF = 0 \<and> 0x9 AND NOT v = 0 \<and> v AND 0x20 = 0 \<and>
      v AND (0xFF AND NOT 0x16 AND NOT 0x9 AND NOT 0x20) = 0x40 AND (0xFF AND NOT 0x16 AND NOT 0x9 AND NOT 0x20)"
proof -
  have caps: "(0x16::u32) = ucast (msr_read plain_cpu Msr.IA32_VMX_TRUE_PINBASED_CTLS sample_cpu)"
    "(0xFF::u32) = ucast (drop_bit 32 (msr_read plain_cpu Msr.IA32_VMX_TRUE_PINBASED_CTLS sample_cpu))"
    by (simp_all add: msr_read_def plain_cpu_def sample_cpu_def)
  have cond: "\<not> ((0x16::u32) AND NOT 0xFF \<noteq> 0)" "(0x9::u32) AND 0x20 = 0 \<and> (0x9::u32) AND NOT 0xFF = 0 \<and> (0x16::u32) AND 0x20 = 0"
    by simp_all
  note spec = set_control_respects_capability [OF vmx_cpu_plain TrueI UNIV_I caps, where old = "0x40" and on = "0x9" and off = "0x20"]
  show ?thesis by (rule spec [of VmcsControl32.PINBASED_EXEC_CONTROLS, unfolded if_not_P [OF cond(1)] if_P [OF cond(2)]])
qed

text \<open>The bits of the interruption information.\<close>

lemma bit_int_type: "bit (int_type_as_u8 t) j \<Longrightarrow> j < 3"
proof -
  have "take_bit 3 (int_type_as_u8 t) = int_type_as_u8 t" by (cases t) (simp_all add: take_bit_eq_mask mask_eq_exp_minus_1)
  then show "bit (int_type_as_u8 t) j \<Longrightarrow> j < 3" by (metis bit_take_bit_iff)
qed

lemma bit_interrupt_bits:
  assumes "bit_field gb sb" "j < 32"
  shows "bit (interrupt_bits sb i) j \<longleftrightarrow> j < 8 \<and> bit (vector i) j \<or> 8 \<le> j \<and> j < 11 \<and> bit (int_type_as_u8 (int_type i)) (j - 8) \<or>
    j = 11 \<and> err_code i \<noteq> None \<or> j = 31 \<and> valid i"
proof -
  note set = bit_field.bit_set_bit [OF assms(1)]
  have v: "bit (vector i) j \<Longrightarrow> j < 8" by (auto dest: bit_imp_le_length)
  have t: "bit (int_type_as_u8 (int_type i)) (j - 8) \<Longrightarrow> j < 11" using bit_int_type [of "int_type i" "j - 8"] by linarith
  show ?thesis
    unfolding interrupt_bits_def Let_def using assms(2) v t
    by (auto simp: set bit_or_iff bit_push_bit_iff bit_ucast_iff)
qed

lemma interrupt_bits_decode:
  assumes bits: "bit_field gb sb" "bit_ranges gbs sbs"
  shows "(ucast (gbs (interrupt_bits sb i) 0 8) :: u8) = vector i"
    and "int_type_try_from (ucast (gbs (interrupt_bits sb i) 8 11)) = Inr (int_type i)"
    and "gb (interrupt_bits sb i) 11 \<longleftrightarrow> err_code i \<noteq> None" "gb (interrupt_bits sb i) 31 \<longleftrightarrow> valid i"
proof -
  note range = bit_ranges.bit_get_range [OF bits(2)] and b = bit_interrupt_bits [OF bits(1), where i = i]
  show "(ucast (gbs (interrupt_bits sb i) 0 8) :: u8) = vector i"
    by (rule bit_eqI) (auto simp: bit_ucast_iff range b)
  have "(ucast (gbs (interrupt_bits sb i) 8 11) :: u8) = int_type_as_u8 (int_type i)"
    by (rule bit_eqI) (auto simp: bit_ucast_iff range b dest: bit_int_type)
  then show "int_type_try_from (ucast (gbs (interrupt_bits sb i) 8 11)) = Inr (int_type i)"
    by (simp add: int_type_roundtrip)
  show "gb (interrupt_bits sb i) 11 \<longleftrightarrow> err_code i \<noteq> None" "gb (interrupt_bits sb i) 31 \<longleftrightarrow> valid i"
    using bit_field.get_bit [OF bits(1)] by (simp_all add: b)
qed

text \<open>\<open>interrupt_exit_info\<close> decodes the interruption information of an exit to what
  \<open>VmxInterruptInfo::bits\<close> encodes: when the information field of the exit holds the bits of an event and, if
  the event has an error code, the error-code field holds that, the call returns the event and changes nothing.\<close>

lemma interrupt_info_roundtrip:
  assumes "bit_field gb sb" "bit_ranges gbs sbs"
    and "vmcs_read M (ReadOnly32 VmcsReadOnly32.VMEXIT_INTERRUPTION_INFO) s = Inr (ucast (interrupt_bits sb i))"
    and "err_code i = None \<or> vmcs_read M (ReadOnly32 VmcsReadOnly32.VMEXIT_INTERRUPTION_ERR_CODE) s = Inr (ucast (the (err_code i)))"
  shows "interrupt_exit_info M gbs gb s = Returns (Inr i, s)"
proof -
  note dec = interrupt_bits_decode [OF assms(1,2), where i = i]
  have read: "read_try M (ReadOnly32 VmcsReadOnly32.VMEXIT_INTERRUPTION_INFO) s = Returns (Inr (ucast (interrupt_bits sb i)), s)"
    using assms(3) by (simp add: read_try_def)
  show ?thesis
  proof (cases "err_code i")
    case None
    then show ?thesis unfolding interrupt_exit_info_def read rbind_simps Let_def ucast_ucast32 dec by simp
  next
    case (Some e)
    then have "read_try M (ReadOnly32 VmcsReadOnly32.VMEXIT_INTERRUPTION_ERR_CODE) s = Returns (Inr (ucast e), s)"
      using assms(4) by (simp add: read_try_def)
    then show ?thesis using Some unfolding interrupt_exit_info_def read rbind_simps Let_def ucast_ucast32 dec
      by (simp add: ucast_ucast32)
  qed
qed

definition page_fault_event :: vmx_interrupt_info where
  "page_fault_event = \<lparr>vector = 14, int_type = HardException, err_code = Some 6, valid = True\<rparr>"

definition exit_cpu :: plain_cpu_state where
  "exit_cpu = \<lparr>cpu_fields = (\<lambda>f. if f = 0x4404 then 0x80000B0E else if f = 0x4406 then 6 else 0), cpu_msrs = (\<lambda>_. 0)\<rparr>"

lemma interrupt_info_roundtrip_example:
  "interrupt_exit_info plain_cpu word_get_bits word_get_bit exit_cpu = Returns (Inr page_fault_event, exit_cpu)"
  by (rule interrupt_info_roundtrip [OF bit_field_word word_ranges.bit_ranges_axioms])
    (simp_all add: vmcs_read_def plain_cpu_def exit_cpu_def interrupt_bits_def page_fault_event_def word_set_bit_def take_bit_eq_mask mask_eq_exp_minus_1)

text \<open>The fields that an injected event is stored in, and those that the call reads.\<close>

definition event_fields :: "vmcs_field list" where
  "event_fields = [Control32 VmcsControl32.VMENTRY_EXCEPTION_ERR_CODE, Control32 VmcsControl32.VMENTRY_INSTRUCTION_LEN,
     Control32 VmcsControl32.VMENTRY_INTERRUPTION_INFO_FIELD]"

definition exit_fields :: "vmcs_field list" where
  "exit_fields = [ReadOnly32 VmcsReadOnly32.VMEXIT_INTERRUPTION_ERR_CODE, ReadOnly32 VmcsReadOnly32.VMEXIT_INSTRUCTION_LEN]"

text \<open>The error code that goes with a vector: the given one, or that of the exit when none is given.\<close>

definition event_error_code :: "('s, 'z) vmx_machine_scheme \<Rightarrow> irq_vectors \<Rightarrow> u8 \<Rightarrow> u32 option \<Rightarrow> 's \<Rightarrow> u32 option" where
  "event_error_code M V vec err s =
     (if \<not> vector_has_error_code V vec then None
      else case err of Some e \<Rightarrow> Some e | None \<Rightarrow>
        (case vmcs_read M (ReadOnly32 VmcsReadOnly32.VMEXIT_INTERRUPTION_ERR_CODE) s of Inl _ \<Rightarrow> None | Inr e \<Rightarrow> Some (ucast e)))"

context vmx_cpu
begin

lemma write_error_code:
  assumes "ok s" "set event_fields \<subseteq> supported"
  obtains s' where "(case e of
        Some e \<Rightarrow> vmx_try M (vmcs_write M (Control32 VmcsControl32.VMENTRY_EXCEPTION_ERR_CODE) (ucast e) s)
      | None \<Rightarrow> Returns (Inr (), s)) = Returns (Inr (), s')" "ok s'"
    "\<And>x. e = Some x \<Longrightarrow> vmcs_read M (Control32 VmcsControl32.VMENTRY_EXCEPTION_ERR_CODE) s' = Inr (ucast (x::u32))"
    "\<And>g. g \<noteq> Control32 VmcsControl32.VMENTRY_EXCEPTION_ERR_CODE \<Longrightarrow> vmcs_read M g s' = vmcs_read M g s"
proof (cases e)
  case None
  then show thesis using that [of s] assms(1) by simp
next
  case (Some x)
  have f: "Control32 VmcsControl32.VMENTRY_EXCEPTION_ERR_CODE \<in> supported" using assms(2) by (simp add: event_fields_def)
  obtain s' where s': "vmx_try M (vmcs_write M (Control32 VmcsControl32.VMENTRY_EXCEPTION_ERR_CODE) (ucast x) s) = Returns (Inr (), s')"
    "ok s'" "vmcs_read M (Control32 VmcsControl32.VMENTRY_EXCEPTION_ERR_CODE) s' = Inr (take_bit 32 (ucast x))"
    "\<And>g. g \<noteq> Control32 VmcsControl32.VMENTRY_EXCEPTION_ERR_CODE \<Longrightarrow> vmcs_read M g s' = vmcs_read M g s"
    by (rule write_ok [OF assms(1) f, of "ucast x"]) auto
  show thesis by (rule that [of s']) (use Some s' in \<open>simp_all add: take_bit_ucast32\<close>)
qed

lemma write_instruction_len:
  assumes "ok s" "set event_fields \<subseteq> supported" "set exit_fields \<subseteq> supported"
  obtains s' where "(if soft
      then rbind (read_try M (ReadOnly32 VmcsReadOnly32.VMEXIT_INSTRUCTION_LEN) s) (\<lambda>len s.
        vmx_try M (vmcs_write M (Control32 VmcsControl32.VMENTRY_INSTRUCTION_LEN) len s))
      else Returns (Inr (), s)) = Returns (Inr (), s')" "ok s'"
    "soft \<Longrightarrow> vmcs_read M (Control32 VmcsControl32.VMENTRY_INSTRUCTION_LEN) s' = vmcs_read M (ReadOnly32 VmcsReadOnly32.VMEXIT_INSTRUCTION_LEN) s"
    "\<And>g. g \<noteq> Control32 VmcsControl32.VMENTRY_INSTRUCTION_LEN \<Longrightarrow> vmcs_read M g s' = vmcs_read M g s"
proof (cases soft)
  case False
  then show thesis using that [of s] assms(1) by simp
next
  case True
  have f: "Control32 VmcsControl32.VMENTRY_INSTRUCTION_LEN \<in> supported" "ReadOnly32 VmcsReadOnly32.VMEXIT_INSTRUCTION_LEN \<in> supported"
    using assms(2,3) by (simp_all add: event_fields_def exit_fields_def)
  obtain len where len: "read_try M (ReadOnly32 VmcsReadOnly32.VMEXIT_INSTRUCTION_LEN) s = Returns (Inr len, s)"
    "vmcs_read M (ReadOnly32 VmcsReadOnly32.VMEXIT_INSTRUCTION_LEN) s = Inr len" by (rule read_ok [OF assms(1) f(2)])
  have "take_bit 32 len = len" using len(2) by (cases "vmread M (as_u32 (ReadOnly32 VmcsReadOnly32.VMEXIT_INSTRUCTION_LEN)) s") (auto simp: vmcs_read_def)
  then obtain s' where s': "vmx_try M (vmcs_write M (Control32 VmcsControl32.VMENTRY_INSTRUCTION_LEN) len s) = Returns (Inr (), s')"
    "ok s'" "vmcs_read M (Control32 VmcsControl32.VMENTRY_INSTRUCTION_LEN) s' = Inr len"
    "\<And>g. g \<noteq> Control32 VmcsControl32.VMENTRY_INSTRUCTION_LEN \<Longrightarrow> vmcs_read M g s' = vmcs_read M g s"
    by (metis write_ok [OF assms(1) f(1), of len] accessor_bits.simps(3) field_kind.simps(3) zero_neq_one)
  show thesis by (rule that [of s']) (use True len s' in simp_all)
qed

lemma inject_event_spec:
  assumes "ok s" "set event_fields \<subseteq> supported" "set exit_fields \<subseteq> supported"
  shows "\<exists>s'. inject_event M sb V vec err s = Returns (Inr (), s') \<and> ok s' \<and>
    vmcs_read M (Control32 VmcsControl32.VMENTRY_INTERRUPTION_INFO_FIELD) s' =
      Inr (ucast (interrupt_bits sb (interrupt_info_from V vec (event_error_code M V vec err s)))) \<and>
    (\<forall>e. event_error_code M V vec err s = Some e \<longrightarrow> vmcs_read M (Control32 VmcsControl32.VMENTRY_EXCEPTION_ERR_CODE) s' = Inr (ucast e)) \<and>
    (is_soft (from_vector V vec) \<longrightarrow> vmcs_read M (Control32 VmcsControl32.VMENTRY_INSTRUCTION_LEN) s' =
      vmcs_read M (ReadOnly32 VmcsReadOnly32.VMEXIT_INSTRUCTION_LEN) s) \<and>
    (\<forall>g. g \<notin> set event_fields \<longrightarrow> vmcs_read M g s' = vmcs_read M g s)"
proof -
  let ?e = "event_error_code M V vec err s"
  have "\<exists>v. vmcs_read M (ReadOnly32 VmcsReadOnly32.VMEXIT_INTERRUPTION_ERR_CODE) s = Inr v"
    using vmcs_read_ok [OF assms(1)] assms(3) by (simp add: exit_fields_def)
  then have err: "(if vector_has_error_code V vec then (case err of Some e \<Rightarrow> Returns (Some e)
      | None \<Rightarrow> (case vmcs_read M (ReadOnly32 VmcsReadOnly32.VMEXIT_INTERRUPTION_ERR_CODE) s of
          Inl _ \<Rightarrow> Panics | Inr e \<Rightarrow> Returns (Some (ucast e)))) else Returns None) = Returns ?e"
    by (auto simp: event_error_code_def split: option.splits)
  obtain s1 where 1: "(case ?e of Some e \<Rightarrow> vmx_try M (vmcs_write M (Control32 VmcsControl32.VMENTRY_EXCEPTION_ERR_CODE) (ucast e) s)
      | None \<Rightarrow> Returns (Inr (), s)) = Returns (Inr (), s1)" "ok s1"
    "\<And>x. ?e = Some x \<Longrightarrow> vmcs_read M (Control32 VmcsControl32.VMENTRY_EXCEPTION_ERR_CODE) s1 = Inr (ucast x)"
    "\<And>g. g \<noteq> Control32 VmcsControl32.VMENTRY_EXCEPTION_ERR_CODE \<Longrightarrow> vmcs_read M g s1 = vmcs_read M g s"
    using write_error_code [OF assms(1,2), of ?e] by blast
  obtain s2 where 2: "(if is_soft (from_vector V vec)
      then rbind (read_try M (ReadOnly32 VmcsReadOnly32.VMEXIT_INSTRUCTION_LEN) s1) (\<lambda>len s.
        vmx_try M (vmcs_write M (Control32 VmcsControl32.VMENTRY_INSTRUCTION_LEN) len s))
      else Returns (Inr (), s1)) = Returns (Inr (), s2)" "ok s2"
    "is_soft (from_vector V vec) \<Longrightarrow> vmcs_read M (Control32 VmcsControl32.VMENTRY_INSTRUCTION_LEN) s2 =
      vmcs_read M (ReadOnly32 VmcsReadOnly32.VMEXIT_INSTRUCTION_LEN) s1"
    "\<And>g. g \<noteq> Control32 VmcsControl32.VMENTRY_INSTRUCTION_LEN \<Longrightarrow> vmcs_read M g s2 = vmcs_read M g s1"
    using write_instruction_len [OF 1(2) assms(2,3), of "is_soft (from_vector V vec)"] by blast
  let ?i = "interrupt_info_from V vec ?e" and ?f = "Control32 VmcsControl32.VMENTRY_INTERRUPTION_INFO_FIELD"
  have f: "?f \<in> supported" using assms(2) by (simp add: event_fields_def)
  obtain s3 where 3: "vmx_try M (vmcs_write M ?f (ucast (interrupt_bits sb ?i)) s2) = Returns (Inr (), s3)" "ok s3"
    "vmcs_read M ?f s3 = Inr (take_bit 32 (ucast (interrupt_bits sb ?i)))" "\<And>g. g \<noteq> ?f \<Longrightarrow> vmcs_read M g s3 = vmcs_read M g s2"
    by (rule write_ok [OF 2(2) f, of "ucast (interrupt_bits sb ?i)"]) auto
  have i: "err_code ?i = ?e" "int_type ?i = from_vector V vec" by (simp_all add: interrupt_info_from_def)
  have "inject_event M sb V vec err s = Returns (Inr (), s3)"
    unfolding inject_event_def err obind.simps Let_def i 1(1) rbind_simps 2(1) 3(1) ..
  then show ?thesis using 1 2 3 by (intro exI [of _ s3]) (simp add: take_bit_ucast32 event_fields_def)
qed

end


definition sample_vectors :: irq_vectors where
  "sample_vectors = \<lparr>DEBUG_VECTOR = 1, NONMASKABLE_INTERRUPT_VECTOR = 2, BREAKPOINT_VECTOR = 3, OVERFLOW_VECTOR = 4,
     DOUBLE_FAULT_VECTOR = 8, INVALID_TSS_VECTOR = 10, SEGMENT_NOT_PRESENT_VECTOR = 11, STACK_SEGEMENT_FAULT_VECTOR = 12,
     GENERAL_PROTECTION_FAULT_VECTOR = 13, PAGE_FAULT_VECTOR = 14, ALIGNMENT_CHECK_VECTOR = 17, VIRTUALIZATION_VECTOR = 20\<rparr>"


end
