(* ===== verification/ApicTimer.thy ===== *)
theory ApicTimer
  imports Nested
begin

text \<open>The timer of the virtual local interrupt controller: \<open>arch/x86_64/lapic.rs\<close> of the hypervisor crate and
  its registers, \<open>kernel/src/virt/kvm/lapic.rs\<close>.

  Registers and times keep their width.  The time that \<open>RvmHal::current_time_nanos\<close> returns is the argument
  \<open>now\<close>.  The lemmas relate the interrupts of a sequence of polls to the time that has passed, bound the
  current count and show that registers read back what was written.\<close>

section \<open>Checked arithmetic on fixed-width integers\<close>

definition wadd :: "'a::len word \<Rightarrow> 'a word \<Rightarrow> 'a word outcome" where
  "wadd a b = (if unat a + unat b < 2 ^ LENGTH('a) then Returns (a + b) else Panics)"

definition wsub :: "'a::len word \<Rightarrow> 'a word \<Rightarrow> 'a word outcome" where
  "wsub a b = (if b \<le> a then Returns (a - b) else Panics)"

definition wshl :: "'a::len word \<Rightarrow> nat \<Rightarrow> 'a word outcome" where
  "wshl a n = (if n < LENGTH('a) then Returns (push_bit n a) else Panics)"

definition wshr :: "'a::len word \<Rightarrow> nat \<Rightarrow> 'a word outcome" where
  "wshr a n = (if n < LENGTH('a) then Returns (drop_bit n a) else Panics)"

definition wmod :: "'a::len word \<Rightarrow> 'a word \<Rightarrow> 'a word outcome" where
  "wmod a b = (if b = 0 then Panics else Returns (a mod b))"

section \<open>The timer\<close>

definition APIC_FREQ_MHZ :: u64 where "APIC_FREQ_MHZ = 1000"
definition APIC_CYCLE_NANOS :: u64 where "APIC_CYCLE_NANOS = 1000 div APIC_FREQ_MHZ"

datatype timer_mode = OneShot | Periodic | TscDeadline

primrec timer_mode_code :: "timer_mode \<Rightarrow> u32" where
  "timer_mode_code OneShot = 0"
| "timer_mode_code Periodic = 1"
| "timer_mode_code TscDeadline = 2"

record apic_timer =
  lvt_timer_bits :: u32
  divide_shift :: u8
  initial_count :: u32
  last_start_ns :: u64
  deadline_ns :: u64

definition apic_timer_new :: apic_timer where
  "apic_timer_new = \<lparr>lvt_timer_bits = 0x10000, divide_shift = 0, initial_count = 0, last_start_ns = 0, deadline_ns = 0\<rparr>"

definition is_masked :: "apic_timer \<Rightarrow> bool" where
  "is_masked t \<longleftrightarrow> lvt_timer_bits t AND push_bit 16 1 \<noteq> 0"

definition is_periodic :: "apic_timer \<Rightarrow> bool" where
  "is_periodic t \<longleftrightarrow> drop_bit 17 (lvt_timer_bits t) AND 3 = timer_mode_code Periodic"

definition timer_vector :: "apic_timer \<Rightarrow> u8" where
  "timer_vector t = ucast (lvt_timer_bits t AND 0xff)"

definition interval_ns :: "apic_timer \<Rightarrow> u64 outcome" where
  "interval_ns t = wshl (ucast (initial_count t) * APIC_CYCLE_NANOS) (unat (divide_shift t))"

definition check_interrupt :: "u64 \<Rightarrow> apic_timer \<Rightarrow> (bool \<times> apic_timer) outcome" where
  "check_interrupt now t =
     (if deadline_ns t = 0 then Returns (False, t)
      else if now \<ge> deadline_ns t then
        obind (if is_periodic t
               then obind (interval_ns t) (\<lambda>i. obind (wadd (deadline_ns t) i) (\<lambda>d. Returns (t\<lparr>deadline_ns := d\<rparr>)))
               else Returns (t\<lparr>deadline_ns := 0\<rparr>)) (\<lambda>t.
        Returns (\<not> is_masked t, t))
      else Returns (False, t))"

definition lvt_timer :: "apic_timer \<Rightarrow> u32" where
  "lvt_timer t = lvt_timer_bits t"

definition apic_divide :: "apic_timer \<Rightarrow> u32" where
  "apic_divide t =
     (let dcr = ucast (divide_shift t - 1) AND 7 in (dcr AND 3) OR push_bit 1 (dcr AND 4))"

definition current_counter :: "u64 \<Rightarrow> apic_timer \<Rightarrow> u32 outcome" where
  "current_counter now t =
     obind (wsub now (last_start_ns t)) (\<lambda>elapsed_ns.
     obind (wshr (elapsed_ns div APIC_CYCLE_NANOS) (unat (divide_shift t))) (\<lambda>elapsed_cycles.
     if is_periodic t then
       obind (wmod elapsed_cycles (ucast (initial_count t))) (\<lambda>r. wsub (initial_count t) (ucast r))
     else if elapsed_cycles < ucast (initial_count t) then wsub (initial_count t) (ucast elapsed_cycles)
     else Returns 0))"

definition start_timer :: "u64 \<Rightarrow> apic_timer \<Rightarrow> apic_timer outcome" where
  "start_timer now t =
     (if initial_count t \<noteq> 0 then
        let t = t\<lparr>last_start_ns := now\<rparr> in
        obind (interval_ns t) (\<lambda>i. obind (wadd (last_start_ns t) i) (\<lambda>d. Returns (t\<lparr>deadline_ns := d\<rparr>)))
      else Returns (t\<lparr>deadline_ns := 0\<rparr>))"

definition set_lvt_timer :: "(u32 \<Rightarrow> nat \<Rightarrow> nat \<Rightarrow> u32) \<Rightarrow> u64 \<Rightarrow> u32 \<Rightarrow> apic_timer \<Rightarrow> (apic_timer, unit) rvm_result" where
  "set_lvt_timer gbs now bits t =
     (let timer_mode = gbs bits 17 19 in
      if timer_mode = timer_mode_code TscDeadline then Returns (Inl Unsupported, t)
      else if timer_mode = 3 then Returns (Inl InvalidParam, t)
      else obind (start_timer now (t\<lparr>lvt_timer_bits := bits\<rparr>)) (\<lambda>t. Returns (Inr (), t)))"

definition set_initial_count :: "u64 \<Rightarrow> u32 \<Rightarrow> apic_timer \<Rightarrow> (apic_timer, unit) rvm_result" where
  "set_initial_count now initial t =
     obind (start_timer now (t\<lparr>initial_count := initial\<rparr>)) (\<lambda>t. Returns (Inr (), t))"

definition set_divide :: "u64 \<Rightarrow> u32 \<Rightarrow> apic_timer \<Rightarrow> (apic_timer, unit) rvm_result" where
  "set_divide now dcr t =
     (let shift = (dcr AND 3) OR drop_bit 1 (dcr AND 8) in
      obind (start_timer now (t\<lparr>divide_shift := ucast (shift + 1) AND 7\<rparr>)) (\<lambda>t. Returns (Inr (), t)))"

section \<open>The registers of the virtual interrupt controller\<close>

definition APICID :: u32 where "APICID = 0x2"
definition VERSION :: u32 where "VERSION = 0x3"
definition EOI :: u32 where "EOI = 0xB"
definition LDR :: u32 where "LDR = 0xD"
definition SIVR :: u32 where "SIVR = 0xF"
definition ICR :: u32 where "ICR = 0x30"
definition LVT_TIMER :: u32 where "LVT_TIMER = 0x32"
definition LVT_THERMAL :: u32 where "LVT_THERMAL = 0x33"
definition LVT_PMI :: u32 where "LVT_PMI = 0x34"
definition LVT_LINT0 :: u32 where "LVT_LINT0 = 0x35"
definition LVT_LINT1 :: u32 where "LVT_LINT1 = 0x36"
definition LVT_ERR :: u32 where "LVT_ERR = 0x37"
definition INIT_COUNT :: u32 where "INIT_COUNT = 0x38"
definition CUR_COUNT :: u32 where "CUR_COUNT = 0x39"
definition DIV_CONF :: u32 where "DIV_CONF = 0x3E"

lemmas apic_registers = APICID_def VERSION_def EOI_def LDR_def SIVR_def ICR_def LVT_TIMER_def LVT_THERMAL_def LVT_PMI_def
  LVT_LINT0_def LVT_LINT1_def LVT_ERR_def INIT_COUNT_def CUR_COUNT_def DIV_CONF_def

definition in_msr_range :: "u32 \<Rightarrow> bool" where
  "in_msr_range msr \<longleftrightarrow> 0x800 \<le> msr \<and> msr < 0x840"

definition lapic_read :: "u64 \<Rightarrow> u32 \<Rightarrow> apic_timer \<Rightarrow> (apic_timer, u64) rvm_result" where
  "lapic_read now offset t =
     (if offset = SIVR then Returns (Inr 0x1ff, t)
      else if offset \<in> {LVT_THERMAL, LVT_PMI, LVT_LINT0, LVT_LINT1, LVT_ERR} then Returns (Inr 0x10000, t)
      else if offset = LVT_TIMER then Returns (Inr (ucast (lvt_timer t)), t)
      else if offset = INIT_COUNT then Returns (Inr (ucast (initial_count t)), t)
      else if offset = DIV_CONF then Returns (Inr (ucast (apic_divide t)), t)
      else if offset = CUR_COUNT then obind (current_counter now t) (\<lambda>c. Returns (Inr (ucast c), t))
      else Returns (Inl Unsupported, t))"

definition lapic_write :: "(u32 \<Rightarrow> nat \<Rightarrow> nat \<Rightarrow> u32) \<Rightarrow> u64 \<Rightarrow> u32 \<Rightarrow> u64 \<Rightarrow> apic_timer \<Rightarrow> (apic_timer, unit) rvm_result" where
  "lapic_write gbs now offset value t =
     (if offset \<noteq> ICR \<and> drop_bit 32 value \<noteq> 0 then Returns (Inl InvalidParam, t)
      else if offset = EOI then (if value \<noteq> 0 then Returns (Inl InvalidParam, t) else Returns (Inr (), t))
      else if offset \<in> {SIVR, LVT_THERMAL, LVT_PMI, LVT_LINT0, LVT_LINT1, LVT_ERR} then Returns (Inr (), t)
      else if offset = LVT_TIMER then set_lvt_timer gbs now (ucast value) t
      else if offset = INIT_COUNT then set_initial_count now (ucast value) t
      else if offset = DIV_CONF then set_divide now (ucast value) t
      else Returns (Inl Unsupported, t))"

definition lapic_rdmsr :: "u64 \<Rightarrow> u32 \<Rightarrow> apic_timer \<Rightarrow> (apic_timer, u64) rvm_result" where
  "lapic_rdmsr now msr t = obind (wsub msr 0x800) (\<lambda>offset. lapic_read now offset t)"

definition lapic_wrmsr :: "(u32 \<Rightarrow> nat \<Rightarrow> nat \<Rightarrow> u32) \<Rightarrow> u64 \<Rightarrow> u32 \<Rightarrow> u64 \<Rightarrow> apic_timer \<Rightarrow> (apic_timer, unit) rvm_result" where
  "lapic_wrmsr gbs now msr value t = obind (wsub msr 0x800) (\<lambda>offset. lapic_write gbs now offset value t)"

section \<open>Time and interrupts\<close>

text \<open>The timer as natural numbers: its period in nanoseconds.\<close>

definition period :: "apic_timer \<Rightarrow> nat" where
  "period t = unat (initial_count t) * 2 ^ unat (divide_shift t)"

text \<open>The divide configuration keeps the shift below 8.\<close>

definition timer_inv :: "apic_timer \<Rightarrow> bool" where
  "timer_inv t \<longleftrightarrow> unat (divide_shift t) < 8"

lemma unat_ucast_32_64: "unat (ucast (w::u32) :: u64) = unat w"
proof -
  have "unat w < 2 ^ 32" using unsigned_less [of w] by simp
  then show ?thesis by (simp add: unsigned_ucast_eq take_bit_nat_eq_self)
qed

lemma take_bit_unat_64: "take_bit 64 (unat (w::u64)) = unat w"
proof -
  have "unat w < 2 ^ 64" using unsigned_less [of w] by simp
  then show ?thesis by (rule take_bit_nat_eq_self)
qed

lemma cycle_nanos [simp]: "APIC_CYCLE_NANOS = 1"
  by (simp add: APIC_CYCLE_NANOS_def APIC_FREQ_MHZ_def)

lemma period_bound: "timer_inv t \<Longrightarrow> period t < 2 ^ 39"
proof -
  assume "timer_inv t"
  then have "(2::nat) ^ unat (divide_shift t) \<le> 2 ^ 7" by (intro power_increasing) (simp_all add: timer_inv_def)
  moreover have "unat (initial_count t) < 2 ^ 32" using unsigned_less [of "initial_count t"] by simp
  ultimately have "unat (initial_count t) * 2 ^ unat (divide_shift t) < 2 ^ 32 * 2 ^ 7" by (intro mult_less_le_imp_less) simp_all
  then show ?thesis by (simp add: period_def)
qed

lemma interval_ns_period:
  assumes "timer_inv t"
  shows "\<exists>i. interval_ns t = Returns i \<and> unat i = period t"
proof -
  let ?i = "push_bit (unat (divide_shift t)) (ucast (initial_count t)) :: u64"
  have "unat (ucast (initial_count t) :: u64) = unat (initial_count t)" by (rule unat_ucast_32_64)
  then have "unat ?i = period t mod 2 ^ 64"
    by (subst unsigned_push_bit_eq) (simp add: push_bit_eq_mult take_bit_eq_mod period_def)
  also have "\<dots> = period t" using period_bound [OF assms] by simp
  finally show ?thesis using assms by (simp add: interval_ns_def wshl_def timer_inv_def)
qed

text \<open>The interrupts of a sequence of polls at the given times: how many were raised, and the timer at the end.\<close>

primrec polls :: "u64 list \<Rightarrow> apic_timer \<Rightarrow> (nat \<times> apic_timer) outcome" where
  "polls [] t = Returns (0, t)"
| "polls (now # ts) t = obind (check_interrupt now t) (\<lambda>(b, t). obind (polls ts t) (\<lambda>(k, t). Returns (of_bool b + k, t)))"

lemma timer_fields_deadline [simp]:
  "timer_inv (t\<lparr>deadline_ns := d\<rparr>) = timer_inv t" "is_periodic (t\<lparr>deadline_ns := d\<rparr>) = is_periodic t"
  "is_masked (t\<lparr>deadline_ns := d\<rparr>) = is_masked t" "period (t\<lparr>deadline_ns := d\<rparr>) = period t"
  by (simp_all add: timer_inv_def is_periodic_def is_masked_def period_def)

lemma check_periodic:
  assumes "timer_inv t" "is_periodic t" "\<not> is_masked t" "deadline_ns t \<noteq> 0" "unat now < 2 ^ 63"
  shows "if unat now < unat (deadline_ns t) then check_interrupt now t = Returns (False, t)
    else \<exists>d. check_interrupt now t = Returns (True, t\<lparr>deadline_ns := d\<rparr>) \<and> unat d = unat (deadline_ns t) + period t"
proof (cases "unat now < unat (deadline_ns t)")
  case True
  then show ?thesis using assms(4) by (simp add: check_interrupt_def word_le_nat_alt not_le)
next
  case False
  obtain i where i: "interval_ns t = Returns i" "unat i = period t" using interval_ns_period [OF assms(1)] by blast
  have sum: "unat (deadline_ns t) + unat i < 2 ^ 64" using False assms(5) period_bound [OF assms(1)] i(2) by simp
  then have "unat (deadline_ns t + i) = unat (deadline_ns t) + period t" using i(2) by (simp add: unat_add_lem [THEN iffD1])
  moreover have "check_interrupt now t = Returns (True, t\<lparr>deadline_ns := deadline_ns t + i\<rparr>)"
    using False assms i(1) sum by (simp add: check_interrupt_def word_le_nat_alt not_le wadd_def)
  ultimately show ?thesis using False by auto
qed

lemma polls_periodic:
  assumes "timer_inv t" "is_periodic t" "\<not> is_masked t" "deadline_ns t \<noteq> 0" "\<forall>now\<in>set ts. unat now < 2 ^ 63"
  shows "\<exists>k d. polls ts t = Returns (k, t\<lparr>deadline_ns := d\<rparr>) \<and> unat d = unat (deadline_ns t) + k * period t \<and>
    (k = 0 \<or> (\<exists>now\<in>set ts. unat (deadline_ns t) + (k - 1) * period t \<le> unat now)) \<and> k \<le> length ts \<and>
    (\<forall>n\<le>length ts. (\<forall>now\<in>set ts. unat (deadline_ns t) + n * period t \<le> unat now + period t) \<longrightarrow> n \<le> k)"
  using assms
proof (induction ts arbitrary: t)
  case Nil
  then show ?case by (intro exI [of _ 0] exI [of _ "deadline_ns t"]) simp
next
  case (Cons now ts)
  let ?D = "unat (deadline_ns t)" and ?P = "period t"
  have now: "unat now < 2 ^ 63" and ts: "\<forall>now\<in>set ts. unat now < 2 ^ 63" using Cons.prems(5) by simp_all
  note check = check_periodic [OF Cons.prems(1-4) now]
  show ?case
  proof (cases "unat now < ?D")
    case True
    then have c: "check_interrupt now t = Returns (False, t)" using check by simp
    obtain k d where k: "polls ts t = Returns (k, t\<lparr>deadline_ns := d\<rparr>)" "unat d = ?D + k * ?P"
      "k = 0 \<or> (\<exists>now\<in>set ts. ?D + (k - 1) * ?P \<le> unat now)" "k \<le> length ts" using Cons.IH [OF Cons.prems(1-4) ts] by blast
    have "n \<le> k" if "\<forall>now\<in>set (now # ts). ?D + n * ?P \<le> unat now + ?P" for n
    proof -
      have "?D + n * ?P \<le> unat now + ?P" using that by simp
      then have "n * ?P < ?P" using True by linarith
      then show ?thesis by simp
    qed
    then show ?thesis using k c by (intro exI [of _ k] exI [of _ d]) auto
  next
    case False
    then obtain d where c: "check_interrupt now t = Returns (True, t\<lparr>deadline_ns := d\<rparr>)" "unat d = ?D + ?P" using check by auto
    let ?t = "t\<lparr>deadline_ns := d\<rparr>"
    have "deadline_ns ?t \<noteq> 0" using c(2) Cons.prems(4) by (auto simp: unat_eq_zero)
    then obtain k e where k: "polls ts ?t = Returns (k, ?t\<lparr>deadline_ns := e\<rparr>)" "unat e = ?D + ?P + k * ?P"
      "k = 0 \<or> (\<exists>now\<in>set ts. ?D + ?P + (k - 1) * ?P \<le> unat now)" "k \<le> length ts"
      "\<forall>n\<le>length ts. (\<forall>now\<in>set ts. ?D + ?P + n * ?P \<le> unat now + ?P) \<longrightarrow> n \<le> k"
      using Cons.IH [of ?t] Cons.prems(1-3) ts c(2) by auto
    have late: "\<exists>now\<in>set (now # ts). ?D + k * ?P \<le> unat now"
    proof (cases k)
      case 0
      then show ?thesis using False by simp
    next
      case (Suc m)
      then show ?thesis using k(3) by (auto simp: add.assoc)
    qed
    have "n \<le> Suc k" if "n \<le> length (now # ts)" "\<forall>now\<in>set (now # ts). ?D + n * ?P \<le> unat now + ?P" for n
    proof (cases n)
      case (Suc m)
      then have "\<forall>now\<in>set ts. ?D + ?P + m * ?P \<le> unat now + ?P" using that(2) by auto
      then show ?thesis using k(5) Suc that(1) by auto
    qed simp
    then show ?thesis using c k(1,2,4) late by (intro exI [of _ "Suc k"] exI [of _ e]) simp
  qed
qed

lemma polls_off: "deadline_ns t = 0 \<Longrightarrow> polls ts t = Returns (0, t)"
  by (induction ts) (simp_all add: check_interrupt_def)

lemma polls_one_shot:
  assumes "\<not> is_periodic t" "\<not> is_masked t" "deadline_ns t \<noteq> 0"
  shows "polls ts t = (if \<exists>now\<in>set ts. deadline_ns t \<le> now then Returns (1, t\<lparr>deadline_ns := 0\<rparr>) else Returns (0, t))"
proof (induction ts)
  case (Cons now ts)
  show ?case
  proof (cases "deadline_ns t \<le> now")
    case True
    then have "check_interrupt now t = Returns (True, t\<lparr>deadline_ns := 0\<rparr>)" using assms by (simp add: check_interrupt_def)
    then show ?thesis using True polls_off [of "t\<lparr>deadline_ns := 0\<rparr>" ts] by simp
  next
    case False
    then have "check_interrupt now t = Returns (False, t)" by (simp add: check_interrupt_def)
    then show ?thesis using False Cons.IH by simp
  qed
qed simp

lemma start_timer_deadline:
  assumes "timer_inv t" "initial_count t \<noteq> 0" "unat now < 2 ^ 63"
  shows "\<exists>d. start_timer now t = Returns (t\<lparr>last_start_ns := now, deadline_ns := d\<rparr>) \<and> unat d = unat now + period t"
proof -
  let ?t = "t\<lparr>last_start_ns := now\<rparr>"
  have inv: "timer_inv ?t" "period ?t = period t" using assms(1) by (simp_all add: timer_inv_def period_def)
  obtain i where i: "interval_ns ?t = Returns i" "unat i = period t" using interval_ns_period [OF inv(1)] inv(2) by auto
  have sum: "unat now + unat i < 2 ^ 64" using assms(3) period_bound [OF assms(1)] i(2) by simp
  then have "unat (now + i) = unat now + period t" using i(2) by (simp add: unat_add_lem [THEN iffD1])
  moreover have "start_timer now t = Returns (t\<lparr>last_start_ns := now, deadline_ns := now + i\<rparr>)"
    using assms(2) i(1) sum by (simp add: start_timer_def Let_def wadd_def)
  ultimately show ?thesis by blast
qed


definition sample_timer :: apic_timer where
  "sample_timer = \<lparr>lvt_timer_bits = 0x20030, divide_shift = 1, initial_count = 0, last_start_ns = 0, deadline_ns = 0\<rparr>"


lemma ucast_minus_1: "ucast (- 1 :: u8) AND 7 = (7::u32)"
proof -
  have eq: "(7::u32) = mask 3" by (simp add: mask_eq_exp_minus_1)
  show ?thesis unfolding eq by (rule bit_eqI) (auto simp: bit_and_iff bit_ucast_iff bit_mask_iff)
qed

lemma divide_code:
  fixes x :: u32
  assumes "x < 8"
  shows "ucast ((ucast (x + 1) AND 7 :: u8) - 1) AND 7 = x"
proof -
  have val: "unat x = n \<Longrightarrow> x = of_nat n" for n by auto
  have "unat x < 8" using assms by (simp add: word_less_nat_alt)
  then consider "unat x = 0" | "unat x = 1" | "unat x = 2" | "unat x = 3" | "unat x = 4" | "unat x = 5" | "unat x = 6" | "unat x = 7"
    by linarith
  then show ?thesis by cases (drule val, simp add: ucast_minus_1)+
qed

lemma bit_small_u32:
  "bit (3::u32) j \<longleftrightarrow> j < 2" "bit (8::u32) j \<longleftrightarrow> j = 3" "bit (4::u32) j \<longleftrightarrow> j = 2" "bit (0xB::u32) j \<longleftrightarrow> j < 2 \<or> j = 3"
proof -
  have exp: "bit (push_bit n 1 :: u32) j \<longleftrightarrow> j = n" if "n < 32" for n using that by (auto simp: bit_exp_iff push_bit_of_1)
  have low: "bit (mask 2 :: u32) j \<longleftrightarrow> j < 2" by (auto simp: bit_mask_iff)
  have eqs: "(3::u32) = mask 2" "(8::u32) = push_bit 3 1" "(4::u32) = push_bit 2 1" "(0xB::u32) = mask 2 OR push_bit 3 1"
    by (simp_all add: mask_eq_exp_minus_1)
  show "bit (3::u32) j \<longleftrightarrow> j < 2" unfolding eqs(1) by (rule low)
  show "bit (8::u32) j \<longleftrightarrow> j = 3" unfolding eqs(2) by (rule exp) simp
  show "bit (4::u32) j \<longleftrightarrow> j = 2" unfolding eqs(3) by (rule exp) simp
  show "bit (0xB::u32) j \<longleftrightarrow> j < 2 \<or> j = 3" unfolding eqs(4) bit_or_iff low using exp [of 3] by simp
qed

lemma divide_shift_set:
  "apic_divide (t\<lparr>divide_shift := s\<rparr>) = (let dcr = ucast (s - 1) AND 7 in (dcr AND 3) OR push_bit 1 (dcr AND 4))"
  by (simp add: apic_divide_def)

lemma take_bit_3_less:
  fixes x :: u32
  assumes "take_bit 3 x = x"
  shows "x < 8"
proof -
  have "unat (take_bit 3 x) = take_bit 3 (unat x)" by (rule unsigned_take_bit_eq)
  then have "unat x < 2 ^ 3" using assms take_bit_nat_less_exp [of 3 "unat x"] by simp
  then show ?thesis by (simp add: word_less_nat_alt)
qed

lemma divide_set:
  "apic_divide (t\<lparr>divide_shift := ucast (((d AND 3) OR drop_bit 1 (d AND 8)) + 1) AND 7\<rparr>) = d AND 0xB"
proof -
  let ?x = "(d AND 3) OR drop_bit 1 (d AND 8)"
  have tb: "take_bit 3 ?x = ?x"
    by (rule bit_eqI) (unfold bit_take_bit_iff bit_or_iff bit_and_iff bit_drop_bit_eq comp_apply bit_small_u32, auto)
  note small = take_bit_3_less [OF tb]
  have "(?x AND 3) OR push_bit 1 (?x AND 4) = d AND 0xB"
    by (rule bit_eqI)
      (unfold bit_or_iff bit_and_iff bit_push_bit_iff bit_drop_bit_eq comp_apply bit_small_u32, auto simp: numeral_2_eq_2 numeral_3_eq_3 less_Suc_eq)
  then show ?thesis unfolding divide_shift_set Let_def divide_code [OF small] .
qed

lemma timer_inv_divide: "timer_inv (t\<lparr>divide_shift := s AND 7\<rparr>)"
proof -
  have "s AND 7 = take_bit 3 s" by (simp add: take_bit_eq_mask mask_eq_exp_minus_1)
  then have "unat (s AND 7) = take_bit 3 (unat s)" by (simp add: unsigned_take_bit_eq)
  then show ?thesis using take_bit_nat_less_exp [of 3 "unat s"] by (simp add: timer_inv_def)
qed

lemma start_timer_total:
  assumes "timer_inv t" "unat now < 2 ^ 63"
  shows "\<exists>l d. start_timer now t = Returns (t\<lparr>last_start_ns := l, deadline_ns := d\<rparr>)"
proof (cases "initial_count t = 0")
  case True
  have "t\<lparr>deadline_ns := 0\<rparr> = t\<lparr>last_start_ns := last_start_ns t, deadline_ns := 0\<rparr>" by simp
  then show ?thesis using True by (intro exI [of _ "last_start_ns t"] exI [of _ 0]) (simp add: start_timer_def)
next
  case False
  then show ?thesis using start_timer_deadline [OF assms(1) False assms(2)] by blast
qed

lemma ucast_low_32: "drop_bit 32 v = 0 \<Longrightarrow> ucast (ucast (v::u64) :: u32) = v"
proof -
  assume high: "drop_bit 32 v = 0"
  have low: "j < 32" if "bit v j" for j
  proof (rule ccontr)
    assume "\<not> j < 32"
    then have "bit (drop_bit 32 v) (j - 32)" using that by (simp add: bit_drop_bit_eq)
    then show False using high by simp
  qed
  show ?thesis by (rule bit_eqI) (auto simp: bit_ucast_iff low)
qed

text \<open>The registers of the timer read back what the guest wrote.  For a value of 32 bits, and a timer mode that
  is supported, the write to the timer entry, the initial count or the divide configuration succeeds, and reading the
  same register returns the value; of the divide configuration only the three bits that the architecture defines.
  The shift stays below 8.\<close>

lemma lapic_registers_roundtrip:
  assumes "bit_ranges gbs sbs" "timer_inv t" "unat now < 2 ^ 63" "drop_bit 32 v = 0"
    and "r \<in> {LVT_TIMER, INIT_COUNT, DIV_CONF}" "r = LVT_TIMER \<longrightarrow> \<not> bit v 18"
  shows "\<exists>t'. lapic_write gbs now r v t = Returns (Inr (), t') \<and> timer_inv t' \<and>
    lapic_read now r t' = Returns (Inr (if r = DIV_CONF then v AND 0xB else v), t')"
proof -
  have v: "ucast (ucast v :: u32) = v" using ucast_low_32 [OF assms(4)] .
  have keep: "timer_inv (t'\<lparr>last_start_ns := l, deadline_ns := d\<rparr>) = timer_inv t'" "apic_divide (t'\<lparr>last_start_ns := l, deadline_ns := d\<rparr>) = apic_divide t'" for t' l d
    by (simp_all add: timer_inv_def apic_divide_def)
  consider "r = LVT_TIMER" | "r = INIT_COUNT" | "r = DIV_CONF" using assms(5) by blast
  then show ?thesis
  proof cases
    case 1
    have "\<not> bit (gbs (ucast v) 17 19) 1"
      using bit_ranges.bit_get_range [OF assms(1), of 17 19 "ucast v" 1] assms(6) 1 by (simp add: bit_ucast_iff)
    moreover have "bit (2::u32) 1" "bit (3::u32) 1" by simp_all
    ultimately have mode: "gbs (ucast v) 17 19 \<noteq> 2" "gbs (ucast v) 17 19 \<noteq> 3" by metis+
    obtain l d where s: "start_timer now (t\<lparr>lvt_timer_bits := ucast v\<rparr>) = Returns (t\<lparr>lvt_timer_bits := ucast v, last_start_ns := l, deadline_ns := d\<rparr>)"
      using start_timer_total [of "t\<lparr>lvt_timer_bits := ucast v\<rparr>" now] assms(2,3) by (auto simp: timer_inv_def)
    show ?thesis using 1 s v mode assms(2,4)
      by (simp add: lapic_write_def lapic_read_def apic_registers set_lvt_timer_def lvt_timer_def timer_inv_def)
  next
    case 2
    obtain l d where s: "start_timer now (t\<lparr>initial_count := ucast v\<rparr>) = Returns (t\<lparr>initial_count := ucast v, last_start_ns := l, deadline_ns := d\<rparr>)"
      using start_timer_total [of "t\<lparr>initial_count := ucast v\<rparr>" now] assms(2,3) by (auto simp: timer_inv_def)
    show ?thesis using 2 s v assms(2,4)
      by (simp add: lapic_write_def lapic_read_def apic_registers set_initial_count_def timer_inv_def)
  next
    case 3
    let ?s = "ucast ((ucast v AND 3 OR drop_bit 1 (ucast v AND 8 :: u32)) + 1) AND 7 :: u8"
    obtain l d where s: "start_timer now (t\<lparr>divide_shift := ?s\<rparr>) = Returns (t\<lparr>divide_shift := ?s, last_start_ns := l, deadline_ns := d\<rparr>)"
      using start_timer_total [OF timer_inv_divide assms(3)] by blast
    let ?t = "t\<lparr>divide_shift := ?s, last_start_ns := l, deadline_ns := d\<rparr>"
    have "ucast (a AND b) = (ucast a AND ucast b :: u64)" for a b :: u32
      by (rule bit_eqI) (auto simp: bit_ucast_iff bit_and_iff)
    from this [of "ucast v" "0xB"] have masked: "ucast (ucast v AND 0xB :: u32) = v AND 0xB" using v by simp
    have "lapic_write gbs now r v t = Returns (Inr (), ?t)"
    proof -
      have "lapic_write gbs now r v t = set_divide now (ucast v) t" using 3 assms(4) by (simp add: lapic_write_def apic_registers)
      then show ?thesis unfolding set_divide_def Let_def s obind.simps .
    qed
    moreover have "lapic_read now r ?t = Returns (Inr (v AND 0xB), ?t)"
    proof -
      have "lapic_read now r ?t = Returns (Inr (ucast (apic_divide ?t)), ?t)" using 3 by (simp add: lapic_read_def apic_registers)
      then show ?thesis unfolding keep divide_set masked .
    qed
    moreover have "timer_inv ?t" unfolding keep by (rule timer_inv_divide)
    ultimately show ?thesis using 3 by auto
  qed
qed

lemma lapic_registers_roundtrip_example:
  "\<exists>t'. lapic_write word_get_bits 5 DIV_CONF 0x9 sample_timer = Returns (Inr (), t') \<and> timer_inv t' \<and>
    lapic_read 5 DIV_CONF t' = Returns (Inr (if DIV_CONF = DIV_CONF then 0x9 AND 0xB else 0x9), t')"
  by (rule lapic_registers_roundtrip [OF word_ranges.bit_ranges_axioms])
    (simp_all add: sample_timer_def timer_inv_def apic_registers)

lemma wsub_count:
  fixes n :: u32 and x :: u64
  assumes "x < ucast n"
  shows "\<exists>c. wsub n (ucast x) = Returns c \<and> c \<le> n \<and> 0 < c"
proof -
  have x: "unat x < unat n" using assms unat_ucast_32_64 [of n] by (simp add: word_less_nat_alt)
  moreover have "unat n < 2 ^ 32" using unsigned_less [of n] by simp
  ultimately have "unat x < 2 ^ 32" by linarith
  then have "unat (ucast x :: u32) = unat x" by (simp add: unsigned_ucast_eq take_bit_nat_eq_self)
  then have le: "ucast x < n" using x by (simp add: word_less_nat_alt)
  then have "unat (n - ucast x) = unat n - unat (ucast x :: u32)" by (intro unat_sub) simp
  then have "n - ucast x \<le> n" "0 < n - ucast x" using le by (simp_all add: word_less_nat_alt word_le_nat_alt)
  then show ?thesis using le by (auto simp: wsub_def)
qed

text \<open>C33. The current count is at most the initial count, and above zero while a periodic timer counts; when no time
  is left a one-shot timer reads zero.  Reading it panics in one case: a periodic timer whose initial count is
  zero, where the remainder divides by zero.  A guest reaches that case by selecting the periodic mode before it
  writes a count.\<close>

theorem current_counter_bounds:
  assumes "timer_inv t" "last_start_ns t \<le> now"
  shows "if is_periodic t \<and> initial_count t = 0 then current_counter now t = Panics
    else \<exists>c. current_counter now t = Returns c \<and> c \<le> initial_count t \<and> (is_periodic t \<longrightarrow> 0 < c) \<and>
      (\<not> is_periodic t \<longrightarrow> (c = 0 \<longleftrightarrow> unat (now - last_start_ns t) div 2 ^ unat (divide_shift t) \<ge> unat (initial_count t)))"
proof -
  let ?n = "ucast (initial_count t) :: u64" and ?e = "drop_bit (unat (divide_shift t)) (now - last_start_ns t)"
  have shift: "unat (divide_shift t) < 64" using assms(1) by (simp add: timer_inv_def)
  have n: "unat ?n = unat (initial_count t)" by (rule unat_ucast_32_64)
  have e: "unat ?e = unat (now - last_start_ns t) div 2 ^ unat (divide_shift t)" by (subst unsigned_drop_bit_eq) (simp add: drop_bit_eq_div take_bit_unat_64)
  have run: "current_counter now t = (if is_periodic t then obind (wmod ?e ?n) (\<lambda>r. wsub (initial_count t) (ucast r))
      else if ?e < ?n then wsub (initial_count t) (ucast ?e) else Returns 0)"
    using assms(2) shift by (simp add: current_counter_def wsub_def wshr_def)
  show ?thesis
  proof (cases "is_periodic t")
    case True
    have "\<exists>c. obind (wmod ?e ?n) (\<lambda>r. wsub (initial_count t) (ucast r)) = Returns c \<and> c \<le> initial_count t \<and> 0 < c" if "initial_count t \<noteq> 0"
    proof -
      have "unat ?n \<noteq> 0" using that n by (simp add: unat_eq_zero)
      then have "?n \<noteq> 0" "?e mod ?n < ?n" by (auto simp: word_less_nat_alt unat_mod)
      then show ?thesis using wsub_count [of "?e mod ?n" "initial_count t"] by (simp add: wmod_def)
    qed
    then show ?thesis using True run by (auto simp: wmod_def)
  next
    case False
    show ?thesis
    proof (cases "?e < ?n")
      case True
      then have "unat ?e < unat (initial_count t)" using n by (simp add: word_less_nat_alt)
      then show ?thesis using False True run e wsub_count [OF True] by auto
    next
      case larger: False
      then have "unat (initial_count t) \<le> unat ?e" using n by (simp add: word_less_nat_alt)
      then show ?thesis using False larger run e by auto
    qed
  qed
qed

theorem current_counter_bounds_witness:
  "if is_periodic sample_timer \<and> initial_count sample_timer = 0 then current_counter 7 sample_timer = Panics
    else \<exists>c. current_counter 7 sample_timer = Returns c \<and> c \<le> initial_count sample_timer \<and> (is_periodic sample_timer \<longrightarrow> 0 < c) \<and>
      (\<not> is_periodic sample_timer \<longrightarrow> (c = 0 \<longleftrightarrow>
        unat (7 - last_start_ns sample_timer) div 2 ^ unat (divide_shift sample_timer) \<ge> unat (initial_count sample_timer)))"
  by (rule current_counter_bounds) (simp_all add: sample_timer_def timer_inv_def)

section \<open>The clock of the kernel\<close>

definition hal_current_time_nanos :: u64 where
  "hal_current_time_nanos = 0"

text \<open>The kernel's clock for the hypervisor always reads 0, so the timer of a guest never fires: once the guest
  has started it with a nonzero count, no number of polls raises an interrupt, and the timer does not change.\<close>

lemma kernel_clock_stops_timer:
  assumes "timer_inv t" "initial \<noteq> 0"
  shows "\<exists>t0. set_initial_count hal_current_time_nanos initial t = Returns (Inr (), t0) \<and>
    polls (replicate n hal_current_time_nanos) t0 = Returns (0, t0)"
proof -
  let ?t = "t\<lparr>initial_count := initial\<rparr>"
  obtain d where d: "start_timer 0 ?t = Returns (?t\<lparr>last_start_ns := 0, deadline_ns := d\<rparr>)" "unat d = period ?t"
    using start_timer_deadline [of ?t 0] assms by (auto simp: timer_inv_def)
  have "d \<noteq> 0" using d(2) assms(2) by (auto simp: period_def unat_eq_zero)
  moreover have "polls (replicate n 0) t0 = Returns (0, t0)" if "deadline_ns t0 \<noteq> 0" for t0
    using that by (induction n) (simp_all add: check_interrupt_def)
  ultimately show ?thesis using d(1) by (simp add: hal_current_time_nanos_def set_initial_count_def)
qed

lemma kernel_clock_stops_timer_example:
  "\<exists>t0. set_initial_count hal_current_time_nanos 1 sample_timer = Returns (Inr (), t0) \<and>
    polls (replicate 1000 hal_current_time_nanos) t0 = Returns (0, t0)"
  by (rule kernel_clock_stops_timer) (simp_all add: sample_timer_def timer_inv_def)

end
