(* ===== verification/GuestMem.thy ===== *)
theory GuestMem
  imports MemoryManager Nested
begin

text \<open>The memory of a guest: \<open>kernel/src/virt/kvm/gpm.rs\<close>, the constants of \<open>gconfig.rs\<close> and the
  set-up code of \<open>kernel/src/virt/kvm/mod.rs\<close>.

  A \<open>GuestPhysMemorySet\<close> is the record \<open>guest_mem\<close>: the regions in a \<open>BTreeMap\<close> and the
  nested page table.  The operations take the entry format \<open>P\<close> and the page allocator \<open>alloc\<close> of
  the table as arguments.  One expression of the code, \<open>start_gpa - start_hpa\<close>, is meant to wrap around:
  \<open>checks\<close> says whether the build has overflow checks.

  The invariant \<open>gpm_inv\<close> says that the regions do not overlap and that the page table maps exactly them.\<close>

section \<open>Regions\<close>

datatype mapper = Offset nat

record guest_memory_region =
  gpa :: nat
  hpa :: nat
  gm_size :: nat
  gm_flags :: mem_flags

record map_region =
  region_start :: nat
  region_size :: nat
  region_flags :: mem_flags
  region_mapper :: mapper

definition wrapping_sub :: "nat \<Rightarrow> nat \<Rightarrow> nat" where
  "wrapping_sub a b = (if b \<le> a then a - b else a + 2 ^ 64 - b)"

definition profile_sub :: "bool \<Rightarrow> nat \<Rightarrow> nat \<Rightarrow> nat outcome" where
  "profile_sub checks a b = (if checks then usub a b else Returns (wrapping_sub a b))"

definition new_offset :: "bool \<Rightarrow> nat \<Rightarrow> nat \<Rightarrow> nat \<Rightarrow> mem_flags \<Rightarrow> map_region outcome" where
  "new_offset checks start_gpa start_hpa sz fl =
     obind (profile_sub checks start_gpa start_hpa) (\<lambda>offset.
     Returns \<lparr>region_start = start_gpa, region_size = sz, region_flags = fl, region_mapper = Offset offset\<rparr>)"

definition is_overlap_with :: "map_region \<Rightarrow> map_region \<Rightarrow> bool outcome" where
  "is_overlap_with r other =
     (let s0 = region_start r in
      obind (uadd s0 (region_size r)) (\<lambda>e0.
      let s1 = region_start other in
      obind (uadd s1 (region_size other)) (\<lambda>e1.
      Returns (\<not> (e0 \<le> s1 \<or> e1 \<le> s0)))))"

definition target :: "map_region \<Rightarrow> nat \<Rightarrow> nat" where
  "target r g = (case region_mapper r of Offset off \<Rightarrow> wrapping_sub g off)"

text \<open>The loops of \<open>map_to\<close> and \<open>unmap_to\<close> from \<open>start\<close> on.\<close>

function map_pages :: "'p generic_pte \<Rightarrow> ('s \<Rightarrow> (nat option \<times> 's) outcome) \<Rightarrow> map_region \<Rightarrow> nat \<Rightarrow> nat
    \<Rightarrow> ('s, 'p) npt \<Rightarrow> (('s, 'p) npt, unit) rvm_result" where
  "map_pages P alloc r end_addr start st =
     (if start < end_addr then
        rbind (npt_map P alloc start (target r start) (region_flags r) st) (\<lambda>_ st.
        if start + 0x1000 \<le> usize_max then map_pages P alloc r end_addr (start + 0x1000) st else Panics)
      else Returns (Inr (), st))"
  by pat_completeness auto

termination by (relation "measure (\<lambda>(P, alloc, r, end_addr, start, st). end_addr - start)") auto

declare map_pages.simps [simp del]

definition map_to :: "'p generic_pte \<Rightarrow> ('s \<Rightarrow> (nat option \<times> 's) outcome) \<Rightarrow> map_region \<Rightarrow> ('s, 'p) npt
    \<Rightarrow> (('s, 'p) npt, unit) rvm_result" where
  "map_to P alloc r st =
     obind (uadd (region_start r) (region_size r)) (\<lambda>end_addr. map_pages P alloc r end_addr (region_start r) st)"

function unmap_pages :: "'p generic_pte \<Rightarrow> nat \<Rightarrow> nat \<Rightarrow> ('s, 'p) npt \<Rightarrow> (('s, 'p) npt, unit) rvm_result" where
  "unmap_pages P end_addr start st =
     (if start < end_addr then
        (case npt_unmap P start st of
           (Inl e, st) \<Rightarrow> Returns (Inl e, st)
         | (Inr _, st) \<Rightarrow> if start + 0x1000 \<le> usize_max then unmap_pages P end_addr (start + 0x1000) st else Panics)
      else Returns (Inr (), st))"
  by pat_completeness auto

termination by (relation "measure (\<lambda>(P, end_addr, start, st). end_addr - start)") auto

declare unmap_pages.simps [simp del]

definition unmap_to :: "'p generic_pte \<Rightarrow> map_region \<Rightarrow> ('s, 'p) npt \<Rightarrow> (('s, 'p) npt, unit) rvm_result" where
  "unmap_to P r st =
     obind (uadd (region_start r) (region_size r)) (\<lambda>end_addr. unmap_pages P end_addr (region_start r) st)"

definition map_region_from :: "bool \<Rightarrow> guest_memory_region \<Rightarrow> map_region outcome" where
  "map_region_from checks r = new_offset checks (gpa r) (hpa r) (gm_size r) (gm_flags r)"

section \<open>The set of regions\<close>

record ('s, 'p) guest_mem =
  regions :: "(nat, map_region) btree"
  gm_npt :: "('s, 'p) npt"

text \<open>\<open>new\<close>, over a page table that is still to be initialised.\<close>

definition guest_mem_new :: "'p generic_pte \<Rightarrow> ('s \<Rightarrow> (nat option \<times> 's) outcome) \<Rightarrow> ('s, 'p) npt
    \<Rightarrow> (('s, 'p) npt, ('s, 'p) guest_mem) rvm_result" where
  "guest_mem_new P alloc st =
     rbind (npt_new P alloc st) (\<lambda>_ st. Returns (Inr \<lparr>regions = [], gm_npt = st\<rparr>, st))"

definition nest_page_table_root :: "('s, 'p) guest_mem \<Rightarrow> nat" where
  "nest_page_table_root g = root_paddr (gm_npt g)"

definition test_free_area :: "('s, 'p) guest_mem \<Rightarrow> map_region \<Rightarrow> bool outcome" where
  "test_free_area g other =
     (let before = filter (\<lambda>(k, _). k < region_start other) (regions g);
          after = filter (\<lambda>(k, _). region_start other \<le> k) (regions g) in
      obind (if before = [] then Returns False else is_overlap_with (snd (last before)) other) (\<lambda>b.
      if b then Returns False
      else obind (if after = [] then Returns False else is_overlap_with (snd (hd after)) other) (\<lambda>b.
      if b then Returns False else Returns True)))"

definition gpm_map_region :: "'p generic_pte \<Rightarrow> ('s \<Rightarrow> (nat option \<times> 's) outcome) \<Rightarrow> map_region \<Rightarrow> ('s, 'p) guest_mem
    \<Rightarrow> (('s, 'p) guest_mem, unit) rvm_result" where
  "gpm_map_region P alloc region g =
     (if region_size region = 0 then Returns (Inr (), g)
      else obind (test_free_area g region) (\<lambda>free_area.
      if \<not> free_area then obind (uadd (region_start region) (region_size region)) (\<lambda>_. Returns (Inl InvalidParam, g))
      else obind (map_to P alloc region (gm_npt g)) (\<lambda>(r, st). case r of
          Inl e \<Rightarrow> Returns (Inl e, g\<lparr>gm_npt := st\<rparr>)
        | Inr _ \<Rightarrow> Returns (Inr (), g\<lparr>gm_npt := st, regions := bt_insert (region_start region) region (regions g)\<rparr>))))"

definition gpm_clear :: "'p generic_pte \<Rightarrow> ('s, 'p) guest_mem \<Rightarrow> ('s, 'p) guest_mem outcome" where
  "gpm_clear P g =
     obind (ofold (\<lambda>region st. obind (unmap_to P region st) (\<lambda>(r, st). case r of Inl _ \<Rightarrow> Panics | Inr _ \<Rightarrow> Returns st))
        (map snd (regions g)) (gm_npt g)) (\<lambda>st.
     Returns (g\<lparr>gm_npt := st, regions := []\<rparr>))"

section \<open>Setting up a guest\<close>

definition GUEST_IMAGE_SIZE :: nat where "GUEST_IMAGE_SIZE = 0x100000"
definition GUEST_PHYS_MEMORY_BASE :: nat where "GUEST_PHYS_MEMORY_BASE = 0"
definition GUEST_ENTRY :: nat where "GUEST_ENTRY = 0x200000"
definition GUEST_PHYS_MEMORY_SIZE :: nat where "GUEST_PHYS_MEMORY_SIZE = 0x1000000"

text \<open>\<open>guest_ram\<close> is the address of the static array \<open>GUEST_PHYS_MEMORY\<close>.\<close>

definition gpa_as_mut_ptr :: "nat \<Rightarrow> nat \<Rightarrow> nat outcome" where
  "gpa_as_mut_ptr guest_ram guest_paddr = uadd guest_paddr guest_ram"

definition load_guest_image :: "nat \<Rightarrow> nat \<Rightarrow> nat \<Rightarrow> nat \<Rightarrow> (nat \<Rightarrow> u8) \<Rightarrow> (nat \<Rightarrow> u8) outcome" where
  "load_guest_image guest_ram image_ptr load_gpa sz mem =
     obind (gpa_as_mut_ptr guest_ram load_gpa) (\<lambda>dst.
     Returns (\<lambda>a. if dst \<le> a \<and> a < dst + sz then mem (image_ptr + (a - dst)) else mem a))"

definition guest_memory_regions :: "nat \<Rightarrow> guest_memory_region list" where
  "guest_memory_regions ram_hpa =
     [\<lparr>gpa = GUEST_PHYS_MEMORY_BASE, hpa = ram_hpa, gm_size = GUEST_PHYS_MEMORY_SIZE, gm_flags = MEM_READ OR MEM_WRITE OR MEM_EXECUTE\<rparr>,
      \<lparr>gpa = 0xfec00000, hpa = 0xfec00000, gm_size = 0x1000, gm_flags = MEM_READ OR MEM_WRITE OR MEM_DEVICE\<rparr>,
      \<lparr>gpa = 0xfed00000, hpa = 0xfed00000, gm_size = 0x1000, gm_flags = MEM_READ OR MEM_WRITE OR MEM_DEVICE\<rparr>,
      \<lparr>gpa = 0xfee00000, hpa = 0xfee00000, gm_size = 0x1000, gm_flags = MEM_READ OR MEM_WRITE OR MEM_DEVICE\<rparr>]"

fun map_guest_regions :: "bool \<Rightarrow> 'p generic_pte \<Rightarrow> ('s \<Rightarrow> (nat option \<times> 's) outcome) \<Rightarrow> guest_memory_region list
    \<Rightarrow> ('s, 'p) guest_mem \<Rightarrow> (('s, 'p) guest_mem, unit) rvm_result" where
  "map_guest_regions checks P alloc [] g = Returns (Inr (), g)"
| "map_guest_regions checks P alloc (r # rs) g =
     obind (map_region_from checks r) (\<lambda>region.
     rbind (gpm_map_region P alloc region g) (\<lambda>_ g. map_guest_regions checks P alloc rs g))"

text \<open>\<open>hhdm\<close> is the offset of the direct map.  The result pairs the memory of the host after the image was
  copied with the guest memory; an error drops the guest memory.\<close>

definition setup_gpm :: "bool \<Rightarrow> 'p generic_pte \<Rightarrow> ('s \<Rightarrow> (nat option \<times> 's) outcome) \<Rightarrow> nat \<Rightarrow> nat \<Rightarrow> nat \<Rightarrow> (nat \<Rightarrow> u8)
    \<Rightarrow> ('s, 'p) npt \<Rightarrow> ((nat \<Rightarrow> u8) \<times> (rvm_error + ('s, 'p) guest_mem)) outcome" where
  "setup_gpm checks P alloc hhdm guest_ram entry_paddr mem st =
     obind (load_guest_image guest_ram entry_paddr GUEST_ENTRY GUEST_IMAGE_SIZE mem) (\<lambda>mem.
     obind (guest_mem_new P alloc st) (\<lambda>(r, st). case r of
       Inl e \<Rightarrow> Returns (mem, Inl e)
     | Inr g \<Rightarrow>
         obind (gpa_as_mut_ptr guest_ram GUEST_PHYS_MEMORY_BASE) (\<lambda>ram.
         obind (virt_addr_new ram) (\<lambda>ram.
         obind (convert_virtual_to_physical hhdm ram) (\<lambda>ram_hpa.
         obind (map_guest_regions checks P alloc (guest_memory_regions ram_hpa) g) (\<lambda>(r, g). case r of
           Inl e \<Rightarrow> obind (gpm_clear P g) (\<lambda>_. Returns (mem, Inl e))
         | Inr _ \<Rightarrow> Returns (mem, Inr g)))))))"

section \<open>The invariant\<close>

text \<open>A region whose pages fit the page table: aligned, inside 48 bits of guest addresses and 52 bits of host
  addresses, with flags that the entries can hold.\<close>

definition region_ok :: "'p generic_pte \<Rightarrow> map_region \<Rightarrow> bool" where
  "region_ok P r \<longleftrightarrow> region_start r mod 4096 = 0 \<and> target r (region_start r) mod 4096 = 0 \<and> region_size r mod 4096 = 0 \<and>
     region_start r + region_size r \<le> 2 ^ 48 \<and> target r (region_start r) + region_size r \<le> 2 ^ 52 \<and>
     (case region_mapper r of Offset off \<Rightarrow> off < 2 ^ 64) \<and>
     (\<forall>p. p mod 4096 = 0 \<longrightarrow> target r (region_start r) \<le> p \<longrightarrow> p < target r (region_start r) + region_size r \<longrightarrow>
        entry_target P (new_page P p (region_flags r) False) = Some (p, region_flags r))"

abbreviation in_region :: "map_region \<Rightarrow> nat \<Rightarrow> bool" where
  "in_region r v \<equiv> region_start r \<le> v \<and> v < region_start r + region_size r"

definition regions_apart :: "(nat, map_region) btree \<Rightarrow> bool" where
  "regions_apart m \<longleftrightarrow> sorted_wrt (\<lambda>(_, a) (_, b). region_start a + region_size a \<le> region_start b) m"

definition gpm_inv :: "'p generic_pte \<Rightarrow> ('s \<Rightarrow> nat set) \<Rightarrow> ('s \<Rightarrow> bool) \<Rightarrow> ('s, 'p) guest_mem \<Rightarrow> bool" where
  "gpm_inv P fr ok g \<longleftrightarrow> npt_inv P fr ok (gm_npt g) \<and> regions_apart (regions g) \<and>
     (\<forall>(k, r)\<in>set (regions g). k = region_start r \<and> 0 < region_size r \<and> region_ok P r) \<and>
     (\<forall>v<2 ^ 48. \<forall>e. page_map P (gm_npt g) v = Some e \<longleftrightarrow>
        (\<exists>(k, r)\<in>set (regions g). in_region r v \<and> e = (target r (align_down v), region_flags r)))"

lemma target_offset:
  assumes "region_ok P r" "i < region_size r"
  shows "target r (region_start r + i) = target r (region_start r) + i"
proof -
  obtain off where off: "region_mapper r = Offset off" by (cases "region_mapper r")
  have "target r (region_start r) + i < 2 ^ 64" "off < 2 ^ 64" using assms off by (simp_all add: region_ok_def)
  then show ?thesis unfolding target_def off by (auto simp: wrapping_sub_def split: if_splits)
qed

lemma aligned_page:
  assumes "s mod 4096 = 0" "s < (2::nat) ^ 48" "w < 2 ^ 48"
  shows "same_page w s \<longleftrightarrow> s \<le> w \<and> w < s + 4096"
proof -
  obtain q where q: "s = 4096 * q" using assms(1) by auto
  have "s div 4096 < 2 ^ 36" "w div 4096 < 2 ^ 36" using assms(2,3) by auto
  then have "same_page w s \<longleftrightarrow> w div 4096 = q" using q by (simp add: same_page_def)
  also have "\<dots> \<longleftrightarrow> s \<le> w \<and> w < s + 4096" using q by (auto simp: div_nat_eqI)
  finally show ?thesis .
qed

lemma align_down_in: "s mod 4096 = 0 \<Longrightarrow> s \<le> w \<Longrightarrow> w < s + 4096 \<Longrightarrow> align_down w = s"
proof -
  assume a: "s mod 4096 = 0" "s \<le> w" "w < s + 4096"
  then have "w div 4096 = s div 4096" by (metis add.commute div_nat_eqI mod_0_imp_dvd dvd_div_mult_self mult.commute mult_Suc_right)
  then show ?thesis using a(1) unfolding align_down_def by (simp add: minus_mod_eq_mult_div mod_0_imp_dvd)
qed

context nested_paging
begin

lemma map_page_step:
  assumes inv: "npt_inv P free inv st" and r: "region_ok P r" and s: "in_region r s" "s mod 4096 = 0"
    and unmapped: "page_map P st s = None"
  obtains (ok) st' where "npt_map P alloc s (target r s) (region_flags r) st = Returns (Inr (), st')" "npt_inv P free inv st'"
      "\<And>v. v < 2 ^ 48 \<Longrightarrow> page_map P st' v =
        (if s \<le> v \<and> v < s + 4096 then Some (target r (align_down v), region_flags r) else page_map P st v)"
    | (full) st' where "npt_map P alloc s (target r s) (region_flags r) st = Returns (Inl OutOfMemory, st')"
      "npt_inv P free inv st'" "\<And>v. page_map P st' v = page_map P st v"
proof -
  let ?i = "s - region_start r"
  have start: "region_start r mod 4096 = 0" "target r (region_start r) mod 4096 = 0" using r by (simp_all add: region_ok_def)
  have i: "?i < region_size r" "s = region_start r + ?i" "?i mod 4096 = 0"
    using s start by (auto simp: mod_0_imp_dvd dvd_diff_nat)
  have tgt: "target r s = target r (region_start r) + ?i" using target_offset [OF r i(1)] i(2) by simp
  then have tgt_aligned: "target r s mod 4096 = 0" using start(2) i(3) by (simp add: mod_0_imp_dvd)
  have down: "align_down (target r s) = target r s" using tgt_aligned by (simp add: align_down_def)
  have "\<forall>p. p mod 4096 = 0 \<longrightarrow> target r (region_start r) \<le> p \<longrightarrow> p < target r (region_start r) + region_size r \<longrightarrow>
      entry_target P (new_page P p (region_flags r) False) = Some (p, region_flags r)" using r by (simp add: region_ok_def)
  then have entry: "entry_target P (new_page P (target r s) (region_flags r) False) = Some (target r s, region_flags r)"
    using tgt_aligned tgt i(1) by simp
  have bound: "s < 2 ^ 48" using r s(1) by (simp add: region_ok_def)
  obtain res st' where m: "npt_map P alloc s (target r s) (region_flags r) st = Returns (res, st')" "npt_inv P free inv st'"
    "case res of
       Inr _ \<Rightarrow> page_map P st s = None \<and> (\<forall>w. page_map P st' w =
         (if same_page w s then entry_target P (new_page P (align_down (target r s)) (region_flags r) False) else page_map P st w))
     | Inl e \<Rightarrow> (\<forall>w. page_map P st' w = page_map P st w) \<and>
         (e = InvalidParam \<and> page_map P st s \<noteq> None \<or> e = OutOfMemory \<and> left (hal st) < 3)"
    using npt_map_spec [OF inv, of s "target r s" "region_flags r"] by blast
  show thesis
  proof (cases res)
    case (Inl e)
    then show thesis using m unmapped by (intro full [of st']) auto
  next
    case (Inr u)
    have "page_map P st' v = (if s \<le> v \<and> v < s + 4096 then Some (target r (align_down v), region_flags r) else page_map P st v)"
      if "v < 2 ^ 48" for v
      using m(3) Inr aligned_page [OF s(2) bound that] align_down_in [OF s(2), of v] unfolding down entry by auto
    then show thesis using m(1,2) Inr by (intro ok [of st']) simp_all
  qed
qed

lemma next_page:
  assumes "s mod 4096 = 0" "e mod 4096 = 0" "s < (e::nat)"
  shows "s + 4096 \<le> e" "(s + 4096) mod 4096 = 0"
proof -
  obtain a b where "s = 4096 * a" "e = 4096 * b" using assms(1,2) by (auto elim!: dvdE)
  then show "s + 4096 \<le> e" "(s + 4096) mod 4096 = 0" using assms(3) by auto
qed

lemma map_pages_spec:
  assumes "npt_inv P free inv st" "region_ok P r" "region_start r \<le> s" "s \<le> e" "e = region_start r + region_size r" "s mod 4096 = 0"
    and "\<And>v. s \<le> v \<Longrightarrow> v < e \<Longrightarrow> page_map P st v = None"
  shows "\<exists>res st'. map_pages P alloc r e s st = Returns (res, st') \<and> npt_inv P free inv st' \<and>
    (case res of
       Inr _ \<Rightarrow> (\<forall>v<2 ^ 48. page_map P st' v =
         (if s \<le> v \<and> v < e then Some (target r (align_down v), region_flags r) else page_map P st v))
     | Inl x \<Rightarrow> x = OutOfMemory \<and> (\<forall>v<2 ^ 48. \<not> (s \<le> v \<and> v < e) \<longrightarrow> page_map P st' v = page_map P st v))"
  using assms
proof (induction "e - s" arbitrary: s st rule: less_induct)
  case less
  show ?case
  proof (cases "s < e")
    case False
    then have "map_pages P alloc r e s st = Returns (Inr (), st)" by (subst map_pages.simps) simp
    then show ?thesis using less.prems(1,4) False by (intro exI [of _ "Inr ()"] exI [of _ st]) auto
  next
    case True
    have size: "region_start r mod 4096 = 0" "region_size r mod 4096 = 0" "e \<le> 2 ^ 48" using less.prems(2,5) by (simp_all add: region_ok_def)
    then have e: "e mod 4096 = 0" using less.prems(5) by (simp add: mod_0_imp_dvd)
    note nx = next_page [OF less.prems(6) e True]
    have fit: "s + 0x1000 \<le> usize_max" using nx(1) size(3) by (simp add: usize_max_def)
    have s: "in_region r s" using less.prems(3,5) True by simp
    have none: "page_map P st s = None" using less.prems(7) True by simp
    from less.prems(1,2) s less.prems(6) none show ?thesis
    proof (cases rule: map_page_step)
      case (full st')
      then show ?thesis using True less.prems by (intro exI [of _ "Inl OutOfMemory"] exI [of _ st']) (subst map_pages.simps, simp)
    next
      case (ok st1)
      have dec: "e - (s + 4096) < e - s" and le: "region_start r \<le> s + 4096" using True less.prems(3) by simp_all
      have run: "map_pages P alloc r e s st = map_pages P alloc r e (s + 0x1000) st1"
        using ok(1) True fit by (subst map_pages.simps) simp
      have free: "page_map P st1 v = None" if "s + 4096 \<le> v" "v < e" for v
        using ok(3) [of v] that less.prems(7) [of v] size(3) by simp
      obtain res st' where IH: "map_pages P alloc r e (s + 4096) st1 = Returns (res, st')" "npt_inv P free inv st'"
        "case res of
           Inr _ \<Rightarrow> (\<forall>v<2 ^ 48. page_map P st' v =
             (if s + 4096 \<le> v \<and> v < e then Some (target r (align_down v), region_flags r) else page_map P st1 v))
         | Inl x \<Rightarrow> x = OutOfMemory \<and> (\<forall>v<2 ^ 48. \<not> (s + 4096 \<le> v \<and> v < e) \<longrightarrow> page_map P st' v = page_map P st1 v)"
        using less.hyps [OF dec ok(2) less.prems(2) le nx(1) less.prems(5) nx(2) free] by meson
      have "case res of
           Inr _ \<Rightarrow> (\<forall>v<2 ^ 48. page_map P st' v =
             (if s \<le> v \<and> v < e then Some (target r (align_down v), region_flags r) else page_map P st v))
         | Inl x \<Rightarrow> x = OutOfMemory \<and> (\<forall>v<2 ^ 48. \<not> (s \<le> v \<and> v < e) \<longrightarrow> page_map P st' v = page_map P st v)"
        using IH(3) ok(3) nx(1) by (cases res) auto
      then show ?thesis using run IH(1,2) by (intro exI [of _ res] exI [of _ st']) simp
    qed
  qed
qed

lemma unmap_pages_spec:
  assumes "npt_inv P free inv st" "s \<le> e" "s mod 4096 = 0" "e mod 4096 = 0" "e \<le> 2 ^ 48"
    and "\<And>v. s \<le> v \<Longrightarrow> v < e \<Longrightarrow> page_map P st v \<noteq> None"
  shows "\<exists>st'. unmap_pages P e s st = Returns (Inr (), st') \<and> npt_inv P free inv st' \<and>
    (\<forall>v<2 ^ 48. page_map P st' v = (if s \<le> v \<and> v < e then None else page_map P st v))"
  using assms
proof (induction "e - s" arbitrary: s st rule: less_induct)
  case less
  show ?case
  proof (cases "s < e")
    case False
    then have "unmap_pages P e s st = Returns (Inr (), st)" by (subst unmap_pages.simps) simp
    then show ?thesis using less.prems(1,2) False by (intro exI [of _ st]) auto
  next
    case True
    note nx = next_page [OF less.prems(3,4) True]
    have fit: "s + 0x1000 \<le> usize_max" and s: "s < 2 ^ 48" using nx(1) less.prems(5) True by (simp_all add: usize_max_def)
    obtain p fl where pf: "page_map P st s = Some (p, fl)" using less.prems(6) [of s] True by auto
    then obtain st1 where 1: "npt_unmap P s st = (Inr p, st1)" "npt_inv P free inv st1"
      "\<forall>w. page_map P st1 w = (if same_page w s then None else page_map P st w)"
      using npt_unmap_spec [OF less.prems(1), of s] by auto
    have dec: "e - (s + 4096) < e - s" using True by simp
    have run: "unmap_pages P e s st = unmap_pages P e (s + 0x1000) st1" using 1(1) True fit by (subst unmap_pages.simps) simp
    have pm: "page_map P st1 v = (if s \<le> v \<and> v < s + 4096 then None else page_map P st v)" if "v < 2 ^ 48" for v
      using 1(3) aligned_page [OF less.prems(3) s that] by simp
    have mapped: "page_map P st1 v \<noteq> None" if "s + 4096 \<le> v" "v < e" for v
      using pm [of v] that less.prems(5,6) by simp
    obtain st' where IH: "unmap_pages P e (s + 4096) st1 = Returns (Inr (), st')" "npt_inv P free inv st'"
      "\<forall>v<2 ^ 48. page_map P st' v = (if s + 4096 \<le> v \<and> v < e then None else page_map P st1 v)"
      using less.hyps [OF dec 1(2) nx(1,2) less.prems(4,5) mapped] by meson
    then have "\<forall>v<2 ^ 48. page_map P st' v = (if s \<le> v \<and> v < e then None else page_map P st v)"
      using pm nx(1) by auto
    then show ?thesis using run IH(1,2) by (intro exI [of _ st']) simp
  qed
qed

end

lemma regions_apart_insert:
  assumes "regions_apart m" "\<forall>(k, r)\<in>set m. k = region_start r \<and> 0 < region_size r" "0 < region_size r0"
    and "\<forall>(k, r)\<in>set m. region_start r + region_size r \<le> region_start r0 \<or> region_start r0 + region_size r0 \<le> region_start r"
  shows "regions_apart (bt_insert (region_start r0) r0 m)" "set (bt_insert (region_start r0) r0 m) = insert (region_start r0, r0) (set m)"
proof -
  have "regions_apart (bt_insert (region_start r0) r0 m) \<and>
      set (bt_insert (region_start r0) r0 m) = insert (region_start r0, r0) (set m)"
    using assms
  proof (induction m)
    case Nil
    then show ?case by (simp add: regions_apart_def)
  next
    case (Cons kr m)
    obtain k r where kr: "kr = (k, r)" "k = region_start r" "0 < region_size r" using Cons.prems(2) by (cases kr) auto
    have tail: "regions_apart m" "\<forall>(k', r')\<in>set m. region_start r + region_size r \<le> region_start r'"
      using Cons.prems(1) kr(1) by (auto simp: regions_apart_def)
    have IH: "regions_apart (bt_insert (region_start r0) r0 m)"
      "set (bt_insert (region_start r0) r0 m) = insert (region_start r0, r0) (set m)"
      using Cons.IH [OF tail(1)] Cons.prems(2-4) by auto
    consider "region_start r + region_size r \<le> region_start r0" | "region_start r0 + region_size r0 \<le> region_start r"
      using Cons.prems(4) kr(1) by auto
    then show ?case
    proof cases
      case 1
      then have "bt_insert (region_start r0) r0 (kr # m) = kr # bt_insert (region_start r0) r0 m" using kr by auto
      then show ?thesis using IH tail(2) 1 kr by (auto simp: regions_apart_def)
    next
      case 2
      then have "bt_insert (region_start r0) r0 (kr # m) = (region_start r0, r0) # kr # m" using kr Cons.prems(3) by auto
      then show ?thesis using Cons.prems(1) tail(2) 2 kr by (fastforce simp: regions_apart_def)
    qed
  qed
  then show "regions_apart (bt_insert (region_start r0) r0 m)"
    "set (bt_insert (region_start r0) r0 m) = insert (region_start r0, r0) (set m)" by blast+
qed

lemma overlap_Returns:
  assumes "region_start a + region_size a \<le> 2 ^ 48" "region_start b + region_size b \<le> 2 ^ 48"
  shows "is_overlap_with a b = Returns (\<not> (region_start a + region_size a \<le> region_start b \<or> region_start b + region_size b \<le> region_start a))"
  using assms by (simp add: is_overlap_with_def uadd_def usize_max_def Let_def)

text \<open>The test looks at the two neighbours only, which is enough when the regions are apart.\<close>

lemma test_free_area_spec:
  assumes apart: "regions_apart (regions g)"
    and m: "\<forall>(k, r)\<in>set (regions g). k = region_start r \<and> 0 < region_size r \<and> region_start r + region_size r \<le> 2 ^ 48"
    and r: "0 < region_size r0" "region_start r0 + region_size r0 \<le> 2 ^ 48"
  shows "test_free_area g r0 = Returns (\<forall>(k, r)\<in>set (regions g).
    region_start r + region_size r \<le> region_start r0 \<or> region_start r0 + region_size r0 \<le> region_start r)"
proof -
  let ?B = "filter (\<lambda>(k, _). k < region_start r0) (regions g)" and ?A = "filter (\<lambda>(k, _). region_start r0 \<le> k) (regions g)"
  let ?free = "\<lambda>(k::nat, r). region_start r + region_size r \<le> region_start r0 \<or> region_start r0 + region_size r0 \<le> region_start r"
  have B: "(if ?B = [] then Returns False else is_overlap_with (snd (last ?B)) r0) = Returns (\<not> (\<forall>x\<in>set ?B. ?free x))"
  proof (cases "?B = []")
    case False
    then obtain xs l where B: "?B = xs @ [l]" using rev_exhaust by metis
    obtain k l' where l: "l = (k, l')" by (cases l)
    have "l \<in> set ?B" using B by simp
    then have l': "k = region_start l'" "k < region_start r0" "region_start l' + region_size l' \<le> 2 ^ 48" using m l by auto
    have "sorted_wrt (\<lambda>(_, a) (_, b). region_start a + region_size a \<le> region_start b) (xs @ [l])"
      using apart unfolding regions_apart_def B [symmetric] by (rule sorted_wrt_filter)
    then have "\<forall>x\<in>set xs. ?free x" using l l' by (auto simp: sorted_wrt_append)
    then have "(\<forall>x\<in>set ?B. ?free x) \<longleftrightarrow> ?free l" unfolding B by auto
    then show ?thesis using False B l l' overlap_Returns [OF l'(3) r(2)] by simp
  qed simp
  have A: "(if ?A = [] then Returns False else is_overlap_with (snd (hd ?A)) r0) = Returns (\<not> (\<forall>x\<in>set ?A. ?free x))"
  proof (cases ?A)
    case (Cons l xs)
    obtain k l' where l: "l = (k, l')" by (cases l)
    have "l \<in> set ?A" unfolding Cons by simp
    then have l': "k = region_start l'" "region_start r0 \<le> k" "0 < region_size l'" "region_start l' + region_size l' \<le> 2 ^ 48" using m l by auto
    have "sorted_wrt (\<lambda>(_, a) (_, b). region_start a + region_size a \<le> region_start b) (l # xs)"
      using apart unfolding regions_apart_def Cons [symmetric] by (rule sorted_wrt_filter)
    then have "(\<forall>x\<in>set (l # xs). ?free x) \<longleftrightarrow> ?free l" using l l' by auto
    then show ?thesis unfolding Cons using l l' overlap_Returns [OF l'(4) r(2)] by simp
  qed simp
  have split: "(\<forall>x\<in>set (regions g). ?free x) \<longleftrightarrow> (\<forall>x\<in>set ?B. ?free x) \<and> (\<forall>x\<in>set ?A. ?free x)" by fastforce
  have both: "(if \<not> b then Returns False else if \<not> a then Returns False else Returns True) = Returns (b \<and> a)" for a b by simp
  show ?thesis unfolding test_free_area_def Let_def B A obind.simps split by (rule both)
qed

lemma gpm_invD:
  assumes "gpm_inv P fr ok g"
  shows "npt_inv P fr ok (gm_npt g)" "regions_apart (regions g)"
    "(k, r) \<in> set (regions g) \<Longrightarrow> k = region_start r \<and> 0 < region_size r \<and> region_ok P r"
    "v < 2 ^ 48 \<Longrightarrow> page_map P (gm_npt g) v = Some e \<longleftrightarrow>
      (\<exists>(k, r)\<in>set (regions g). in_region r v \<and> e = (target r (align_down v), region_flags r))"
  using assms unfolding gpm_inv_def by blast+

text \<open>Whether a region meets none of the recorded ones.\<close>

definition area_free :: "('s, 'p) guest_mem \<Rightarrow> map_region \<Rightarrow> bool" where
  "area_free g r0 \<longleftrightarrow> (\<forall>(k, r)\<in>set (regions g).
     region_start r + region_size r \<le> region_start r0 \<or> region_start r0 + region_size r0 \<le> region_start r)"

lemma area_free_apart: "area_free g r0 \<Longrightarrow> (k, r) \<in> set (regions g) \<Longrightarrow> in_region r0 v \<Longrightarrow> \<not> in_region r v"
  unfolding area_free_def by fastforce

context nested_paging
begin

lemma gpm_test_free:
  assumes "gpm_inv P free inv g" "region_ok P r0" "0 < region_size r0"
  shows "test_free_area g r0 = Returns (area_free g r0)"
  unfolding area_free_def
proof (rule test_free_area_spec)
  show "\<forall>(k, r)\<in>set (regions g). k = region_start r \<and> 0 < region_size r \<and> region_start r + region_size r \<le> 2 ^ 48"
    using gpm_invD(3) [OF assms(1)] by (auto simp: region_ok_def)
qed (use assms gpm_invD(2) [OF assms(1)] in \<open>simp_all add: region_ok_def\<close>)

lemma gpm_map_pages:
  assumes "gpm_inv P free inv g" "region_ok P r0" "area_free g r0"
  shows "\<exists>res st'. map_to P alloc r0 (gm_npt g) = Returns (res, st') \<and> npt_inv P free inv st' \<and>
    (case res of
       Inr _ \<Rightarrow> (\<forall>v<2 ^ 48. page_map P st' v =
         (if in_region r0 v then Some (target r0 (align_down v), region_flags r0) else page_map P (gm_npt g) v))
     | Inl x \<Rightarrow> x = OutOfMemory \<and> (\<forall>v<2 ^ 48. \<not> in_region r0 v \<longrightarrow> page_map P st' v = page_map P (gm_npt g) v))"
proof -
  have r: "region_start r0 mod 4096 = 0" "region_start r0 + region_size r0 \<le> 2 ^ 48" using assms(2) by (simp_all add: region_ok_def)
  have none: "page_map P (gm_npt g) v = None" if "in_region r0 v" for v
  proof (rule ccontr)
    assume "page_map P (gm_npt g) v \<noteq> None"
    then obtain e where "page_map P (gm_npt g) v = Some e" by blast
    moreover have "v < 2 ^ 48" using that r(2) by simp
    ultimately show False using gpm_invD(4) [OF assms(1), of v e] area_free_apart [OF assms(3) _ that] by blast
  qed
  have "uadd (region_start r0) (region_size r0) = Returns (region_start r0 + region_size r0)"
    using r(2) by (simp add: uadd_def usize_max_def)
  then show ?thesis unfolding map_to_def
    using map_pages_spec [OF gpm_invD(1) [OF assms(1)] assms(2) order_refl le_add1 refl r(1) none] by simp
qed

lemma gpm_map_region_spec:
  assumes "gpm_inv P free inv g" "region_ok P r0"
  shows "\<exists>res g'. gpm_map_region P alloc r0 g = Returns (res, g') \<and>
    (if region_size r0 = 0 then res = Inr () \<and> g' = g
     else if \<not> area_free g r0 then res = Inl InvalidParam \<and> g' = g
     else case res of
         Inr _ \<Rightarrow> gpm_inv P free inv g' \<and> set (regions g') = insert (region_start r0, r0) (set (regions g))
       | Inl x \<Rightarrow> x = OutOfMemory \<and> regions g' = regions g \<and> npt_inv P free inv (gm_npt g') \<and>
           (\<forall>v<2 ^ 48. \<not> in_region r0 v \<longrightarrow> page_map P (gm_npt g') v = page_map P (gm_npt g) v))"
proof (cases "region_size r0 = 0")
  case True
  then show ?thesis by (simp add: gpm_map_region_def)
next
  case False
  note test = gpm_test_free [OF assms] False
  have sum: "uadd (region_start r0) (region_size r0) = Returns (region_start r0 + region_size r0)"
    using assms(2) by (simp add: region_ok_def uadd_def usize_max_def)
  show ?thesis
  proof (cases "area_free g r0")
    case taken: False
    then show ?thesis using False test sum by (simp add: gpm_map_region_def)
  next
    case True
    obtain res st' where m: "map_to P alloc r0 (gm_npt g) = Returns (res, st')" "npt_inv P free inv st'"
      "case res of
         Inr _ \<Rightarrow> (\<forall>v<2 ^ 48. page_map P st' v =
           (if in_region r0 v then Some (target r0 (align_down v), region_flags r0) else page_map P (gm_npt g) v))
       | Inl x \<Rightarrow> x = OutOfMemory \<and> (\<forall>v<2 ^ 48. \<not> in_region r0 v \<longrightarrow> page_map P st' v = page_map P (gm_npt g) v)"
      using gpm_map_pages [OF assms True] by meson
    show ?thesis
    proof (cases res)
      case (Inl x)
      then have "gpm_map_region P alloc r0 g = Returns (Inl x, g\<lparr>gm_npt := st'\<rparr>)"
        using False True test m(1) by (simp add: gpm_map_region_def)
      then show ?thesis using False True Inl m by simp
    next
      case (Inr u)
      let ?g = "g\<lparr>gm_npt := st', regions := bt_insert (region_start r0) r0 (regions g)\<rparr>"
      have run: "gpm_map_region P alloc r0 g = Returns (Inr (), ?g)"
        using False True test m(1) Inr by (simp add: gpm_map_region_def)
      have apart: "regions_apart (regions ?g)" "set (regions ?g) = insert (region_start r0, r0) (set (regions g))"
        using regions_apart_insert [OF gpm_invD(2) [OF assms(1)], of r0] gpm_invD(3) [OF assms(1)] False True
        by (auto simp: area_free_def)
      have old: "page_map P (gm_npt g) v = Some e \<longleftrightarrow>
          (\<exists>(k, r)\<in>set (regions g). in_region r v \<and> e = (target r (align_down v), region_flags r))" if "v < 2 ^ 48" for v e
        using gpm_invD(4) [OF assms(1) that] .
      have "page_map P st' v = Some e \<longleftrightarrow>
          (\<exists>(k, r)\<in>set (regions ?g). in_region r v \<and> e = (target r (align_down v), region_flags r))" if "v < 2 ^ 48" for v e
      proof (cases "in_region r0 v")
        case in0: True
        then have "\<not> (\<exists>(k, r)\<in>set (regions g). in_region r v \<and> e = (target r (align_down v), region_flags r))"
          using area_free_apart [OF True _ in0] by blast
        then show ?thesis using m(3) Inr in0 that unfolding apart(2) by auto
      next
        case out: False
        then show ?thesis using m(3) Inr that old [OF that, of e] unfolding apart(2) by auto
      qed
      then have "gpm_inv P free inv ?g"
        using m(2) apart gpm_invD(3) [OF assms(1)] assms(2) False unfolding gpm_inv_def by auto
      then show ?thesis using False True run apart(2) by (intro exI [of _ "Inr ()"] exI [of _ ?g]) simp
    qed
  qed
qed

end

text \<open>What \<open>clear\<close> relies on: the recorded regions are apart and all their pages are mapped.\<close>

definition gpm_live :: "'p generic_pte \<Rightarrow> ('s \<Rightarrow> nat set) \<Rightarrow> ('s \<Rightarrow> bool) \<Rightarrow> ('s, 'p) guest_mem \<Rightarrow> bool" where
  "gpm_live P fr ok g \<longleftrightarrow> npt_inv P fr ok (gm_npt g) \<and> regions_apart (regions g) \<and>
     (\<forall>(k, r)\<in>set (regions g). 0 < region_size r \<and> region_ok P r \<and> (\<forall>v. in_region r v \<longrightarrow> page_map P (gm_npt g) v \<noteq> None))"

lemma gpm_inv_live: "gpm_inv P fr ok g \<Longrightarrow> gpm_live P fr ok g"
proof -
  assume inv: "gpm_inv P fr ok g"
  have "page_map P (gm_npt g) v \<noteq> None" if "(k, r) \<in> set (regions g)" "in_region r v" for k r v
  proof -
    have "v < 2 ^ 48" using gpm_invD(3) [OF inv that(1)] that(2) by (simp add: region_ok_def)
    from gpm_invD(4) [OF inv this, of "(target r (align_down v), region_flags r)"] that show ?thesis by blast
  qed
  then show "gpm_live P fr ok g" using gpm_invD(1-3) [OF inv] unfolding gpm_live_def by blast
qed

context nested_paging
begin

lemma unmap_region:
  assumes "npt_inv P free inv st" "region_ok P r" "\<And>v. in_region r v \<Longrightarrow> page_map P st v \<noteq> None"
  shows "\<exists>st'. unmap_to P r st = Returns (Inr (), st') \<and> npt_inv P free inv st' \<and>
    (\<forall>v<2 ^ 48. page_map P st' v = (if in_region r v then None else page_map P st v))"
proof -
  have r: "region_start r mod 4096 = 0" "(region_start r + region_size r) mod 4096 = 0" "region_start r + region_size r \<le> 2 ^ 48"
    using assms(2) by (auto simp: region_ok_def mod_0_imp_dvd)
  have "uadd (region_start r) (region_size r) = Returns (region_start r + region_size r)"
    using r(3) by (simp add: uadd_def usize_max_def)
  then show ?thesis unfolding unmap_to_def
    using unmap_pages_spec [OF assms(1) le_add1 r] assms(3) by auto
qed

lemma clear_fold:
  assumes "npt_inv P free inv st" "regions_apart m"
    "\<forall>(k, r)\<in>set m. 0 < region_size r \<and> region_ok P r \<and> (\<forall>v. in_region r v \<longrightarrow> page_map P st v \<noteq> None)"
  shows "\<exists>st'. ofold (\<lambda>region st. obind (unmap_to P region st) (\<lambda>(r, st). case r of Inl _ \<Rightarrow> Panics | Inr _ \<Rightarrow> Returns st))
      (map snd m) st = Returns st' \<and> npt_inv P free inv st' \<and>
    (\<forall>v<2 ^ 48. page_map P st' v = (if \<exists>(k, r)\<in>set m. in_region r v then None else page_map P st v))"
  using assms
proof (induction m arbitrary: st)
  case Nil
  then show ?case by (intro exI [of _ st]) simp
next
  case (Cons kr m)
  obtain k r where kr: "kr = (k, r)" by (cases kr)
  have r: "region_ok P r" "\<And>v. in_region r v \<Longrightarrow> page_map P st v \<noteq> None" using Cons.prems(3) kr by auto
  obtain st1 where 1: "unmap_to P r st = Returns (Inr (), st1)" "npt_inv P free inv st1"
    "\<forall>v<2 ^ 48. page_map P st1 v = (if in_region r v then None else page_map P st v)"
    using unmap_region [OF Cons.prems(1) r] by blast
  have apart: "regions_apart m" "\<And>k' r'. (k', r') \<in> set m \<Longrightarrow> region_start r + region_size r \<le> region_start r'"
    using Cons.prems(2) kr by (auto simp: regions_apart_def)
  have live: "\<forall>(k', r')\<in>set m. 0 < region_size r' \<and> region_ok P r' \<and> (\<forall>v. in_region r' v \<longrightarrow> page_map P st1 v \<noteq> None)"
  proof (clarify, intro conjI allI impI)
    fix k' r' assume mem: "(k', r') \<in> set m"
    then show ok: "0 < region_size r'" "region_ok P r'" using Cons.prems(3) by auto
    fix v assume v: "in_region r' v"
    have "v < 2 ^ 48" using ok(2) v by (simp add: region_ok_def)
    moreover have "\<not> in_region r v" using apart(2) [OF mem] v by simp
    moreover have "page_map P st v \<noteq> None" using Cons.prems(3) mem v by auto
    ultimately show "page_map P st1 v \<noteq> None" using 1(3) by simp
  qed
  obtain st' where IH: "ofold (\<lambda>region st. obind (unmap_to P region st) (\<lambda>(r, st). case r of Inl _ \<Rightarrow> Panics | Inr _ \<Rightarrow> Returns st))
      (map snd m) st1 = Returns st'" "npt_inv P free inv st'"
    "\<forall>v<2 ^ 48. page_map P st' v = (if \<exists>(k, r)\<in>set m. in_region r v then None else page_map P st1 v)"
    using Cons.IH [OF 1(2) apart(1) live] by meson
  have "\<forall>v<2 ^ 48. page_map P st' v = (if \<exists>(k, r)\<in>set (kr # m). in_region r v then None else page_map P st v)"
    using IH(3) 1(3) kr by auto
  then show ?case using IH(1,2) 1(1) kr by (intro exI [of _ st']) simp
qed

lemma gpm_clear_spec:
  assumes "gpm_live P free inv g"
  shows "\<exists>g'. gpm_clear P g = Returns g' \<and> regions g' = [] \<and> npt_inv P free inv (gm_npt g') \<and>
    (\<forall>v<2 ^ 48. page_map P (gm_npt g') v = (if \<exists>(k, r)\<in>set (regions g). in_region r v then None else page_map P (gm_npt g) v))"
proof -
  have live: "npt_inv P free inv (gm_npt g)" "regions_apart (regions g)"
    "\<forall>(k, r)\<in>set (regions g). 0 < region_size r \<and> region_ok P r \<and> (\<forall>v. in_region r v \<longrightarrow> page_map P (gm_npt g) v \<noteq> None)"
    using assms unfolding gpm_live_def by blast+
  obtain st' where st': "ofold (\<lambda>region st. obind (unmap_to P region st) (\<lambda>(r, st). case r of Inl _ \<Rightarrow> Panics | Inr _ \<Rightarrow> Returns st))
      (map snd (regions g)) (gm_npt g) = Returns st'" "npt_inv P free inv st'"
    "\<forall>v<2 ^ 48. page_map P st' v = (if \<exists>(k, r)\<in>set (regions g). in_region r v then None else page_map P (gm_npt g) v)"
    using clear_fold [OF live] by meson
  show ?thesis unfolding gpm_clear_def st'(1) obind.simps
    using st'(2,3) by (intro exI [of _ "g\<lparr>gm_npt := st', regions := []\<rparr>"]) simp
qed

lemma map_guest_regions_spec:
  assumes "gpm_inv P free inv g" "list_all2 (\<lambda>r m. map_region_from checks r = Returns m) rs ms"
    and "\<forall>m\<in>set ms. region_ok P m \<and> 0 < region_size m \<and> area_free g m"
    and "sorted_wrt (\<lambda>a b. region_start a + region_size a \<le> region_start b) ms"
  shows "\<exists>res g'. map_guest_regions checks P alloc rs g = Returns (res, g') \<and>
    (case res of
       Inr _ \<Rightarrow> gpm_inv P free inv g' \<and> set (regions g') = set (regions g) \<union> (\<lambda>m. (region_start m, m)) ` set ms
     | Inl x \<Rightarrow> x = OutOfMemory \<and> gpm_live P free inv g')"
  using assms(2,1,3,4)
proof (induction rs ms arbitrary: g rule: list_all2_induct)
  case Nil
  then show ?case by (intro exI [of _ "Inr ()"] exI [of _ g]) simp
next
  case (Cons r rs m ms)
  have m: "region_ok P m" "region_size m \<noteq> 0" "area_free g m" using Cons.prems(2) by auto
  obtain res g1 where 1: "gpm_map_region P alloc m g = Returns (res, g1)"
    "case res of
       Inr _ \<Rightarrow> gpm_inv P free inv g1 \<and> set (regions g1) = insert (region_start m, m) (set (regions g))
     | Inl x \<Rightarrow> x = OutOfMemory \<and> regions g1 = regions g \<and> npt_inv P free inv (gm_npt g1) \<and>
         (\<forall>v<2 ^ 48. \<not> in_region m v \<longrightarrow> page_map P (gm_npt g1) v = page_map P (gm_npt g) v)"
    using gpm_map_region_spec [OF Cons.prems(1) m(1)] m(2,3) by auto
  show ?case
  proof (cases res)
    case (Inr u)
    have free: "\<forall>m'\<in>set ms. region_ok P m' \<and> 0 < region_size m' \<and> area_free g1 m'"
    proof
      fix m' assume m': "m' \<in> set ms"
      then have "region_start m + region_size m \<le> region_start m'" using Cons.prems(3) by simp
      then show "region_ok P m' \<and> 0 < region_size m' \<and> area_free g1 m'"
        using Cons.prems(2) m' 1(2) Inr by (auto simp: area_free_def)
    qed
    obtain res' g' where IH: "map_guest_regions checks P alloc rs g1 = Returns (res', g')"
      "case res' of
         Inr _ \<Rightarrow> gpm_inv P free inv g' \<and> set (regions g') = set (regions g1) \<union> (\<lambda>m. (region_start m, m)) ` set ms
       | Inl x \<Rightarrow> x = OutOfMemory \<and> gpm_live P free inv g'"
      using Cons.IH [of g1] 1(2) Inr free Cons.prems(3) by auto
    have "map_guest_regions checks P alloc (r # rs) g = Returns (res', g')" using Cons.hyps(1) 1(1) Inr IH(1) by simp
    moreover have "set (regions g1) = insert (region_start m, m) (set (regions g))" using 1(2) Inr by simp
    ultimately show ?thesis using IH(2) by (intro exI [of _ res'] exI [of _ g']) (cases res'; auto)
  next
    case (Inl x)
    have "page_map P (gm_npt g1) v \<noteq> None" if "(k, r') \<in> set (regions g)" "in_region r' v" for k r' v
    proof -
      have live: "gpm_live P free inv g" by (rule gpm_inv_live [OF Cons.prems(1)])
      then have "page_map P (gm_npt g) v \<noteq> None" "v < 2 ^ 48" using that by (auto simp: gpm_live_def region_ok_def)
      moreover have "\<not> in_region m v" using area_free_apart [OF m(3) that(1)] that(2) by blast
      ultimately show ?thesis using 1(2) Inl by simp
    qed
    then have "gpm_live P free inv g1" using 1(2) Inl gpm_invD(2,3) [OF Cons.prems(1)] by (auto simp: gpm_live_def)
    then show ?thesis using Cons.hyps(1) 1 Inl by (intro exI [of _ "Inl x"] exI [of _ g1]) simp
  qed
qed

end

section \<open>Guest memory in the extended page table\<close>

context ept_host
begin

lemmas ept_map_region = npt.gpm_map_region_spec
lemmas ept_clear = npt.gpm_clear_spec
lemmas ept_guest_regions = npt.map_guest_regions_spec
lemmas ept_new = npt.npt_new_spec

end

abbreviation ept_gpm_inv :: "get_bits_fn \<Rightarrow> set_bits_fn \<Rightarrow> (frame_allocator, u64) guest_mem \<Rightarrow> bool" where
  "ept_gpm_inv gbs sbs \<equiv> gpm_inv (ept_pte gbs sbs) (\<lambda>a. frame_set (bitmap a)) kernel_pages"

lemma ept_region_ok:
  assumes "bit_range gbs sbs" "region_start r mod 4096 = 0" "target r (region_start r) mod 4096 = 0" "region_size r mod 4096 = 0"
    and "region_start r + region_size r \<le> 2 ^ 48" "target r (region_start r) + region_size r \<le> 2 ^ 52"
    and "case region_mapper r of Offset off \<Rightarrow> off < 2 ^ 64" "valid_flags (region_flags r)" "region_flags r \<noteq> MEM_DEVICE"
  shows "region_ok (ept_pte gbs sbs) r"
proof -
  have "entry_target (ept_pte gbs sbs) (new_page (ept_pte gbs sbs) p (region_flags r) False) = Some (p, region_flags r)"
    if "p mod 4096 = 0" "p < 2 ^ 52" for p
    using bit_range.ept_new_page_fields [OF assms(1), of "region_flags r" p False]
      bit_range.ept_new_page_unused [OF assms(1), of "region_flags r" p False] assms(8,9) that
    by (simp add: ept_pte_def entry_target_def)
  then show ?thesis using assms unfolding region_ok_def by auto
qed

text \<open>C6. The memory set of a guest keeps its invariant: the regions are apart and the extended page table maps
  exactly their pages, each to its host page with the flags of the region.  \<open>map_region\<close> refuses a region
  that meets a recorded one, although it only looks at the two neighbours; it ignores an empty region; otherwise it
  records the region and maps it, or runs out of frames, and then no page outside the region changes.
  \<open>clear\<close> never panics and leaves no region and no mapped page.\<close>

theorem guest_memory_exact:
  assumes "byte_bits gb sb" "bit_range gbs sbs" "ept_gpm_inv gbs sbs g" "region_ok (ept_pte gbs sbs) r"
  shows "(\<exists>res g'. gpm_map_region (ept_pte gbs sbs) (hal_alloc_page gb sb) r g = Returns (res, g') \<and>
      (if region_size r = 0 then res = Inr () \<and> g' = g
       else if \<not> area_free g r then res = Inl InvalidParam \<and> g' = g
       else case res of
           Inr _ \<Rightarrow> ept_gpm_inv gbs sbs g' \<and> set (regions g') = insert (region_start r, r) (set (regions g))
         | Inl x \<Rightarrow> x = OutOfMemory \<and> regions g' = regions g \<and> ept_inv gbs sbs (gm_npt g') \<and>
             (\<forall>v<2 ^ 48. \<not> in_region r v \<longrightarrow> page_map (ept_pte gbs sbs) (gm_npt g') v = page_map (ept_pte gbs sbs) (gm_npt g) v))) \<and>
    (\<exists>g'. gpm_clear (ept_pte gbs sbs) g = Returns g' \<and> ept_gpm_inv gbs sbs g' \<and> regions g' = [] \<and>
      (\<forall>v<2 ^ 48. page_map (ept_pte gbs sbs) (gm_npt g') v = None))"
proof
  have host: "ept_host gb sb gbs sbs" using assms(1,2) by (simp add: ept_host_def)
  show "\<exists>res g'. gpm_map_region (ept_pte gbs sbs) (hal_alloc_page gb sb) r g = Returns (res, g') \<and>
      (if region_size r = 0 then res = Inr () \<and> g' = g
       else if \<not> area_free g r then res = Inl InvalidParam \<and> g' = g
       else case res of
           Inr _ \<Rightarrow> ept_gpm_inv gbs sbs g' \<and> set (regions g') = insert (region_start r, r) (set (regions g))
         | Inl x \<Rightarrow> x = OutOfMemory \<and> regions g' = regions g \<and> ept_inv gbs sbs (gm_npt g') \<and>
             (\<forall>v<2 ^ 48. \<not> in_region r v \<longrightarrow> page_map (ept_pte gbs sbs) (gm_npt g') v = page_map (ept_pte gbs sbs) (gm_npt g) v))"
    by (rule ept_host.ept_map_region [OF host assms(3,4)])
  obtain g' where g': "gpm_clear (ept_pte gbs sbs) g = Returns g'" "regions g' = []" "ept_inv gbs sbs (gm_npt g')"
    "\<forall>v<2 ^ 48. page_map (ept_pte gbs sbs) (gm_npt g') v =
      (if \<exists>(k, r)\<in>set (regions g). in_region r v then None else page_map (ept_pte gbs sbs) (gm_npt g) v)"
    using ept_host.ept_clear [OF host gpm_inv_live [OF assms(3)]] by blast
  have none: "page_map (ept_pte gbs sbs) (gm_npt g') v = None" if "v < 2 ^ 48" for v
  proof (cases "page_map (ept_pte gbs sbs) (gm_npt g) v")
    case None
    then show ?thesis using g'(4) that by simp
  next
    case (Some e)
    then have "\<exists>(k, r)\<in>set (regions g). in_region r v" using gpm_invD(4) [OF assms(3) that, of e] by blast
    then show ?thesis using g'(4) that by simp
  qed
  then have "ept_gpm_inv gbs sbs g'" using g'(2,3) by (simp add: gpm_inv_def regions_apart_def)
  then show "\<exists>g'. gpm_clear (ept_pte gbs sbs) g = Returns g' \<and> ept_gpm_inv gbs sbs g' \<and> regions g' = [] \<and>
      (\<forall>v<2 ^ 48. page_map (ept_pte gbs sbs) (gm_npt g') v = None)" using g'(1,2) none by blast
qed

definition sample_guest :: "(frame_allocator, u64) guest_mem" where
  "sample_guest = \<lparr>regions = [], gm_npt = sample_npt\<rparr>"

definition sample_region :: map_region where
  "sample_region = \<lparr>region_start = 0x200000, region_size = 0x1000, region_flags = 3, region_mapper = Offset 0x1F9000\<rparr>"

lemma sample_guest_inv: "ept_gpm_inv word_get_bits word_set_bits sample_guest"
proof -
  have nx: "next_tab word_ept (\<lambda>_ _. 0) a i = None" for a i by (simp add: next_tab_def next_table_mut_def ept_pte_def)
  have "page_map word_ept sample_npt v = None" for v
    using nx by (simp add: page_map_def lookup_def page_path_def sample_npt_def)
  then show ?thesis using sample_npt_inv by (simp add: gpm_inv_def regions_apart_def sample_guest_def)
qed

lemma sample_region_ok: "region_ok word_ept sample_region"
proof (rule ept_region_ok [OF bit_range_word])
  show "region_flags sample_region \<noteq> MEM_DEVICE" by (simp add: sample_region_def MEM_DEVICE_def)
qed (simp_all add: sample_region_def target_def wrapping_sub_def mask_eq_exp_minus_1)

theorem guest_memory_exact_witness:
  "(\<exists>res g'. gpm_map_region word_ept (hal_alloc_page word_get_bit word_set_bit) sample_region sample_guest = Returns (res, g') \<and>
      (if region_size sample_region = 0 then res = Inr () \<and> g' = sample_guest
       else if \<not> area_free sample_guest sample_region then res = Inl InvalidParam \<and> g' = sample_guest
       else case res of
           Inr _ \<Rightarrow> ept_gpm_inv word_get_bits word_set_bits g' \<and>
             set (regions g') = insert (region_start sample_region, sample_region) (set (regions sample_guest))
         | Inl x \<Rightarrow> x = OutOfMemory \<and> regions g' = regions sample_guest \<and> ept_inv word_get_bits word_set_bits (gm_npt g') \<and>
             (\<forall>v<2 ^ 48. \<not> in_region sample_region v \<longrightarrow> page_map word_ept (gm_npt g') v = page_map word_ept (gm_npt sample_guest) v))) \<and>
    (\<exists>g'. gpm_clear word_ept sample_guest = Returns g' \<and> ept_gpm_inv word_get_bits word_set_bits g' \<and> regions g' = [] \<and>
      (\<forall>v<2 ^ 48. page_map word_ept (gm_npt g') v = None))"
  by (rule guest_memory_exact [OF byte_bits_word bit_range_word sample_guest_inv sample_region_ok])

section \<open>Setting up a guest\<close>

lemma wrapping_sub_twice: "a < 2 ^ 64 \<Longrightarrow> b < 2 ^ 64 \<Longrightarrow> wrapping_sub a (wrapping_sub a b) = b"
  by (auto simp: wrapping_sub_def)

lemma new_offset_target:
  assumes "g < 2 ^ 64" "h < 2 ^ 64"
  shows "\<exists>m. new_offset False g h sz fl = Returns m \<and> region_start m = g \<and> region_size m = sz \<and> region_flags m = fl \<and>
    target m g = h \<and> (case region_mapper m of Offset off \<Rightarrow> off < 2 ^ 64)"
  using wrapping_sub_twice [OF assms] assms by (auto simp: new_offset_def profile_sub_def target_def wrapping_sub_def)

lemma valid_guest_flags:
  "valid_flags (MEM_READ OR MEM_WRITE OR MEM_EXECUTE)" "MEM_READ OR MEM_WRITE OR MEM_EXECUTE \<noteq> MEM_DEVICE"
  "valid_flags (MEM_READ OR MEM_WRITE OR MEM_DEVICE)" "MEM_READ OR MEM_WRITE OR MEM_DEVICE \<noteq> MEM_DEVICE"
  by (simp_all add: MEM_READ_def MEM_WRITE_def MEM_EXECUTE_def MEM_DEVICE_def mask_eq_exp_minus_1)

text \<open>The guest regions, made without overflow checks.\<close>

lemma guest_regions_made:
  assumes "bit_range gbs sbs" "rh mod 4096 = 0" "rh + GUEST_PHYS_MEMORY_SIZE \<le> 2 ^ 52"
  obtains ram io hpet apic where
    "list_all2 (\<lambda>r m. map_region_from False r = Returns m) (guest_memory_regions rh) [ram, io, hpet, apic]"
    "\<forall>m\<in>{ram, io, hpet, apic}. region_ok (ept_pte gbs sbs) m"
    "region_start ram = 0" "region_size ram = 0x1000000" "target ram 0 = rh" "region_flags ram = MEM_READ OR MEM_WRITE OR MEM_EXECUTE"
    "\<forall>(m, a)\<in>{(io, 0xfec00000), (hpet, 0xfed00000), (apic, 0xfee00000)}. region_start m = a \<and> region_size m = 0x1000 \<and>
      target m a = a \<and> region_flags m = MEM_READ OR MEM_WRITE OR MEM_DEVICE"
proof -
  obtain ram where ram: "new_offset False 0 rh 0x1000000 (MEM_READ OR MEM_WRITE OR MEM_EXECUTE) = Returns ram"
    "region_start ram = 0" "region_size ram = 0x1000000" "region_flags ram = MEM_READ OR MEM_WRITE OR MEM_EXECUTE" "target ram 0 = rh"
    "case region_mapper ram of Offset off \<Rightarrow> off < 2 ^ 64"
    using new_offset_target [of 0 rh] assms(3) by (force simp: GUEST_PHYS_MEMORY_SIZE_def)
  have dev: "\<exists>m. new_offset False a a 0x1000 (MEM_READ OR MEM_WRITE OR MEM_DEVICE) = Returns m \<and> region_start m = a \<and>
      region_size m = 0x1000 \<and> target m a = a \<and> region_flags m = MEM_READ OR MEM_WRITE OR MEM_DEVICE \<and> region_ok (ept_pte gbs sbs) m"
    if a: "a < 2 ^ 32" "a mod 4096 = 0" for a
  proof -
    have "a < 2 ^ 64" using a(1) by simp
    from new_offset_target [OF this this] obtain m where
      m: "new_offset False a a 0x1000 (MEM_READ OR MEM_WRITE OR MEM_DEVICE) = Returns m" "region_start m = a"
      "region_size m = 0x1000" "region_flags m = MEM_READ OR MEM_WRITE OR MEM_DEVICE" "target m a = a"
      "case region_mapper m of Offset off \<Rightarrow> off < 2 ^ 64" by blast
    have "region_ok (ept_pte gbs sbs) m"
      by (rule ept_region_ok [OF assms(1)]) (use m a valid_guest_flags in \<open>simp_all\<close>)
    then show ?thesis using m by blast
  qed
  obtain io hpet apic where
    "new_offset False 0xfec00000 0xfec00000 0x1000 (MEM_READ OR MEM_WRITE OR MEM_DEVICE) = Returns io" "region_start io = 0xfec00000"
    "region_size io = 0x1000" "target io 0xfec00000 = 0xfec00000" "region_flags io = MEM_READ OR MEM_WRITE OR MEM_DEVICE" "region_ok (ept_pte gbs sbs) io"
    "new_offset False 0xfed00000 0xfed00000 0x1000 (MEM_READ OR MEM_WRITE OR MEM_DEVICE) = Returns hpet" "region_start hpet = 0xfed00000"
    "region_size hpet = 0x1000" "target hpet 0xfed00000 = 0xfed00000" "region_flags hpet = MEM_READ OR MEM_WRITE OR MEM_DEVICE" "region_ok (ept_pte gbs sbs) hpet"
    "new_offset False 0xfee00000 0xfee00000 0x1000 (MEM_READ OR MEM_WRITE OR MEM_DEVICE) = Returns apic" "region_start apic = 0xfee00000"
    "region_size apic = 0x1000" "target apic 0xfee00000 = 0xfee00000" "region_flags apic = MEM_READ OR MEM_WRITE OR MEM_DEVICE" "region_ok (ept_pte gbs sbs) apic"
    using dev [of "0xfec00000"] dev [of "0xfed00000"] dev [of "0xfee00000"] by auto
  moreover have "region_ok (ept_pte gbs sbs) ram"
    by (rule ept_region_ok [OF assms(1)]) (use ram assms(2,3) valid_guest_flags in \<open>simp_all add: GUEST_PHYS_MEMORY_SIZE_def\<close>)
  ultimately show thesis using ram that [of ram io hpet apic]
    by (simp add: guest_memory_regions_def map_region_from_def GUEST_PHYS_MEMORY_BASE_def GUEST_PHYS_MEMORY_SIZE_def)
qed

lemma align_down_iff: "a mod 4096 = 0 \<Longrightarrow> align_down v = a \<longleftrightarrow> a \<le> v \<and> v < a + 4096"
proof
  assume "align_down v = a"
  moreover have "v = align_down v + v mod 4096" by (simp add: align_down_def)
  moreover have "v mod 4096 < 4096" by simp
  ultimately show "a \<le> v \<and> v < a + 4096" by linarith
qed (simp add: align_down_in)

lemma guest_pages:
  assumes inv: "gpm_inv P fr ok g" "set (regions g) = (\<lambda>m. (region_start m, m)) ` {ram, io, hpet, apic}"
    and ram: "region_start ram = 0" "region_size ram = 0x1000000" "target ram 0 = rh" "region_flags ram = fr0"
    and dev: "\<forall>(m, a)\<in>{(io, 0xfec00000), (hpet, 0xfed00000), (apic, 0xfee00000)}. region_start m = a \<and> region_size m = 0x1000 \<and>
      target m a = a \<and> region_flags m = fr1"
    and v: "v < 2 ^ 48"
  shows "page_map P (gm_npt g) v =
    (if v < 0x1000000 then Some (rh + align_down v, fr0)
     else if align_down v \<in> {0xfec00000, 0xfed00000, 0xfee00000} then Some (align_down v, fr1) else None)"
proof -
  have "region_ok P ram" using gpm_invD(3) [OF inv(1), of 0 ram] inv(2) ram(1) by auto
  then have low: "target ram (align_down v) = rh + align_down v" if "v < 0x1000000"
    using target_offset [of P ram "align_down v"] that ram by (simp add: align_down_def)
  have page: "in_region m v \<longleftrightarrow> align_down v = a" if "region_start m = a" "region_size m = 0x1000" "a mod 4096 = 0" for m a
    using align_down_iff [OF that(3), of v] that(1,2) by simp
  have at: "in_region io v \<longleftrightarrow> align_down v = 0xfec00000" "in_region hpet v \<longleftrightarrow> align_down v = 0xfed00000"
    "in_region apic v \<longleftrightarrow> align_down v = 0xfee00000"
    using dev page [of io "0xfec00000"] page [of hpet "0xfed00000"] page [of apic "0xfee00000"] by simp_all
  have down: "align_down v \<le> v" by (simp add: align_down_def)
  have eq: "page_map P (gm_npt g) v = Some e \<longleftrightarrow> (in_region ram v \<and> e = (target ram (align_down v), region_flags ram)) \<or>
      (in_region io v \<and> e = (target io (align_down v), region_flags io)) \<or>
      (in_region hpet v \<and> e = (target hpet (align_down v), region_flags hpet)) \<or>
      (in_region apic v \<and> e = (target apic (align_down v), region_flags apic))" for e
    using gpm_invD(4) [OF inv(1) v, of e] unfolding inv(2) by simp
  have "page_map P (gm_npt g) v = Some e \<longleftrightarrow>
      (if v < 0x1000000 then Some (rh + align_down v, fr0)
       else if align_down v \<in> {0xfec00000, 0xfed00000, 0xfee00000} then Some (align_down v, fr1) else None) = Some e" for e
  proof (cases "v < 0x1000000")
    case True
    then have "\<not> in_region io v" "\<not> in_region hpet v" "\<not> in_region apic v" unfolding at using down by auto
    then show ?thesis unfolding eq using True low ram by auto
  next
    case False
    then have "\<not> in_region ram v" using ram by simp
    then show ?thesis unfolding eq at using False dev by auto
  qed
  then show ?thesis by (metis (no_types, lifting) not_None_eq)
qed

lemma guest_regions_mapped:
  fixes gb :: get_bit_fn and gbs :: get_bits_fn
  assumes "byte_bits gb sb" "bit_range gbs sbs" "rh mod 4096 = 0" "rh + GUEST_PHYS_MEMORY_SIZE \<le> 2 ^ 52"
    and inv: "ept_gpm_inv gbs sbs g" "regions g = []"
  shows "\<exists>res g'. map_guest_regions False (ept_pte gbs sbs) (hal_alloc_page gb sb) (guest_memory_regions rh) g = Returns (res, g') \<and>
    (case res of
       Inr _ \<Rightarrow> ept_gpm_inv gbs sbs g' \<and> (\<forall>v<2 ^ 48. page_map (ept_pte gbs sbs) (gm_npt g') v =
         (if v < 0x1000000 then Some (rh + align_down v, MEM_READ OR MEM_WRITE OR MEM_EXECUTE)
          else if align_down v \<in> {0xfec00000, 0xfed00000, 0xfee00000} then Some (align_down v, MEM_READ OR MEM_WRITE OR MEM_DEVICE)
          else None))
     | Inl x \<Rightarrow> x = OutOfMemory \<and> gpm_live (ept_pte gbs sbs) (\<lambda>a. frame_set (bitmap a)) kernel_pages g')"
proof -
  have host: "ept_host gb sb gbs sbs" using assms(1,2) by (simp add: ept_host_def)
  let ?P = "ept_pte gbs sbs"
  obtain ram io hpet apic where
    ms: "list_all2 (\<lambda>r m. map_region_from False r = Returns m) (guest_memory_regions rh) [ram, io, hpet, apic]"
    "\<forall>m\<in>{ram, io, hpet, apic}. region_ok ?P m"
    and r: "region_start ram = 0" "region_size ram = 0x1000000" "target ram 0 = rh" "region_flags ram = MEM_READ OR MEM_WRITE OR MEM_EXECUTE"
    and d: "\<forall>(m, a)\<in>{(io, 0xfec00000), (hpet, 0xfed00000), (apic, 0xfee00000)}. region_start m = a \<and> region_size m = 0x1000 \<and>
      target m a = a \<and> region_flags m = MEM_READ OR MEM_WRITE OR MEM_DEVICE"
    by (rule guest_regions_made [OF assms(2-4)])
  have "\<forall>m\<in>set [ram, io, hpet, apic]. region_ok ?P m \<and> 0 < region_size m \<and> area_free g m"
    using ms(2) r(2) d inv(2) by (simp add: area_free_def)
  moreover have "sorted_wrt (\<lambda>a b. region_start a + region_size a \<le> region_start b) [ram, io, hpet, apic]" using r d by simp
  ultimately obtain res g' where map: "map_guest_regions False ?P (hal_alloc_page gb sb) (guest_memory_regions rh) g = Returns (res, g')"
    "case res of
       Inr _ \<Rightarrow> ept_gpm_inv gbs sbs g' \<and> set (regions g') = set (regions g) \<union> (\<lambda>m. (region_start m, m)) ` set [ram, io, hpet, apic]
     | Inl x \<Rightarrow> x = OutOfMemory \<and> gpm_live ?P (\<lambda>a. frame_set (bitmap a)) kernel_pages g'"
    using ept_host.ept_guest_regions [OF host inv(1) ms(1)] by meson
  show ?thesis
  proof (cases res)
    case (Inr u)
    then have g': "ept_gpm_inv gbs sbs g'" "set (regions g') = (\<lambda>m. (region_start m, m)) ` {ram, io, hpet, apic}"
      using map(2) inv(2) by simp_all
    note pages = guest_pages [OF g' r d]
    show ?thesis using map(1) Inr pages g'(1) by (intro exI [of _ res] exI [of _ g']) simp
  qed (use map in auto)
qed



text \<open>With overflow checks the same call panics: the offset of the first region is \<open>0 - start_hpa\<close>.\<close>

lemma setup_gpm_checked_panics:
  assumes "byte_bits gb sb" "bit_range gbs sbs" "kernel_pages (hal st)" "usable_frames (hal st) \<noteq> 0"
    and "canonical ram" "hhdm < ram" "ram - hhdm < 2 ^ 52" "ram + GUEST_ENTRY \<le> usize_max"
  shows "setup_gpm True (ept_pte gbs sbs) (hal_alloc_page gb sb) hhdm ram img mem st = Panics"
proof -
  have host: "ept_host gb sb gbs sbs" using assms(1,2) by (simp add: ept_host_def)
  obtain r st1 where r: "npt_new (ept_pte gbs sbs) (hal_alloc_page gb sb) st = Returns (r, st1)"
    "case r of Inl e \<Rightarrow> e = OutOfMemory \<and> usable_frames (hal st) = 0
     | Inr _ \<Rightarrow> ept_inv gbs sbs st1 \<and> (\<forall>v. page_map (ept_pte gbs sbs) st1 v = None)"
    using ept_host.ept_new [OF host assms(3)] by meson
  then obtain u where "r = Inr u" using assms(4) by (cases r) auto
  with r(1) have new: "guest_mem_new (ept_pte gbs sbs) (hal_alloc_page gb sb) st = Returns (Inr \<lparr>regions = [], gm_npt = st1\<rparr>, st1)"
    by (simp add: guest_mem_new_def)
  have addr: "gpa_as_mut_ptr ram GUEST_PHYS_MEMORY_BASE = Returns ram" "virt_addr_new ram = Returns ram"
    "convert_virtual_to_physical hhdm ram = Returns (ram - hhdm)" "gpa_as_mut_ptr ram GUEST_ENTRY = Returns (ram + GUEST_ENTRY)"
    using assms(5-8) by (simp_all add: gpa_as_mut_ptr_def GUEST_PHYS_MEMORY_BASE_def uadd_def virt_addr_new_def
        convert_virtual_to_physical_def usub_def phys_addr_new_def add.commute)
  have "map_guest_regions True (ept_pte gbs sbs) (hal_alloc_page gb sb) (guest_memory_regions (ram - hhdm)) \<lparr>regions = [], gm_npt = st1\<rparr> = Panics"
    using assms(6) by (simp add: guest_memory_regions_def map_region_from_def new_offset_def profile_sub_def usub_def GUEST_PHYS_MEMORY_BASE_def)
  then show ?thesis unfolding setup_gpm_def load_guest_image_def addr(4) obind.simps new using addr by simp
qed

end
