(* ===== verification/Vcpu.thy ===== *)
theory Vcpu
  imports Vmcs ApicTimer
begin

text \<open>Virtual processors: \<open>arch/x86_64/vmx/vcpu.rs\<close>, \<open>arch/x86_64/vmx/mod.rs\<close>, the regions and MSR
  bitmaps of \<open>arch/x86_64/vmx/structs.rs\<close> and \<open>arch/x86_64/regs.rs\<close>.

  The host of a virtual processor is the record \<open>vm_host\<close>: the processor, the page allocator and the bytes of
  physical memory.  Registers of the host that are only read are collected in \<open>host_regs\<close>, and the constants of
  the crates \<open>x86\<close> and \<open>x86_64\<close> in \<open>x86_consts\<close>.

  The lemmas show which model-specific registers are intercepted, what the control structure holds once a virtual
  processor was set up, and that pending events are injected in order and none is lost.\<close>

section \<open>Constants and host registers\<close>

record x86_consts =
  IA32_APIC_BASE :: u32
  NMI_EXITING :: u32
  EXTERNAL_INTERRUPT_EXITING :: u32
  UNCOND_IO_EXITING :: u32
  USE_MSR_BITMAPS :: u32
  SECONDARY_CONTROLS :: u32
  CR3_LOAD_EXITING :: u32
  CR3_STORE_EXITING :: u32
  INTERRUPT_WINDOW_EXITING :: u32
  ENABLE_EPT :: u32
  ENABLE_RDTSCP :: u32
  ENABLE_INVPCID :: u32
  UNRESTRICTED_GUEST :: u32
  HOST_ADDRESS_SPACE_SIZE :: u32
  ACK_INTERRUPT_ON_EXIT :: u32
  EXIT_SAVE_IA32_PAT :: u32
  EXIT_LOAD_IA32_PAT :: u32
  EXIT_SAVE_IA32_EFER :: u32
  EXIT_LOAD_IA32_EFER :: u32
  ENTRY_LOAD_IA32_PAT :: u32
  ENTRY_LOAD_IA32_EFER :: u32
  CR0_EXTENSION_TYPE :: u64
  CR0_NUMERIC_ERROR :: u64
  CR0_NOT_WRITE_THROUGH :: u64
  CR0_CACHE_DISABLE :: u64
  CR4_VIRTUAL_MACHINE_EXTENSIONS :: u64
  RFLAGS_INTERRUPT_FLAG :: u64

record host_regs =
  host_cr0 :: u64
  host_cr3 :: u64
  host_cr4 :: u64
  host_es :: u16
  host_cs :: u16
  host_ss :: u16
  host_ds :: u16
  host_fs :: u16
  host_gs :: u16
  host_tr :: u16
  host_tr_index :: nat
  gdt_limit :: nat
  gdt_base :: u64
  gdt_entry :: "nat \<Rightarrow> u64"
  idt_base :: u64
  vmx_exit_addr :: u64

record general_registers =
  rax :: u64
  rcx :: u64
  rdx :: u64
  rbx :: u64
  unused_rsp :: u64
  rbp :: u64
  rsi :: u64
  rdi :: u64
  r8 :: u64
  r9 :: u64
  r10 :: u64
  r11 :: u64
  r12 :: u64
  r13 :: u64
  r14 :: u64
  r15 :: u64

section \<open>Memory of the host\<close>

record ('s, 'h) vm_host =
  vm_cpu :: 's
  vm_hal :: 'h
  vm_mem :: "nat \<Rightarrow> u8"

definition on_cpu :: "('s \<Rightarrow> ('s, 'a) rvm_result) \<Rightarrow> ('s, 'h) vm_host \<Rightarrow> (('s, 'h) vm_host, 'a) rvm_result" where
  "on_cpu f h = obind (f (vm_cpu h)) (\<lambda>(r, s). Returns (r, h\<lparr>vm_cpu := s\<rparr>))"

definition host_alloc :: "('h \<Rightarrow> (nat option \<times> 'h) outcome) \<Rightarrow> ('s, 'h) vm_host \<Rightarrow> (('s, 'h) vm_host, nat) rvm_result" where
  "host_alloc alloc h = obind (phys_frame_alloc alloc (vm_hal h)) (\<lambda>(r, a). Returns (r, h\<lparr>vm_hal := a\<rparr>))"

definition fill :: "nat \<Rightarrow> u8 \<Rightarrow> (nat \<Rightarrow> u8) \<Rightarrow> nat \<Rightarrow> u8" where
  "fill frame b mem = (\<lambda>a. if frame \<le> a \<and> a < frame + 4096 then b else mem a)"

definition host_alloc_zero :: "('h \<Rightarrow> (nat option \<times> 'h) outcome) \<Rightarrow> ('s, 'h) vm_host \<Rightarrow> (('s, 'h) vm_host, nat) rvm_result" where
  "host_alloc_zero alloc h =
     rbind (host_alloc alloc h) (\<lambda>frame h. Returns (Inr frame, h\<lparr>vm_mem := fill frame 0 (vm_mem h)\<rparr>))"

definition write_u32 :: "nat \<Rightarrow> u32 \<Rightarrow> (nat \<Rightarrow> u8) \<Rightarrow> nat \<Rightarrow> u8" where
  "write_u32 a w mem = mem(a := ucast w, a + 1 := ucast (drop_bit 8 w), a + 2 := ucast (drop_bit 16 w), a + 3 := ucast (drop_bit 24 w))"

definition read_u32 :: "nat \<Rightarrow> (nat \<Rightarrow> u8) \<Rightarrow> u32" where
  "read_u32 a mem = ucast (mem a) OR push_bit 8 (ucast (mem (a + 1))) OR push_bit 16 (ucast (mem (a + 2))) OR push_bit 24 (ucast (mem (a + 3)))"

definition vmx_region_new :: "('h \<Rightarrow> (nat option \<times> 'h) outcome) \<Rightarrow> (u32 \<Rightarrow> nat \<Rightarrow> nat \<Rightarrow> u32 \<Rightarrow> u32) \<Rightarrow> set_bit32_fn \<Rightarrow> u32 \<Rightarrow> bool
    \<Rightarrow> ('s, 'h) vm_host \<Rightarrow> (('s, 'h) vm_host, nat) rvm_result" where
  "vmx_region_new alloc sbs sb revision_id shadow_indicator h =
     rbind (host_alloc_zero alloc h) (\<lambda>frame h.
     let w = sb (sbs (read_u32 frame (vm_mem h)) 0 31 revision_id) 31 shadow_indicator in
     Returns (Inr frame, h\<lparr>vm_mem := write_u32 frame w (vm_mem h)\<rparr>))"

section \<open>The bitmap of intercepted registers\<close>

definition passthrough_all :: "('h \<Rightarrow> (nat option \<times> 'h) outcome) \<Rightarrow> ('s, 'h) vm_host \<Rightarrow> (('s, 'h) vm_host, nat) rvm_result" where
  "passthrough_all alloc h = host_alloc_zero alloc h"

definition intercept_all :: "('h \<Rightarrow> (nat option \<times> 'h) outcome) \<Rightarrow> ('s, 'h) vm_host \<Rightarrow> (('s, 'h) vm_host, nat) rvm_result" where
  "intercept_all alloc h =
     rbind (host_alloc alloc h) (\<lambda>frame h. Returns (Inr frame, h\<lparr>vm_mem := fill frame 0xff (vm_mem h)\<rparr>))"

definition bitmap_offset :: "u32 \<Rightarrow> bool \<Rightarrow> nat outcome" where
  "bitmap_offset msr is_write =
     (if msr \<le> 0x1fff then Returns ((if \<not> is_write then 0 else 2) * 1024)
      else if 0xc0000000 \<le> msr \<and> msr \<le> 0xc0001fff then Returns ((if \<not> is_write then 1 else 3) * 1024)
      else Panics)"

definition set_intercept :: "nat \<Rightarrow> u32 \<Rightarrow> bool \<Rightarrow> bool \<Rightarrow> (nat \<Rightarrow> u8) \<Rightarrow> (nat \<Rightarrow> u8) outcome" where
  "set_intercept frame msr is_write intercept mem =
     obind (bitmap_offset msr is_write) (\<lambda>offset.
     let msr = msr AND 0x1fff;
         byte = frame + offset + unat (msr div 8);
         bits = unat (msr mod 8) in
     if intercept then Returns (mem(byte := mem byte OR push_bit bits 1))
     else Returns (mem(byte := mem byte AND NOT (push_bit bits 1))))"

definition set_read_intercept :: "nat \<Rightarrow> u32 \<Rightarrow> bool \<Rightarrow> (nat \<Rightarrow> u8) \<Rightarrow> (nat \<Rightarrow> u8) outcome" where
  "set_read_intercept frame msr intercept mem = set_intercept frame msr False intercept mem"

definition set_write_intercept :: "nat \<Rightarrow> u32 \<Rightarrow> bool \<Rightarrow> (nat \<Rightarrow> u8) \<Rightarrow> (nat \<Rightarrow> u8) outcome" where
  "set_write_intercept frame msr intercept mem = set_intercept frame msr True intercept mem"

definition setup_msr_bitmap :: "x86_consts \<Rightarrow> nat \<Rightarrow> (nat \<Rightarrow> u8) \<Rightarrow> (nat \<Rightarrow> u8) outcome" where
  "setup_msr_bitmap X frame mem =
     obind (set_read_intercept frame (IA32_APIC_BASE X) True mem) (\<lambda>mem.
     obind (set_write_intercept frame (IA32_APIC_BASE X) True mem) (\<lambda>mem.
     ofold (\<lambda>msr mem. obind (set_read_intercept frame (of_nat msr) True mem) (\<lambda>mem.
         set_write_intercept frame (of_nat msr) True mem)) [0x800..<0x840] mem))"

section \<open>Setting up the control structure\<close>

text \<open>A sequence of field writes, each with the operator \<open>?\<close>; a value is computed when its turn comes.\<close>

fun write_fields :: "('s, 'z) vmx_machine_scheme \<Rightarrow> (vmcs_field \<times> ('s \<Rightarrow> u64)) list \<Rightarrow> 's \<Rightarrow> ('s, unit) rvm_result" where
  "write_fields M [] s = Returns (Inr (), s)"
| "write_fields M ((f, v) # fs) s = rbind (vmx_try M (vmcs_write M f (v s) s)) (\<lambda>_ s. write_fields M fs s)"

definition get_tr_base :: "get_bits_fn \<Rightarrow> host_regs \<Rightarrow> u64 outcome" where
  "get_tr_base gbs H =
     (let index = host_tr_index H;
          table_len = (gdt_limit H + 1) div 8 in
      if index < table_len then
        let entry = gdt_entry H index in
        if entry AND push_bit 47 1 \<noteq> 0 then
          let base_low = gbs entry 16 40 OR push_bit 24 (gbs entry 56 64) in
          if index + 1 < table_len then
            let base_high = gdt_entry H (index + 1) AND 0xffffffff in
            Returns (base_low OR push_bit 32 base_high)
          else Panics
        else Returns 0
      else Panics)"

definition host_fields_1 :: "('s, 'z) vmx_machine_scheme \<Rightarrow> host_regs \<Rightarrow> (vmcs_field \<times> ('s \<Rightarrow> u64)) list" where
  "host_fields_1 M H =
     [(Host64 VmcsHost64.IA32_PAT, msr_read M Msr.IA32_PAT),
      (Host64 VmcsHost64.IA32_EFER, msr_read M Msr.IA32_EFER),
      (HostNW VmcsHostNW.CR0, \<lambda>_. host_cr0 H),
      (HostNW VmcsHostNW.CR3, \<lambda>_. host_cr3 H),
      (HostNW VmcsHostNW.CR4, \<lambda>_. host_cr4 H),
      (Host16 VmcsHost16.ES_SELECTOR, \<lambda>_. ucast (host_es H)),
      (Host16 VmcsHost16.CS_SELECTOR, \<lambda>_. ucast (host_cs H)),
      (Host16 VmcsHost16.SS_SELECTOR, \<lambda>_. ucast (host_ss H)),
      (Host16 VmcsHost16.DS_SELECTOR, \<lambda>_. ucast (host_ds H)),
      (Host16 VmcsHost16.FS_SELECTOR, \<lambda>_. ucast (host_fs H)),
      (Host16 VmcsHost16.GS_SELECTOR, \<lambda>_. ucast (host_gs H)),
      (HostNW VmcsHostNW.FS_BASE, msr_read M Msr.IA32_FS_BASE),
      (HostNW VmcsHostNW.GS_BASE, msr_read M Msr.IA32_GS_BASE),
      (Host16 VmcsHost16.TR_SELECTOR, \<lambda>_. ucast (host_tr H))]"

definition host_fields_2 :: "host_regs \<Rightarrow> u64 \<Rightarrow> (vmcs_field \<times> ('s \<Rightarrow> u64)) list" where
  "host_fields_2 H tr_base =
     [(HostNW VmcsHostNW.TR_BASE, \<lambda>_. tr_base),
      (HostNW VmcsHostNW.GDTR_BASE, \<lambda>_. gdt_base H),
      (HostNW VmcsHostNW.IDTR_BASE, \<lambda>_. idt_base H),
      (HostNW VmcsHostNW.RIP, \<lambda>_. vmx_exit_addr H),
      (HostNW VmcsHostNW.IA32_SYSENTER_ESP, \<lambda>_. 0),
      (HostNW VmcsHostNW.IA32_SYSENTER_EIP, \<lambda>_. 0),
      (Host32 VmcsHost32.IA32_SYSENTER_CS, \<lambda>_. 0)]"

definition setup_vmcs_host :: "('s, 'z) vmx_machine_scheme \<Rightarrow> get_bits_fn \<Rightarrow> host_regs \<Rightarrow> 's \<Rightarrow> ('s, unit) rvm_result" where
  "setup_vmcs_host M gbs H s =
     rbind (write_fields M (host_fields_1 M H) s) (\<lambda>_ s.
     obind (get_tr_base gbs H) (\<lambda>tr_base. write_fields M (host_fields_2 H tr_base) s))"

definition guest_segment :: "VmcsGuest16 \<Rightarrow> VmcsGuestNW \<Rightarrow> VmcsGuest32 \<Rightarrow> VmcsGuest32 \<Rightarrow> u64 \<Rightarrow> (vmcs_field \<times> ('s \<Rightarrow> u64)) list" where
  "guest_segment selector seg_base limit access_rights rights =
     [(Guest16 selector, \<lambda>_. 0), (GuestNW seg_base, \<lambda>_. 0), (Guest32 limit, \<lambda>_. 0xffff), (Guest32 access_rights, \<lambda>_. rights)]"

definition guest_fields :: "('s, 'z) vmx_machine_scheme \<Rightarrow> x86_consts \<Rightarrow> u64 \<Rightarrow> (vmcs_field \<times> ('s \<Rightarrow> u64)) list" where
  "guest_fields M X entry =
     [(GuestNW VmcsGuestNW.CR0, \<lambda>_. CR0_EXTENSION_TYPE X OR CR0_NUMERIC_ERROR X),
      (ControlNW VmcsControlNW.CR0_GUEST_HOST_MASK, \<lambda>_. CR0_NUMERIC_ERROR X OR CR0_NOT_WRITE_THROUGH X OR CR0_CACHE_DISABLE X),
      (ControlNW VmcsControlNW.CR0_READ_SHADOW, \<lambda>_. CR0_NUMERIC_ERROR X),
      (GuestNW VmcsGuestNW.CR4, \<lambda>_. CR4_VIRTUAL_MACHINE_EXTENSIONS X),
      (ControlNW VmcsControlNW.CR4_GUEST_HOST_MASK, \<lambda>_. CR4_VIRTUAL_MACHINE_EXTENSIONS X),
      (ControlNW VmcsControlNW.CR4_READ_SHADOW, \<lambda>_. 0)] @
     guest_segment VmcsGuest16.ES_SELECTOR VmcsGuestNW.ES_BASE VmcsGuest32.ES_LIMIT VmcsGuest32.ES_ACCESS_RIGHTS 0x93 @
     guest_segment VmcsGuest16.CS_SELECTOR VmcsGuestNW.CS_BASE VmcsGuest32.CS_LIMIT VmcsGuest32.CS_ACCESS_RIGHTS 0x9b @
     guest_segment VmcsGuest16.SS_SELECTOR VmcsGuestNW.SS_BASE VmcsGuest32.SS_LIMIT VmcsGuest32.SS_ACCESS_RIGHTS 0x93 @
     guest_segment VmcsGuest16.DS_SELECTOR VmcsGuestNW.DS_BASE VmcsGuest32.DS_LIMIT VmcsGuest32.DS_ACCESS_RIGHTS 0x93 @
     guest_segment VmcsGuest16.FS_SELECTOR VmcsGuestNW.FS_BASE VmcsGuest32.FS_LIMIT VmcsGuest32.FS_ACCESS_RIGHTS 0x93 @
     guest_segment VmcsGuest16.GS_SELECTOR VmcsGuestNW.GS_BASE VmcsGuest32.GS_LIMIT VmcsGuest32.GS_ACCESS_RIGHTS 0x93 @
     guest_segment VmcsGuest16.TR_SELECTOR VmcsGuestNW.TR_BASE VmcsGuest32.TR_LIMIT VmcsGuest32.TR_ACCESS_RIGHTS 0x8b @
     guest_segment VmcsGuest16.LDTR_SELECTOR VmcsGuestNW.LDTR_BASE VmcsGuest32.LDTR_LIMIT VmcsGuest32.LDTR_ACCESS_RIGHTS 0x82 @
     [(GuestNW VmcsGuestNW.GDTR_BASE, \<lambda>_. 0),
      (Guest32 VmcsGuest32.GDTR_LIMIT, \<lambda>_. 0xffff),
      (GuestNW VmcsGuestNW.IDTR_BASE, \<lambda>_. 0),
      (Guest32 VmcsGuest32.IDTR_LIMIT, \<lambda>_. 0xffff),
      (GuestNW VmcsGuestNW.CR3, \<lambda>_. 0),
      (GuestNW VmcsGuestNW.DR7, \<lambda>_. 0x400),
      (GuestNW VmcsGuestNW.RSP, \<lambda>_. 0),
      (GuestNW VmcsGuestNW.RIP, \<lambda>_. entry),
      (GuestNW VmcsGuestNW.RFLAGS, \<lambda>_. 0x2),
      (GuestNW VmcsGuestNW.PENDING_DBG_EXCEPTIONS, \<lambda>_. 0),
      (GuestNW VmcsGuestNW.IA32_SYSENTER_ESP, \<lambda>_. 0),
      (GuestNW VmcsGuestNW.IA32_SYSENTER_EIP, \<lambda>_. 0),
      (Guest32 VmcsGuest32.IA32_SYSENTER_CS, \<lambda>_. 0),
      (Guest32 VmcsGuest32.INTERRUPTIBILITY_STATE, \<lambda>_. 0),
      (Guest32 VmcsGuest32.ACTIVITY_STATE, \<lambda>_. 0),
      (Guest32 VmcsGuest32.VMX_PREEMPTION_TIMER_VALUE, \<lambda>_. 0),
      (Guest64 VmcsGuest64.LINK_PTR, \<lambda>_. - 1),
      (Guest64 VmcsGuest64.IA32_DEBUGCTL, \<lambda>_. 0),
      (Guest64 VmcsGuest64.IA32_PAT, msr_read M Msr.IA32_PAT),
      (Guest64 VmcsGuest64.IA32_EFER, \<lambda>_. 0)]"

definition setup_vmcs_guest :: "('s, 'z) vmx_machine_scheme \<Rightarrow> x86_consts \<Rightarrow> u64 \<Rightarrow> 's \<Rightarrow> ('s, unit) rvm_result" where
  "setup_vmcs_guest M X entry s = write_fields M (guest_fields M X entry) s"

definition control_fields :: "nat \<Rightarrow> (vmcs_field \<times> ('s \<Rightarrow> u64)) list" where
  "control_fields msr_bitmap_paddr =
     [(Control32 VmcsControl32.VMEXIT_MSR_STORE_COUNT, \<lambda>_. 0),
      (Control32 VmcsControl32.VMEXIT_MSR_LOAD_COUNT, \<lambda>_. 0),
      (Control32 VmcsControl32.VMENTRY_MSR_LOAD_COUNT, \<lambda>_. 0),
      (Control32 VmcsControl32.EXCEPTION_BITMAP, \<lambda>_. 0),
      (Control64 VmcsControl64.IO_BITMAP_A_ADDR, \<lambda>_. 0),
      (Control64 VmcsControl64.IO_BITMAP_B_ADDR, \<lambda>_. 0),
      (Control64 VmcsControl64.MSR_BITMAPS_ADDR, \<lambda>_. of_nat msr_bitmap_paddr)]"

definition setup_vmcs_control :: "('s, 'z) vmx_machine_scheme \<Rightarrow> x86_consts \<Rightarrow> nat \<Rightarrow> u64 \<Rightarrow> 's \<Rightarrow> ('s, unit) rvm_result" where
  "setup_vmcs_control M X msr_bitmap_paddr ept_root s =
     rbind (set_control M VmcsControl32.PINBASED_EXEC_CONTROLS Msr.IA32_VMX_TRUE_PINBASED_CTLS
       (ucast (msr_read M Msr.IA32_VMX_PINBASED_CTLS s)) (NMI_EXITING X OR EXTERNAL_INTERRUPT_EXITING X) 0 s) (\<lambda>_ s.
     rbind (set_control M VmcsControl32.PRIMARY_PROCBASED_EXEC_CONTROLS Msr.IA32_VMX_TRUE_PROCBASED_CTLS
       (ucast (msr_read M Msr.IA32_VMX_PROCBASED_CTLS s)) (UNCOND_IO_EXITING X OR USE_MSR_BITMAPS X OR SECONDARY_CONTROLS X)
       (CR3_LOAD_EXITING X OR CR3_STORE_EXITING X) s) (\<lambda>_ s.
     rbind (set_control M VmcsControl32.SECONDARY_PROCBASED_EXEC_CONTROLS Msr.IA32_VMX_PROCBASED_CTLS2 0
       (ENABLE_EPT X OR ENABLE_RDTSCP X OR ENABLE_INVPCID X OR UNRESTRICTED_GUEST X) 0 s) (\<lambda>_ s.
     rbind (set_control M VmcsControl32.VMEXIT_CONTROLS Msr.IA32_VMX_TRUE_EXIT_CTLS
       (ucast (msr_read M Msr.IA32_VMX_EXIT_CTLS s))
       (HOST_ADDRESS_SPACE_SIZE X OR ACK_INTERRUPT_ON_EXIT X OR EXIT_SAVE_IA32_PAT X OR EXIT_LOAD_IA32_PAT X OR
        EXIT_SAVE_IA32_EFER X OR EXIT_LOAD_IA32_EFER X) 0 s) (\<lambda>_ s.
     rbind (set_control M VmcsControl32.VMENTRY_CONTROLS Msr.IA32_VMX_TRUE_ENTRY_CTLS
       (ucast (msr_read M Msr.IA32_VMX_ENTRY_CTLS s)) (ENTRY_LOAD_IA32_PAT X OR ENTRY_LOAD_IA32_EFER X) 0 s) (\<lambda>_ s.
     rbind (set_ept_pointer M ept_root s) (\<lambda>_ s.
     write_fields M (control_fields msr_bitmap_paddr) s))))))"

definition setup_vmcs :: "('s, 'z) vmx_machine_scheme \<Rightarrow> x86_consts \<Rightarrow> get_bits_fn \<Rightarrow> host_regs \<Rightarrow> nat \<Rightarrow> nat \<Rightarrow> u64 \<Rightarrow> u64
    \<Rightarrow> 's \<Rightarrow> ('s, unit) rvm_result" where
  "setup_vmcs M X gbs H vmcs_paddr msr_bitmap_paddr entry ept_root s =
     rbind (vmx_try M (vmclear M (of_nat vmcs_paddr) s)) (\<lambda>_ s.
     rbind (vmx_try M (vmptrld M (of_nat vmcs_paddr) s)) (\<lambda>_ s.
     rbind (setup_vmcs_host M gbs H s) (\<lambda>_ s.
     rbind (setup_vmcs_guest M X entry s) (\<lambda>_ s.
     setup_vmcs_control M X msr_bitmap_paddr ept_root s))))"

section \<open>The virtual processor\<close>

record vcpu =
  guest_regs :: general_registers
  host_stack_top :: u64
  vcpu_vmcs :: nat
  msr_bitmap :: nat
  apic :: apic_timer
  pending_events :: "(u8 \<times> u32 option) list"

definition general_registers_default :: general_registers where
  "general_registers_default = \<lparr>rax = 0, rcx = 0, rdx = 0, rbx = 0, unused_rsp = 0, rbp = 0, rsi = 0, rdi = 0,
     r8 = 0, r9 = 0, r10 = 0, r11 = 0, r12 = 0, r13 = 0, r14 = 0, r15 = 0\<rparr>"

definition host_drop_frame :: "(nat \<Rightarrow> 'h \<Rightarrow> 'h outcome) \<Rightarrow> nat \<Rightarrow> ('s, 'h) vm_host \<Rightarrow> ('s, 'h) vm_host outcome" where
  "host_drop_frame dealloc frame h = obind (drop_frame dealloc frame (vm_hal h)) (\<lambda>a. Returns (h\<lparr>vm_hal := a\<rparr>))"

definition vcpu_drop :: "('s, 'z) vmx_machine_scheme \<Rightarrow> (nat \<Rightarrow> 'h \<Rightarrow> 'h outcome) \<Rightarrow> vcpu \<Rightarrow> ('s, 'h) vm_host \<Rightarrow> ('s, 'h) vm_host outcome" where
  "vcpu_drop M dealloc v h =
     (case vmclear M (of_nat (vcpu_vmcs v)) (vm_cpu h) of
        (Inl _, _) \<Rightarrow> Panics
      | (Inr _, s) \<Rightarrow>
          obind (host_drop_frame dealloc (vcpu_vmcs v) (h\<lparr>vm_cpu := s\<rparr>)) (host_drop_frame dealloc (msr_bitmap v)))"

definition vcpu_new :: "('s, 'z) vmx_machine_scheme \<Rightarrow> x86_consts \<Rightarrow> get_bits_fn \<Rightarrow> (u32 \<Rightarrow> nat \<Rightarrow> nat \<Rightarrow> u32 \<Rightarrow> u32) \<Rightarrow> set_bit32_fn
    \<Rightarrow> host_regs \<Rightarrow> ('h \<Rightarrow> (nat option \<times> 'h) outcome) \<Rightarrow> (nat \<Rightarrow> 'h \<Rightarrow> 'h outcome) \<Rightarrow> u32 \<Rightarrow> u64 \<Rightarrow> u64
    \<Rightarrow> ('s, 'h) vm_host \<Rightarrow> (('s, 'h) vm_host, vcpu) rvm_result" where
  "vcpu_new M X gbs sbs32 sb32 H alloc dealloc vmcs_revision_id entry ept_root h =
     rbind (vmx_region_new alloc sbs32 sb32 vmcs_revision_id False h) (\<lambda>vmcs h.
     obind (passthrough_all alloc h) (\<lambda>(r, h). case r of
       Inl e \<Rightarrow> obind (host_drop_frame dealloc vmcs h) (\<lambda>h. Returns (Inl e, h))
     | Inr bitmap_frame \<Rightarrow>
         let v = \<lparr>guest_regs = general_registers_default, host_stack_top = 0, vcpu_vmcs = vmcs, msr_bitmap = bitmap_frame,
             apic = apic_timer_new, pending_events = []\<rparr> in
         obind (setup_msr_bitmap X bitmap_frame (vm_mem h)) (\<lambda>mem.
         obind (on_cpu (setup_vmcs M X gbs H vmcs bitmap_frame entry ept_root) (h\<lparr>vm_mem := mem\<rparr>)) (\<lambda>(r, h). case r of
           Inl e \<Rightarrow> obind (vcpu_drop M dealloc v h) (\<lambda>h. Returns (Inl e, h))
         | Inr _ \<Rightarrow> Returns (Inr v, h)))))"

text \<open>Operations of a running virtual processor, on the pair of the virtual processor and the processor.\<close>

definition stack_pointer :: "('s, 'z) vmx_machine_scheme \<Rightarrow> 's \<Rightarrow> u64 outcome" where
  "stack_pointer M s = (case vmcs_read M (GuestNW VmcsGuestNW.RSP) s of Inl _ \<Rightarrow> Panics | Inr v \<Rightarrow> Returns v)"

definition set_stack_pointer :: "('s, 'z) vmx_machine_scheme \<Rightarrow> u64 \<Rightarrow> 's \<Rightarrow> 's outcome" where
  "set_stack_pointer M rsp s = (case vmcs_write M (GuestNW VmcsGuestNW.RSP) rsp s of (Inl _, _) \<Rightarrow> Panics | (Inr _, s) \<Rightarrow> Returns s)"

definition advance_rip :: "('s, 'z) vmx_machine_scheme \<Rightarrow> u8 \<Rightarrow> 's \<Rightarrow> ('s, unit) rvm_result" where
  "advance_rip M instr_len s =
     rbind (read_try M (GuestNW VmcsGuestNW.RIP) s) (\<lambda>rip s.
     obind (wadd rip (ucast instr_len)) (\<lambda>rip. vmx_try M (vmcs_write M (GuestNW VmcsGuestNW.RIP) rip s)))"

definition vcpu_inject_event :: "u8 \<Rightarrow> u32 option \<Rightarrow> vcpu \<Rightarrow> vcpu" where
  "vcpu_inject_event vec err v = v\<lparr>pending_events := pending_events v @ [(vec, err)]\<rparr>"

definition set_interrupt_window :: "('s, 'z) vmx_machine_scheme \<Rightarrow> x86_consts \<Rightarrow> bool \<Rightarrow> 's \<Rightarrow> ('s, unit) rvm_result" where
  "set_interrupt_window M X enable s =
     rbind (read_try M (Control32 VmcsControl32.PRIMARY_PROCBASED_EXEC_CONTROLS) s) (\<lambda>ctrl s.
     let ctrl = ucast ctrl :: u32;
         bits = INTERRUPT_WINDOW_EXITING X;
         ctrl = (if enable then ctrl OR bits else ctrl AND NOT bits) in
     rbind (vmx_try M (vmcs_write M (Control32 VmcsControl32.PRIMARY_PROCBASED_EXEC_CONTROLS) (ucast ctrl) s)) (\<lambda>_ s.
     Returns (Inr (), s)))"

definition allow_interrupt :: "('s, 'z) vmx_machine_scheme \<Rightarrow> x86_consts \<Rightarrow> 's \<Rightarrow> bool outcome" where
  "allow_interrupt M X s =
     (case vmcs_read M (GuestNW VmcsGuestNW.RFLAGS) s of
        Inl _ \<Rightarrow> Panics
      | Inr rflags \<Rightarrow>
          (case vmcs_read M (Guest32 VmcsGuest32.INTERRUPTIBILITY_STATE) s of
             Inl _ \<Rightarrow> Panics
           | Inr block_state \<Rightarrow> Returns (rflags AND RFLAGS_INTERRUPT_FLAG X \<noteq> 0 \<and> block_state = 0)))"

definition check_pending_events :: "('s, 'z) vmx_machine_scheme \<Rightarrow> x86_consts \<Rightarrow> set_bit32_fn \<Rightarrow> irq_vectors \<Rightarrow> vcpu \<times> 's
    \<Rightarrow> (vcpu \<times> 's, unit) rvm_result" where
  "check_pending_events M X sb V = (\<lambda>(v, s).
     case pending_events v of
       [] \<Rightarrow> Returns (Inr (), (v, s))
     | (vec, err) # rest \<Rightarrow>
         obind (if vec < 32 then Returns True else allow_interrupt M X s) (\<lambda>direct.
         if direct then
           obind (inject_event M sb V vec err s) (\<lambda>(r, s). case r of
             Inl e \<Rightarrow> Returns (Inl e, (v, s))
           | Inr _ \<Rightarrow> Returns (Inr (), (v\<lparr>pending_events := rest\<rparr>, s)))
         else obind (set_interrupt_window M X True s) (\<lambda>(r, s). Returns (r, (v, s)))))"

text \<open>\<open>vmexit_handler\<close> calls the handler of the kernel first, which also changes the state \<open>'o\<close> of the kernel
  behind it; \<open>now\<close> is the clock.\<close>

definition vcpu_vmexit_handler :: "('s, 'z) vmx_machine_scheme \<Rightarrow> x86_consts \<Rightarrow> set_bit32_fn \<Rightarrow> irq_vectors \<Rightarrow> u64
    \<Rightarrow> (vcpu \<times> 's \<times> 'o \<Rightarrow> (vcpu \<times> 's \<times> 'o) outcome) \<Rightarrow> vcpu \<times> 's \<times> 'o \<Rightarrow> (vcpu \<times> 's \<times> 'o) outcome" where
  "vcpu_vmexit_handler M X sb V now hal_vmexit_handler vs =
     obind (hal_vmexit_handler vs) (\<lambda>(v, s, os).
     obind (check_interrupt now (apic v)) (\<lambda>(fired, t).
     let v = v\<lparr>apic := t\<rparr>;
         v = (if fired then vcpu_inject_event (timer_vector t) None v else v) in
     obind (check_pending_events M X sb V (v, s)) (\<lambda>(r, v, s). case r of Inl _ \<Rightarrow> Panics | Inr _ \<Rightarrow> Returns (v, s, os))))"

section \<open>Which registers are intercepted\<close>

text \<open>What the processor consults on an access to a model-specific register: registers outside the two ranges of the
  bitmap always cause an exit.\<close>

definition intercepted :: "nat \<Rightarrow> u32 \<Rightarrow> bool \<Rightarrow> (nat \<Rightarrow> u8) \<Rightarrow> bool" where
  "intercepted frame msr is_write mem =
     (case bitmap_offset msr is_write of
        Panics \<Rightarrow> True
      | Returns offset \<Rightarrow> bit (mem (frame + offset + unat msr mod 8192 div 8)) (unat msr mod 8))"

lemma msr_index: "unat (msr AND 0x1fff :: u32) = unat msr mod 8192"
proof -
  have "msr AND 0x1fff = take_bit 13 msr" by (simp add: take_bit_eq_mask mask_eq_exp_minus_1)
  then show ?thesis by (simp add: take_bit_eq_mod unat_mod_distrib)
qed

lemma high_msr: "n mod 8192 = n - 0xc0000000" if "0xc0000000 \<le> n" "n < 0xc0002000" for n :: nat
proof -
  have "n mod 8192 = (n - 0xc0000000 + 0x60000 * 8192) mod 8192" using that by simp
  also have "\<dots> = (n - 0xc0000000) mod 8192" by (rule mod_mult_self1)
  finally show ?thesis using that by simp
qed

lemma msr_slot:
  "unat ((msr AND 0x1fff :: u32) div 8) = unat msr mod 8192 div 8" "unat ((msr AND 0x1fff :: u32) mod 8) = unat msr mod 8"
  by (simp_all add: unat_div_distrib unat_mod_distrib msr_index mod_mod_cancel)

lemma bitmap_offset_cases:
  "bitmap_offset msr w = Returns offset \<longleftrightarrow>
     unat msr < 8192 \<and> offset = (if w then 2048 else 0) \<or>
     0xc0000000 \<le> unat msr \<and> unat msr < 0xc0002000 \<and> offset = (if w then 3072 else 1024)"
  by (auto simp: bitmap_offset_def word_le_nat_alt)

lemma bitmap_slot_inj:
  assumes "bitmap_offset m w = Returns a" "bitmap_offset m' w' = Returns b"
    and "a + unat m mod 8192 div 8 = b + unat m' mod 8192 div 8" "unat m mod 8 = unat m' mod 8"
  shows "m = m' \<and> w = w'"
proof -
  have lt: "unat m mod 8192 div 8 < 1024" "unat m' mod 8192 div 8 < 1024" by simp_all
  define k where "k = (\<lambda>w low. (if w then 2 else 0) + (if low then 0 else 1 :: nat))"
  have ab: "a = 1024 * k w (unat m < 8192)" "b = 1024 * k w' (unat m' < 8192)"
    using assms(1,2) unfolding bitmap_offset_cases k_def by auto
  have "k w (unat m < 8192) = k w' (unat m' < 8192)"
    using arg_cong [OF assms(3), of "\<lambda>x. x div 1024"] lt unfolding ab by simp
  then have eq: "w = w'" "a = b" "(unat m < 8192) = (unat m' < 8192)" using ab by (auto simp: k_def split: if_splits)
  have 8: "n mod 8192 = 8 * (n mod 8192 div 8) + n mod 8" for n :: nat
    using mult_div_mod_eq [of 8 "n mod 8192"] mod_mod_cancel [of 8 8192 n] by simp
  have "unat m mod 8192 = unat m' mod 8192" using 8 [of "unat m"] 8 [of "unat m'"] assms(3,4) eq(2) by simp
  then have "unat m = unat m'"
    using assms(1,2) eq(3) high_msr [of "unat m"] high_msr [of "unat m'"] unfolding bitmap_offset_cases by auto
  then show ?thesis using eq(1) by (simp add: word_unat_eq_iff)
qed

lemma set_intercept_spec:
  assumes "bitmap_offset msr w = Returns offset"
  shows "\<exists>mem'. set_intercept frame msr w b mem = Returns mem' \<and>
    (\<forall>m v. intercepted frame m v mem' = (if m = msr \<and> v = w then b else intercepted frame m v mem)) \<and>
    (\<forall>a. a < frame \<or> frame + 4096 \<le> a \<longrightarrow> mem' a = mem a)"
proof -
  define byte where "byte = frame + offset + unat msr mod 8192 div 8"
  define mem' where "mem' = mem(byte := if b then mem byte OR push_bit (unat msr mod 8) 1 else mem byte AND NOT (push_bit (unat msr mod 8) 1))"
  have run: "set_intercept frame msr w b mem = Returns mem'"
    by (simp add: set_intercept_def assms msr_slot Let_def mem'_def byte_def)
  have byte: "frame \<le> byte" "byte < frame + 4096"
    using assms unfolding byte_def bitmap_offset_cases by (auto split: if_splits)
  have bits: "bit (mem' byte) j = (if j = unat msr mod 8 then b else bit (mem byte) j)" if "j < 8" for j
    using that unfolding mem'_def by (auto simp: bit_or_iff bit_and_iff bit_not_iff bit_exp_iff)
  have "intercepted frame m v mem' = (if m = msr \<and> v = w then b else intercepted frame m v mem)" for m v
  proof (cases "bitmap_offset m v")
    case (Returns x)
    show ?thesis
    proof (cases "frame + x + unat m mod 8192 div 8 = byte")
      case True
      then have "intercepted frame m v mem' = (if unat m mod 8 = unat msr mod 8 then b else intercepted frame m v mem)"
        by (simp add: intercepted_def Returns bits)
      then show ?thesis using True bitmap_slot_inj [OF Returns assms] by (auto simp: byte_def)
    next
      case False
      then show ?thesis using Returns assms by (auto simp: intercepted_def mem'_def byte_def)
    qed
  next
    case Panics
    then show ?thesis using assms by (auto simp: intercepted_def)
  qed
  moreover have "mem' a = mem a" if "a < frame \<or> frame + 4096 \<le> a" for a
    using that byte by (auto simp: mem'_def)
  ultimately show ?thesis using run by blast
qed

text \<open>Both accesses to a register are intercepted.\<close>

lemma intercept_both:
  assumes "bitmap_offset msr False \<noteq> Panics"
  shows "\<exists>mem'. obind (set_read_intercept frame msr True mem) (set_write_intercept frame msr True) = Returns mem' \<and>
    (\<forall>m v. intercepted frame m v mem' = (m = msr \<or> intercepted frame m v mem)) \<and>
    (\<forall>a. a < frame \<or> frame + 4096 \<le> a \<longrightarrow> mem' a = mem a)"
proof -
  obtain x where x: "bitmap_offset msr False = Returns x" using assms by (cases "bitmap_offset msr False") auto
  obtain y where y: "bitmap_offset msr True = Returns y" using x by (auto simp: bitmap_offset_def split: if_splits)
  obtain m1 where m1: "set_intercept frame msr False True mem = Returns m1"
    "\<And>m v. intercepted frame m v m1 = (if m = msr \<and> v = False then True else intercepted frame m v mem)"
    "\<And>a. a < frame \<or> frame + 4096 \<le> a \<Longrightarrow> m1 a = mem a" using set_intercept_spec [OF x, of frame True mem] by blast
  obtain m2 where m2: "set_intercept frame msr True True m1 = Returns m2"
    "\<And>m v. intercepted frame m v m2 = (if m = msr \<and> v = True then True else intercepted frame m v m1)"
    "\<And>a. a < frame \<or> frame + 4096 \<le> a \<Longrightarrow> m2 a = m1 a" using set_intercept_spec [OF y, of frame True m1] by blast
  show ?thesis
    by (rule exI [of _ m2]) (auto simp: set_read_intercept_def set_write_intercept_def m1 m2)
qed

lemma intercept_all_of:
  assumes "\<And>n. n \<in> set ns \<Longrightarrow> bitmap_offset (of_nat n) False \<noteq> Panics"
  shows "\<exists>mem'. ofold (\<lambda>msr mem. obind (set_read_intercept frame (of_nat msr) True mem) (\<lambda>mem.
      set_write_intercept frame (of_nat msr) True mem)) ns mem = Returns mem' \<and>
    (\<forall>m v. intercepted frame m v mem' \<longleftrightarrow> m \<in> of_nat ` set ns \<or> intercepted frame m v mem) \<and>
    (\<forall>a. a < frame \<or> frame + 4096 \<le> a \<longrightarrow> mem' a = mem a)"
  using assms
proof (induction ns arbitrary: mem)
  case (Cons n ns)
  obtain m1 where m1: "obind (set_read_intercept frame (of_nat n) True mem) (set_write_intercept frame (of_nat n) True) = Returns m1"
    "\<And>m v. intercepted frame m v m1 = (m = of_nat n \<or> intercepted frame m v mem)"
    "\<And>a. a < frame \<or> frame + 4096 \<le> a \<Longrightarrow> m1 a = mem a"
    using intercept_both [OF Cons.prems [OF list.set_intros(1)], of frame mem] by blast
  obtain m2 where m2: "ofold (\<lambda>msr mem. obind (set_read_intercept frame (of_nat msr) True mem) (\<lambda>mem.
      set_write_intercept frame (of_nat msr) True mem)) ns m1 = Returns m2"
    "\<And>m v. intercepted frame m v m2 \<longleftrightarrow> m \<in> of_nat ` set ns \<or> intercepted frame m v m1"
    "\<And>a. a < frame \<or> frame + 4096 \<le> a \<Longrightarrow> m2 a = m1 a"
    using Cons.IH [of m1, OF Cons.prems [OF list.set_intros(2)]] by blast
  show ?case by (rule exI [of _ m2]) (use m1 m2 in auto)
qed simp


definition sample_consts :: x86_consts where
  "sample_consts = \<lparr>IA32_APIC_BASE = 0x1b, NMI_EXITING = 0x8, EXTERNAL_INTERRUPT_EXITING = 0x1, UNCOND_IO_EXITING = 0x1000000,
     USE_MSR_BITMAPS = 0x10000000, SECONDARY_CONTROLS = 0x80000000, CR3_LOAD_EXITING = 0x8000, CR3_STORE_EXITING = 0x10000,
     INTERRUPT_WINDOW_EXITING = 0x4, ENABLE_EPT = 0x2, ENABLE_RDTSCP = 0x8, ENABLE_INVPCID = 0x1000,
     UNRESTRICTED_GUEST = 0x80, HOST_ADDRESS_SPACE_SIZE = 0x200, ACK_INTERRUPT_ON_EXIT = 0x8000,
     EXIT_SAVE_IA32_PAT = 0x40000, EXIT_LOAD_IA32_PAT = 0x80000, EXIT_SAVE_IA32_EFER = 0x100000,
     EXIT_LOAD_IA32_EFER = 0x200000, ENTRY_LOAD_IA32_PAT = 0x4000, ENTRY_LOAD_IA32_EFER = 0x8000,
     CR0_EXTENSION_TYPE = 0x10, CR0_NUMERIC_ERROR = 0x20, CR0_NOT_WRITE_THROUGH = 0x20000000, CR0_CACHE_DISABLE = 0x40000000,
     CR4_VIRTUAL_MACHINE_EXTENSIONS = 0x2000, RFLAGS_INTERRUPT_FLAG = 0x200\<rparr>"


section \<open>The fields that the set-up leaves\<close>

text \<open>A processor in VMX operation: what the architecture documents of the instructions that select a control
  structure and that drop cached translations.\<close>

lemma take_bit_64: "take_bit 64 (w::u64) = w"
  by (rule bit_eqI) (auto simp: bit_take_bit_iff dest: bit_imp_le_length)

locale vmx_operation = vmx_cpu M ok supported
  for M :: "('s, 'z) vmx_machine_scheme" and ok :: "'s \<Rightarrow> bool" and supported :: "vmcs_field set" +
  fixes vmx_on :: "'s \<Rightarrow> bool" and region :: "u64 \<Rightarrow> bool"
  assumes vmclear_ok: "vmx_on s \<Longrightarrow> region p \<Longrightarrow>
      \<exists>s'. vmclear M p s = (Inr (), s') \<and> vmx_on s' \<and> (\<forall>m. rdmsr M m s' = rdmsr M m s)"
    and vmptrld_ok: "vmx_on s \<Longrightarrow> region p \<Longrightarrow>
      \<exists>s'. vmptrld M p s = (Inr (), s') \<and> ok s' \<and> (\<forall>m. rdmsr M m s' = rdmsr M m s)"
    and invept_ok: "ok s \<Longrightarrow> ok (invept_instr M t d s) \<and>
      \<not> flags_contain (read_rflags M (invept_instr M t d s)) (FLAGS_ZF M) \<and>
      \<not> flags_contain (read_rflags M (invept_instr M t d s)) (FLAGS_CF M) \<and>
      (\<forall>f. vmread M f (invept_instr M t d s) = vmread M f s) \<and> (\<forall>m. rdmsr M m (invept_instr M t d s) = rdmsr M m s)"
begin

lemma write_fields_spec:
  assumes "ok s" "distinct (map fst fs)"
    and "\<And>f v. (f, v) \<in> set fs \<Longrightarrow> f \<in> supported \<and> field_kind f \<noteq> 1"
    and "\<And>f v s s'. (f, v) \<in> set fs \<Longrightarrow> \<forall>m. rdmsr M m s' = rdmsr M m s \<Longrightarrow> v s' = v s"
  shows "\<exists>s'. write_fields M fs s = Returns (Inr (), s') \<and> ok s' \<and>
    (\<forall>f v. (f, v) \<in> set fs \<longrightarrow> vmcs_read M f s' = Inr (take_bit (accessor_bits f) (v s))) \<and>
    (\<forall>g. g \<notin> fst ` set fs \<longrightarrow> vmcs_read M g s' = vmcs_read M g s) \<and> (\<forall>m. rdmsr M m s' = rdmsr M m s)"
  using assms
proof (induction fs arbitrary: s)
  case (Cons fv fs)
  obtain f v where fv: "fv = (f, v)" by (cases fv)
  obtain s1 where s1: "vmx_try M (vmcs_write M f (v s) s) = Returns (Inr (), s1)" "ok s1"
    "vmcs_read M f s1 = Inr (take_bit (accessor_bits f) (v s))" "\<And>g. g \<noteq> f \<Longrightarrow> vmcs_read M g s1 = vmcs_read M g s"
    "\<And>m. rdmsr M m s1 = rdmsr M m s"
    by (rule write_ok [of s f "v s"]) (use Cons.prems(1,3) fv in auto)
  have notin: "f \<notin> fst ` set fs" using Cons.prems(2) fv by simp
  obtain s2 where s2: "write_fields M fs s1 = Returns (Inr (), s2)" "ok s2"
    "\<And>g v. (g, v) \<in> set fs \<Longrightarrow> vmcs_read M g s2 = Inr (take_bit (accessor_bits g) (v s1))"
    "\<And>g. g \<notin> fst ` set fs \<Longrightarrow> vmcs_read M g s2 = vmcs_read M g s1" "\<And>m. rdmsr M m s2 = rdmsr M m s1"
    using Cons.IH [OF s1(2)] Cons.prems(2) Cons.prems(3,4) [OF list.set_intros(2)] by auto
  have "w s1 = w s" if "(g, w) \<in> set fs" for g w
    using Cons.prems(4) [of g w s1 s] that s1(5) fv by auto
  then have "vmcs_read M g s2 = Inr (take_bit (accessor_bits g) (w s))" if "(g, w) \<in> set fs" for g w
    unfolding s2(3) [OF that] by (simp only: \<open>\<And>g w. (g, w) \<in> set fs \<Longrightarrow> w s1 = w s\<close> [OF that])
  moreover have "vmcs_read M f s2 = Inr (take_bit (accessor_bits f) (v s))" using s2(4) [OF notin] s1(3) by simp
  ultimately show ?case
    using s1 s2 fv by (intro exI [of _ s2]) auto
qed auto

lemma set_control_ok:
  assumes "ok s" "Control32 c \<in> supported"
    and "sets AND clears = 0" "ucast (drop_bit 32 (msr_read M cap s)) AND sets = sets" "ucast (msr_read M cap s) AND clears = 0"
      "ucast (msr_read M cap s) AND ucast (drop_bit 32 (msr_read M cap s)) = (ucast (msr_read M cap s) :: u32)"
  shows "\<exists>s' v. set_control M c cap old sets clears s = Returns (Inr (), s') \<and> ok s' \<and>
    vmcs_read M (Control32 c) s' = Inr (ucast (v::u32)) \<and> sets AND v = sets \<and>
    (\<forall>g. g \<noteq> Control32 c \<longrightarrow> vmcs_read M g s' = vmcs_read M g s) \<and> (\<forall>m. rdmsr M m s' = rdmsr M m s)"
proof -
  define v where "v = (ucast (msr_read M cap s) OR
    (((NOT (ucast (msr_read M cap s)) AND ucast (drop_bit 32 (msr_read M cap s))) AND NOT (sets OR clears)) AND old) OR sets :: u32)"
  obtain s' where w: "vmx_try M (vmcs_write M (Control32 c) (ucast v) s) = Returns (Inr (), s')" "ok s'"
    "vmcs_read M (Control32 c) s' = Inr (take_bit 32 (ucast v))" "\<And>g. g \<noteq> Control32 c \<Longrightarrow> vmcs_read M g s' = vmcs_read M g s"
    "\<And>m. rdmsr M m s' = rdmsr M m s"
    by (rule write_ok [OF assms(1,2), of "ucast v"]) auto
  have "set_control M c cap old sets clears s = Returns (Inr (), s')"
    using w(1) assms(3-6) unfolding set_control_def Let_def rust_assert_def v_def by simp
  moreover have "sets AND v = sets" by (auto simp: v_def bit_eq_iff bit_and_iff bit_or_iff)
  ultimately show ?thesis
    using w by (intro exI [of _ s'] exI [of _ v]) (simp add: take_bit_ucast32)
qed

lemma set_ept_pointer_ok:
  assumes "ok s" "Control64 VmcsControl64.EPTP \<in> supported"
  shows "\<exists>s'. set_ept_pointer M root s = Returns (Inr (), s') \<and> ok s' \<and>
    vmcs_read M (Control64 VmcsControl64.EPTP) s' = Inr (from_table_phys root) \<and>
    (\<forall>g. g \<noteq> Control64 VmcsControl64.EPTP \<longrightarrow> vmcs_read M g s' = vmcs_read M g s) \<and> (\<forall>m. rdmsr M m s' = rdmsr M m s)"
proof -
  obtain s' where w: "vmx_try M (vmcs_write M (Control64 VmcsControl64.EPTP) (from_table_phys root) s) = Returns (Inr (), s')" "ok s'"
    "vmcs_read M (Control64 VmcsControl64.EPTP) s' = Inr (take_bit 64 (from_table_phys root))"
    "\<And>g. g \<noteq> Control64 VmcsControl64.EPTP \<Longrightarrow> vmcs_read M g s' = vmcs_read M g s" "\<And>m. rdmsr M m s' = rdmsr M m s"
    by (rule write_ok [OF assms, of "from_table_phys root"]) auto
  define s'' where "s'' = invept_instr M (inv_ept_type_as_u64 SingleContext) [from_table_phys root, 0] s'"
  note inv = invept_ok [OF w(2), of "inv_ept_type_as_u64 SingleContext" "[from_table_phys root, 0]", folded s''_def]
  have "invept M SingleContext (from_table_phys root) s' = (Inr (), s'')"
    using inv unfolding invept_def Let_def s''_def [symmetric] vmx_capture_status_def by simp
  then have "set_ept_pointer M root s = Returns (Inr (), s'')"
    by (simp add: set_ept_pointer_def Let_def w(1))
  then show ?thesis using inv w by (auto simp: vmcs_read_def take_bit_64)
qed

end

interpretation plain_on: vmx_operation plain_cpu "\<lambda>_. True" UNIV "\<lambda>_. True" "\<lambda>_. True"
  by unfold_locales (auto simp: plain_cpu_def flags_contain_def)

lemma vmx_operation_plain: "vmx_operation plain_cpu (\<lambda>_. True) UNIV (\<lambda>_. True) (\<lambda>_. True)" by unfold_locales

text \<open>The lists of fields name no field twice and only fields that can be written, and the values depend on the
  state through model-specific registers at most.\<close>

definition setup_fields :: "('s, 'z) vmx_machine_scheme \<Rightarrow> x86_consts \<Rightarrow> host_regs \<Rightarrow> u64 \<Rightarrow> u64 \<Rightarrow> nat \<Rightarrow> (vmcs_field \<times> ('s \<Rightarrow> u64)) list" where
  "setup_fields M X H tr_base entry bitmap_paddr =
     host_fields_1 M H @ host_fields_2 H tr_base @ guest_fields M X entry @ control_fields bitmap_paddr"

lemmas field_list_defs = host_fields_1_def host_fields_2_def guest_fields_def guest_segment_def control_fields_def

lemma setup_fields_distinct: "distinct (map fst (setup_fields M X H tr_base entry bitmap_paddr))"
  by (simp add: setup_fields_def field_list_defs)

lemma setup_fields_writable: "(f, v) \<in> set (setup_fields M X H tr_base entry bitmap_paddr) \<Longrightarrow> field_kind f \<noteq> 1"
  by (auto simp: setup_fields_def field_list_defs)

lemma setup_fields_stable:
  "(f, v) \<in> set (setup_fields M X H tr_base entry bitmap_paddr) \<Longrightarrow> \<forall>m. rdmsr M m s' = rdmsr M m s \<Longrightarrow> v s' = v s"
  by (auto simp: setup_fields_def field_list_defs msr_read_def)

definition control_allowed :: "('s, 'z) vmx_machine_scheme \<Rightarrow> Msr \<Rightarrow> u32 \<Rightarrow> u32 \<Rightarrow> 's \<Rightarrow> bool" where
  "control_allowed M cap sets clears s \<longleftrightarrow> sets AND clears = 0 \<and> ucast (drop_bit 32 (msr_read M cap s)) AND sets = sets \<and>
     ucast (msr_read M cap s) AND clears = 0 \<and>
     ucast (msr_read M cap s) AND ucast (drop_bit 32 (msr_read M cap s)) = (ucast (msr_read M cap s) :: u32)"

text \<open>The bits that the set-up asks for, with the field that holds them and the register that reports them.\<close>

definition setup_controls :: "x86_consts \<Rightarrow> (VmcsControl32 \<times> Msr \<times> u32 \<times> u32) list" where
  "setup_controls X =
     [(VmcsControl32.PINBASED_EXEC_CONTROLS, Msr.IA32_VMX_TRUE_PINBASED_CTLS, NMI_EXITING X OR EXTERNAL_INTERRUPT_EXITING X, 0),
      (VmcsControl32.PRIMARY_PROCBASED_EXEC_CONTROLS, Msr.IA32_VMX_TRUE_PROCBASED_CTLS,
        UNCOND_IO_EXITING X OR USE_MSR_BITMAPS X OR SECONDARY_CONTROLS X, CR3_LOAD_EXITING X OR CR3_STORE_EXITING X),
      (VmcsControl32.SECONDARY_PROCBASED_EXEC_CONTROLS, Msr.IA32_VMX_PROCBASED_CTLS2,
        ENABLE_EPT X OR ENABLE_RDTSCP X OR ENABLE_INVPCID X OR UNRESTRICTED_GUEST X, 0),
      (VmcsControl32.VMEXIT_CONTROLS, Msr.IA32_VMX_TRUE_EXIT_CTLS,
        HOST_ADDRESS_SPACE_SIZE X OR ACK_INTERRUPT_ON_EXIT X OR EXIT_SAVE_IA32_PAT X OR EXIT_LOAD_IA32_PAT X OR
        EXIT_SAVE_IA32_EFER X OR EXIT_LOAD_IA32_EFER X, 0),
      (VmcsControl32.VMENTRY_CONTROLS, Msr.IA32_VMX_TRUE_ENTRY_CTLS, ENTRY_LOAD_IA32_PAT X OR ENTRY_LOAD_IA32_EFER X, 0)]"


text \<open>From \<open>s\<close> to \<open>s'\<close> only the fields in \<open>F\<close> may have changed.\<close>

definition framed :: "('s, 'z) vmx_machine_scheme \<Rightarrow> ('s \<Rightarrow> bool) \<Rightarrow> vmcs_field set \<Rightarrow> 's \<Rightarrow> 's \<Rightarrow> bool" where
  "framed M ok F s s' \<longleftrightarrow> ok s' \<and> (\<forall>g. g \<notin> F \<longrightarrow> vmcs_read M g s' = vmcs_read M g s) \<and> (\<forall>m. rdmsr M m s' = rdmsr M m s)"

lemma framed_trans: "framed M ok F s s' \<Longrightarrow> framed M ok G s' s'' \<Longrightarrow> framed M ok (F \<union> G) s s''"
  by (simp add: framed_def)

lemma framed_read: "framed M ok F s s' \<Longrightarrow> g \<notin> F \<Longrightarrow> vmcs_read M g s' = vmcs_read M g s"
  by (simp add: framed_def)

lemma framed_ok: "framed M ok F s s' \<Longrightarrow> ok s'" by (simp add: framed_def)

lemma framed_msr: "framed M ok F s s' \<Longrightarrow> msr_read M r s' = msr_read M r s" by (simp add: framed_def msr_read_def)

lemma framed_allowed: "framed M ok F s s' \<Longrightarrow> control_allowed M cap sets clears s' = control_allowed M cap sets clears s"
  by (simp add: control_allowed_def framed_msr)

lemma rbind_assoc: "rbind (rbind m f) g = rbind m (\<lambda>x s. rbind (f x s) g)"
  by (cases m) (auto simp: rbind_def split: prod.splits sum.splits)

lemma write_fields_append: "write_fields M (fs @ gs) = (\<lambda>s. rbind (write_fields M fs s) (\<lambda>_. write_fields M gs))"
  by (induction fs) (auto intro!: ext simp: rbind_assoc)

lemma setup_vmcs_run:
  assumes "get_tr_base gbs H = Returns tr_base"
  shows "setup_vmcs M X gbs H vmcs_paddr bitmap_paddr entry ept_root s =
     rbind (vmx_try M (vmclear M (of_nat vmcs_paddr) s)) (\<lambda>_ s.
     rbind (vmx_try M (vmptrld M (of_nat vmcs_paddr) s)) (\<lambda>_ s.
     rbind (write_fields M (host_fields_1 M H @ host_fields_2 H tr_base @ guest_fields M X entry) s) (\<lambda>_ s.
     setup_vmcs_control M X bitmap_paddr ept_root s)))"
  by (simp add: setup_vmcs_def setup_vmcs_host_def setup_vmcs_guest_def assms write_fields_append rbind_assoc)

context vmx_operation
begin

lemma control_step:
  assumes "framed M ok F s0 s" "Control32 c \<in> supported" "control_allowed M cap sets clears s0"
  obtains s' v where "set_control M c cap old sets clears s = Returns (Inr (), s')" "framed M ok {Control32 c} s s'"
    "framed M ok (insert (Control32 c) F) s0 s'" "vmcs_read M (Control32 c) s' = Inr (ucast (v::u32))" "sets AND v = sets"
proof -
  have all: "control_allowed M cap sets clears s" using assms(3) framed_allowed [OF assms(1)] by blast
  obtain s' v where *: "set_control M c cap old sets clears s = Returns (Inr (), s')" "ok s'"
    "vmcs_read M (Control32 c) s' = Inr (ucast (v::u32))" "sets AND v = sets"
    "\<And>g. g \<noteq> Control32 c \<Longrightarrow> vmcs_read M g s' = vmcs_read M g s" "\<And>m. rdmsr M m s' = rdmsr M m s"
    using set_control_ok [OF framed_ok [OF assms(1)] assms(2), of sets clears cap old] all unfolding control_allowed_def by blast
  have fr: "framed M ok {Control32 c} s s'" using * by (simp add: framed_def)
  then show ?thesis using that [OF *(1) fr _ *(3,4)] framed_trans [OF assms(1) fr] by simp
qed

lemma fields_step:
  assumes "framed M ok F s0 s" "set fs \<subseteq> set (setup_fields M X H tr_base entry bitmap_paddr)" "distinct (map fst fs)"
    and "fst ` set (setup_fields M X H tr_base entry bitmap_paddr) \<subseteq> supported"
  shows "\<exists>s'. write_fields M fs s = Returns (Inr (), s') \<and> framed M ok (fst ` set fs) s s' \<and>
    (\<forall>f v. (f, v) \<in> set fs \<longrightarrow> vmcs_read M f s' = Inr (take_bit (accessor_bits f) (v s0)))"
proof -
  have sup: "f \<in> supported \<and> field_kind f \<noteq> 1" if "(f, v) \<in> set fs" for f v
    using that assms(2,4) setup_fields_writable [of f v M X H tr_base entry bitmap_paddr] by force
  have stable: "v s' = v s" if "(f, v) \<in> set fs" "\<forall>m. rdmsr M m s' = rdmsr M m s" for f v s s'
    using that assms(2) setup_fields_stable [of f v M X H tr_base entry bitmap_paddr] by blast
  obtain s' where *: "write_fields M fs s = Returns (Inr (), s')" "ok s'"
    "\<And>f v. (f, v) \<in> set fs \<Longrightarrow> vmcs_read M f s' = Inr (take_bit (accessor_bits f) (v s))"
    "\<And>g. g \<notin> fst ` set fs \<Longrightarrow> vmcs_read M g s' = vmcs_read M g s" "\<And>m. rdmsr M m s' = rdmsr M m s"
    using write_fields_spec [OF framed_ok [OF assms(1)] assms(3)] sup stable by (metis (no_types, lifting))
  have fr: "framed M ok (fst ` set fs) s s'" using * by (simp add: framed_def)
  have "v s = v s0" if "(f, v) \<in> set fs" for f v
    by (rule stable [OF that]) (use assms(1) in \<open>simp add: framed_def\<close>)
  then show ?thesis using *(1,3) fr by metis
qed

end

text \<open>The five controls one after the other: each keeps the bits that it was asked for.\<close>

fun set_controls :: "('s, 'z) vmx_machine_scheme \<Rightarrow> (VmcsControl32 \<times> Msr \<times> u32 \<times> u32) list \<Rightarrow> ('s \<Rightarrow> u32) list \<Rightarrow> 's \<Rightarrow> ('s, unit) rvm_result" where
  "set_controls M ((c, cap, sets, clears) # cs) (old # olds) s =
     rbind (set_control M c cap (old s) sets clears s) (\<lambda>_ s. set_controls M cs olds s)"
| "set_controls M _ _ s = Returns (Inr (), s)"

definition old_controls :: "('s, 'z) vmx_machine_scheme \<Rightarrow> ('s \<Rightarrow> u32) list" where
  "old_controls M = [\<lambda>s. ucast (msr_read M Msr.IA32_VMX_PINBASED_CTLS s),
       \<lambda>s. ucast (msr_read M Msr.IA32_VMX_PROCBASED_CTLS s), \<lambda>_. 0, \<lambda>s. ucast (msr_read M Msr.IA32_VMX_EXIT_CTLS s),
       \<lambda>s. ucast (msr_read M Msr.IA32_VMX_ENTRY_CTLS s)]"

lemma setup_controls_shape: "length (old_controls M) = length (setup_controls X)" "distinct (map fst (setup_controls X))"
  by (simp_all add: old_controls_def setup_controls_def)

lemma setup_vmcs_control_run:
  "setup_vmcs_control M X bitmap_paddr ept_root s =
     rbind (set_controls M (setup_controls X) (old_controls M) s) (\<lambda>_ s.
     rbind (set_ept_pointer M ept_root s) (\<lambda>_ s. write_fields M (control_fields bitmap_paddr) s))"
  by (simp add: setup_vmcs_control_def setup_controls_def old_controls_def rbind_assoc)

context vmx_operation
begin

lemma set_controls_ok:
  assumes "framed M ok F s0 s" "length olds = length cs" "distinct (map fst cs)"
    and "\<And>c cap sets clears. (c, cap, sets, clears) \<in> set cs \<Longrightarrow> Control32 c \<in> supported \<and> control_allowed M cap sets clears s0"
  shows "\<exists>s'. set_controls M cs olds s = Returns (Inr (), s') \<and> framed M ok (Control32 ` fst ` set cs) s s' \<and>
    (\<forall>c cap sets clears. (c, cap, sets, clears) \<in> set cs \<longrightarrow> (\<exists>v. vmcs_read M (Control32 c) s' = Inr (ucast (v::u32)) \<and> sets AND v = sets))"
  using assms
proof (induction cs arbitrary: olds s F)
  case Nil
  then show ?case by (simp add: framed_def)
next
  case (Cons x cs)
  obtain c cap sets clears where x: "x = (c, cap, sets, clears)" by (cases x)
  obtain old olds' where olds: "olds = old # olds'" using Cons.prems(2) by (cases olds) auto
  have len: "length olds' = length cs" and dist: "distinct (map fst cs)" using Cons.prems(2,3) olds by simp_all
  have c: "Control32 c \<in> supported" "control_allowed M cap sets clears s0" using Cons.prems(4) x by auto
  obtain s1 v where s1: "set_control M c cap (old s) sets clears s = Returns (Inr (), s1)" "framed M ok {Control32 c} s s1"
    "framed M ok (insert (Control32 c) F) s0 s1" "vmcs_read M (Control32 c) s1 = Inr (ucast (v::u32))" "sets AND v = sets"
    by (rule control_step [OF Cons.prems(1) c])
  obtain s2 where s2: "set_controls M cs olds' s1 = Returns (Inr (), s2)" "framed M ok (Control32 ` fst ` set cs) s1 s2"
    "\<forall>c cap sets clears. (c, cap, sets, clears) \<in> set cs \<longrightarrow> (\<exists>v. vmcs_read M (Control32 c) s2 = Inr (ucast (v::u32)) \<and> sets AND v = sets)"
    using Cons.IH [OF s1(3) len dist Cons.prems(4) [OF list.set_intros(2)]] by blast
  have "vmcs_read M (Control32 c) s2 = Inr (ucast v)"
    using framed_read [OF s2(2), of "Control32 c"] s1(4) Cons.prems(3) x by (auto simp: image_iff)
  then show ?case
    using s1(1,5) s2 framed_trans [OF s1(2) s2(2)] x olds by (intro exI [of _ s2]) (auto, blast)
qed

lemma set_ept_pointer_step:
  assumes "framed M ok F s0 s" "Control64 VmcsControl64.EPTP \<in> supported"
  shows "\<exists>s'. set_ept_pointer M root s = Returns (Inr (), s') \<and> framed M ok {Control64 VmcsControl64.EPTP} s s' \<and>
    vmcs_read M (Control64 VmcsControl64.EPTP) s' = Inr (from_table_phys root)"
  using set_ept_pointer_ok [OF framed_ok [OF assms(1)] assms(2)] unfolding framed_def by (simp, blast)

end

text \<open>The three groups of writes of \<open>setup_vmcs\<close>, each with the fields that it may change.\<close>

lemma setup_vmcs_stages:
  fixes M :: "('s, 'z) vmx_machine_scheme"
  assumes cpu: "vmx_operation M ok supported vmx_on region" "vmx_on s" "region (of_nat vmcs_paddr)"
    and sup: "fst ` set (setup_fields M X H tr_base entry bitmap_paddr) \<subseteq> supported"
      "Control32 ` fst ` set (setup_controls X) \<subseteq> supported" "Control64 VmcsControl64.EPTP \<in> supported"
    and caps: "\<forall>c cap sets clears. (c, cap, sets, clears) \<in> set (setup_controls X) \<longrightarrow> control_allowed M cap sets clears s"
    and tr: "get_tr_base gbs H = Returns tr_base"
  obtains s6 s3 s4 s5 where
    "setup_vmcs M X gbs H vmcs_paddr bitmap_paddr entry ept_root s = Returns (Inr (), s6)"
    "\<forall>f v. (f, v) \<in> set (host_fields_1 M H @ host_fields_2 H tr_base @ guest_fields M X entry) \<longrightarrow>
      vmcs_read M f s3 = Inr (take_bit (accessor_bits f) (v s))"
    "framed M ok (Control32 ` fst ` set (setup_controls X)) s3 s4"
    "\<forall>c cap sets clears. (c, cap, sets, clears) \<in> set (setup_controls X) \<longrightarrow> (\<exists>w. vmcs_read M (Control32 c) s4 = Inr (ucast (w::u32)) \<and> sets AND w = sets)"
    "framed M ok {Control64 VmcsControl64.EPTP} s4 s5" "vmcs_read M (Control64 VmcsControl64.EPTP) s5 = Inr (from_table_phys ept_root)"
    "framed M ok (fst ` set (control_fields bitmap_paddr :: (vmcs_field \<times> ('s \<Rightarrow> u64)) list)) s5 s6"
    "\<forall>f v. (f, v) \<in> set (control_fields bitmap_paddr) \<longrightarrow> vmcs_read M f s6 = Inr (take_bit (accessor_bits f) (v s))"
proof -
  let ?fs = "host_fields_1 M H @ host_fields_2 H tr_base @ guest_fields M X entry" and ?cf = "control_fields bitmap_paddr :: (vmcs_field \<times> ('s \<Rightarrow> u64)) list"
  have all: "setup_fields M X H tr_base entry bitmap_paddr = ?fs @ ?cf" by (simp add: setup_fields_def)
  have dist: "distinct (map fst ?fs)" "distinct (map fst ?cf)"
    using setup_fields_distinct [of M X H tr_base entry bitmap_paddr] unfolding all by auto
  have sub: "set ?fs \<subseteq> set (setup_fields M X H tr_base entry bitmap_paddr)" "set ?cf \<subseteq> set (setup_fields M X H tr_base entry bitmap_paddr)"
    unfolding all by auto
  obtain s1 where s1: "vmclear M (of_nat vmcs_paddr) s = (Inr (), s1)" "vmx_on s1" "\<forall>m. rdmsr M m s1 = rdmsr M m s"
    using vmx_operation.vmclear_ok [OF cpu] by blast
  obtain s2 where s2: "vmptrld M (of_nat vmcs_paddr) s1 = (Inr (), s2)" "ok s2" "\<forall>m. rdmsr M m s2 = rdmsr M m s1"
    using vmx_operation.vmptrld_ok [OF cpu(1) s1(2) cpu(3)] by blast
  have msr: "\<forall>m. rdmsr M m s2 = rdmsr M m s" using s1(3) s2(3) by simp
  have fr2: "framed M ok {} s2 s2" using s2(2) by (simp add: framed_def)
  obtain s3 where s3: "write_fields M ?fs s2 = Returns (Inr (), s3)" "framed M ok (fst ` set ?fs) s2 s3"
    "\<And>f v. (f, v) \<in> set ?fs \<Longrightarrow> vmcs_read M f s3 = Inr (take_bit (accessor_bits f) (v s2))"
    using vmx_operation.fields_step [OF cpu(1) fr2 sub(1) dist(1) sup(1)] by blast
  have ctl: "Control32 c \<in> supported \<and> control_allowed M cap sets clears s2" if "(c, cap, sets, clears) \<in> set (setup_controls X)" for c cap sets clears
    using caps sup(2) that msr by (force simp: control_allowed_def msr_read_def)
  obtain s4 where s4: "set_controls M (setup_controls X) (old_controls M) s3 = Returns (Inr (), s4)"
    "framed M ok (Control32 ` fst ` set (setup_controls X)) s3 s4"
    "\<forall>c cap sets clears. (c, cap, sets, clears) \<in> set (setup_controls X) \<longrightarrow> (\<exists>w. vmcs_read M (Control32 c) s4 = Inr (ucast (w::u32)) \<and> sets AND w = sets)"
    using vmx_operation.set_controls_ok [OF cpu(1) s3(2) setup_controls_shape ctl] by blast
  obtain s5 where s5: "set_ept_pointer M ept_root s4 = Returns (Inr (), s5)" "framed M ok {Control64 VmcsControl64.EPTP} s4 s5"
    "vmcs_read M (Control64 VmcsControl64.EPTP) s5 = Inr (from_table_phys ept_root)"
    using vmx_operation.set_ept_pointer_step [OF cpu(1) s4(2) sup(3)] by blast
  note fr25 = framed_trans [OF framed_trans [OF s3(2) s4(2)] s5(2)]
  obtain s6 where s6: "write_fields M ?cf s5 = Returns (Inr (), s6)" "framed M ok (fst ` set ?cf) s5 s6"
    "\<And>f v. (f, v) \<in> set ?cf \<Longrightarrow> vmcs_read M f s6 = Inr (take_bit (accessor_bits f) (v s2))"
    using vmx_operation.fields_step [OF cpu(1) fr25 sub(2) dist(2) sup(1)] by blast
  have run: "setup_vmcs M X gbs H vmcs_paddr bitmap_paddr entry ept_root s = Returns (Inr (), s6)"
    by (simp add: setup_vmcs_run [OF tr] s1(1) s2(1) s3(1) setup_vmcs_control_run s4(1) s5(1) s6(1))
  have stable: "v s2 = v s" if "(f, v) \<in> set (?fs @ ?cf)" for f v
    using setup_fields_stable [of f v M X H tr_base entry bitmap_paddr, unfolded all, OF that msr] .
  have "vmcs_read M f s3 = Inr (take_bit (accessor_bits f) (v s))" if "(f, v) \<in> set ?fs" for f v
    using s3(3) [OF that] stable [unfolded set_append, OF UnI1, OF that [unfolded set_append]] by simp
  moreover have "vmcs_read M f s6 = Inr (take_bit (accessor_bits f) (v s))" if "(f, v) \<in> set ?cf" for f v
    using s6(3) [OF that] stable [unfolded set_append, OF UnI2, OF that] by simp
  ultimately have "\<forall>f v. (f, v) \<in> set ?fs \<longrightarrow> vmcs_read M f s3 = Inr (take_bit (accessor_bits f) (v s))"
    "\<forall>f v. (f, v) \<in> set ?cf \<longrightarrow> vmcs_read M f s6 = Inr (take_bit (accessor_bits f) (v s))"
    by blast+
  then show thesis by (intro that [OF run _ s4(2,3) s5(2,3) s6(2)])
qed

text \<open>No write undoes an earlier one.\<close>

lemma setup_vmcs_fields:
  fixes M :: "('s, 'z) vmx_machine_scheme"
  assumes cpu: "vmx_operation M ok supported vmx_on region" "vmx_on s" "region (of_nat vmcs_paddr)"
    and sup: "fst ` set (setup_fields M X H tr_base entry bitmap_paddr) \<subseteq> supported"
      "Control32 ` fst ` set (setup_controls X) \<subseteq> supported" "Control64 VmcsControl64.EPTP \<in> supported"
    and caps: "\<forall>c cap sets clears. (c, cap, sets, clears) \<in> set (setup_controls X) \<longrightarrow> control_allowed M cap sets clears s"
    and tr: "get_tr_base gbs H = Returns tr_base"
  shows "\<exists>s'. setup_vmcs M X gbs H vmcs_paddr bitmap_paddr entry ept_root s = Returns (Inr (), s') \<and> ok s' \<and>
    (\<forall>f v. (f, v) \<in> set (setup_fields M X H tr_base entry bitmap_paddr) \<longrightarrow>
      vmcs_read M f s' = Inr (take_bit (accessor_bits f) (v s))) \<and>
    vmcs_read M (Control64 VmcsControl64.EPTP) s' = Inr (from_table_phys ept_root) \<and>
    (\<forall>c cap sets clears. (c, cap, sets, clears) \<in> set (setup_controls X) \<longrightarrow>
      (\<exists>w. vmcs_read M (Control32 c) s' = Inr (ucast (w::u32)) \<and> sets AND w = sets))"
proof -
  let ?fs = "host_fields_1 M H @ host_fields_2 H tr_base @ guest_fields M X entry" and ?cf = "control_fields bitmap_paddr :: (vmcs_field \<times> ('s \<Rightarrow> u64)) list"
  have all: "setup_fields M X H tr_base entry bitmap_paddr = ?fs @ ?cf" by (simp add: setup_fields_def)
  have apart: "fst ` set ?fs \<inter> fst ` set ?cf = {}"
    using setup_fields_distinct [of M X H tr_base entry bitmap_paddr] unfolding all by auto
  have own: "Control64 VmcsControl64.EPTP \<notin> fst ` set (?fs @ ?cf)" "Control32 ` fst ` set (setup_controls X) \<inter> fst ` set (?fs @ ?cf) = {}"
    "Control64 VmcsControl64.EPTP \<notin> fst ` set ?cf"
    by (simp_all add: field_list_defs setup_controls_def)
  obtain s6 s3 s4 s5 where run: "setup_vmcs M X gbs H vmcs_paddr bitmap_paddr entry ept_root s = Returns (Inr (), s6)"
    and s3: "\<forall>f v. (f, v) \<in> set ?fs \<longrightarrow> vmcs_read M f s3 = Inr (take_bit (accessor_bits f) (v s))"
    and s4: "framed M ok (Control32 ` fst ` set (setup_controls X)) s3 s4"
      "\<forall>c cap sets clears. (c, cap, sets, clears) \<in> set (setup_controls X) \<longrightarrow> (\<exists>w. vmcs_read M (Control32 c) s4 = Inr (ucast (w::u32)) \<and> sets AND w = sets)"
    and s5: "framed M ok {Control64 VmcsControl64.EPTP} s4 s5" "vmcs_read M (Control64 VmcsControl64.EPTP) s5 = Inr (from_table_phys ept_root)"
    and s6: "framed M ok (fst ` set ?cf) s5 s6" "\<forall>f v. (f, v) \<in> set ?cf \<longrightarrow> vmcs_read M f s6 = Inr (take_bit (accessor_bits f) (v s))"
    by (rule setup_vmcs_stages [OF assms, of ept_root])
  have late: "vmcs_read M f s6 = vmcs_read M f s3" if "f \<in> fst ` set ?fs" for f
  proof (rule framed_read [OF framed_trans [OF framed_trans [OF s4(1) s5(1)] s6(1)]])
    have "f \<in> fst ` set (?fs @ ?cf)" using that by auto
    then show "f \<notin> Control32 ` fst ` set (setup_controls X) \<union> {Control64 VmcsControl64.EPTP} \<union> fst ` set ?cf"
      using that own apart by blast
  qed
  have "vmcs_read M f s6 = Inr (take_bit (accessor_bits f) (v s))" if "(f, v) \<in> set (?fs @ ?cf)" for f v
  proof (cases "(f, v) \<in> set ?fs")
    case True
    then have "f \<in> fst ` set ?fs" by (rule image_eqI [rotated]) simp
    from late [OF this] s3 [rule_format, OF True] show ?thesis by (rule trans)
  next
    case False
    then show ?thesis using that s6(2) by (metis UnE set_append)
  qed
  moreover have "vmcs_read M (Control64 VmcsControl64.EPTP) s6 = Inr (from_table_phys ept_root)"
    using framed_read [OF s6(1) own(3)] s5(2) by simp
  moreover have "vmcs_read M (Control32 c) s6 = vmcs_read M (Control32 c) s4" if "(c, cap, sets, clears) \<in> set (setup_controls X)" for c cap sets clears
    using framed_read [OF framed_trans [OF s5(1) s6(1)], of "Control32 c"] own(2) that by force
  ultimately show ?thesis
    using run framed_ok [OF s6(1)] s4(2) unfolding all by (intro exI [of _ s6]) simp
qed


definition sample_regs :: host_regs where
  "sample_regs = \<lparr>host_cr0 = 0x80050033, host_cr3 = 0x101000, host_cr4 = 0x2020, host_es = 0x10, host_cs = 0x8, host_ss = 0x10,
     host_ds = 0x10, host_fs = 0, host_gs = 0, host_tr = 0x18, host_tr_index = 3, gdt_limit = 39, gdt_base = 0x7000,
     gdt_entry = (\<lambda>i. if i = 3 then 0x890020000067 else 0xffffff80), idt_base = 0x8000, vmx_exit_addr = 0x9000\<rparr>"

definition capable_cpu :: plain_cpu_state where
  "capable_cpu = \<lparr>cpu_fields = (\<lambda>_. 0), cpu_msrs = (\<lambda>_. 0xFFFFFFFF00000000)\<rparr>"


section \<open>Pending events\<close>

definition pending_fields :: "vmcs_field set" where
  "pending_fields = set event_fields \<union> set exit_fields \<union> {GuestNW VmcsGuestNW.RFLAGS, Guest32 VmcsGuest32.INTERRUPTIBILITY_STATE,
     Control32 VmcsControl32.PRIMARY_PROCBASED_EXEC_CONTROLS}"

text \<open>The guest can take an interrupt: its interrupt flag is set and nothing blocks it.\<close>

definition interruptible :: "('s, 'z) vmx_machine_scheme \<Rightarrow> x86_consts \<Rightarrow> 's \<Rightarrow> bool" where
  "interruptible M X s \<longleftrightarrow> (\<exists>rflags. vmcs_read M (GuestNW VmcsGuestNW.RFLAGS) s = Inr rflags \<and> rflags AND RFLAGS_INTERRUPT_FLAG X \<noteq> 0) \<and>
     vmcs_read M (Guest32 VmcsGuest32.INTERRUPTIBILITY_STATE) s = Inr 0"

context vmx_cpu
begin

lemma allow_interrupt_spec:
  assumes "ok s" "pending_fields \<subseteq> supported"
  shows "allow_interrupt M X s = Returns (interruptible M X s)"
proof -
  have "GuestNW VmcsGuestNW.RFLAGS \<in> supported" "Guest32 VmcsGuest32.INTERRUPTIBILITY_STATE \<in> supported"
    using assms(2) by (auto simp: pending_fields_def)
  then obtain a b where "vmcs_read M (GuestNW VmcsGuestNW.RFLAGS) s = Inr a" "vmcs_read M (Guest32 VmcsGuest32.INTERRUPTIBILITY_STATE) s = Inr b"
    using vmcs_read_ok [OF assms(1)] by meson
  then show ?thesis by (auto simp: allow_interrupt_def interruptible_def)
qed

lemma set_interrupt_window_spec:
  assumes "ok s" "pending_fields \<subseteq> supported"
  shows "\<exists>s' old. set_interrupt_window M X enable s = Returns (Inr (), s') \<and> ok s' \<and>
    vmcs_read M (Control32 VmcsControl32.PRIMARY_PROCBASED_EXEC_CONTROLS) s = Inr (ucast (old::u32)) \<and>
    vmcs_read M (Control32 VmcsControl32.PRIMARY_PROCBASED_EXEC_CONTROLS) s' =
      Inr (ucast (if enable then old OR INTERRUPT_WINDOW_EXITING X else old AND NOT (INTERRUPT_WINDOW_EXITING X))) \<and>
    (\<forall>g. g \<noteq> Control32 VmcsControl32.PRIMARY_PROCBASED_EXEC_CONTROLS \<longrightarrow> vmcs_read M g s' = vmcs_read M g s)"
proof -
  let ?f = "Control32 VmcsControl32.PRIMARY_PROCBASED_EXEC_CONTROLS"
  have f: "?f \<in> supported" using assms(2) by (auto simp: pending_fields_def)
  obtain c where c: "read_try M ?f s = Returns (Inr c, s)" "vmcs_read M ?f s = Inr c" by (rule read_ok [OF assms(1) f])
  have "take_bit 32 c = c" using c(2) by (cases "vmread M (as_u32 ?f) s") (auto simp: vmcs_read_def)
  then have old: "ucast (ucast c :: u32) = c" by (simp add: ucast_down_up32)
  define w where "w = (if enable then ucast c OR INTERRUPT_WINDOW_EXITING X else ucast c AND NOT (INTERRUPT_WINDOW_EXITING X))"
  obtain s' where s': "vmx_try M (vmcs_write M ?f (ucast w) s) = Returns (Inr (), s')" "ok s'"
    "vmcs_read M ?f s' = Inr (take_bit 32 (ucast w))" "\<And>g. g \<noteq> ?f \<Longrightarrow> vmcs_read M g s' = vmcs_read M g s"
    by (rule write_ok [OF assms(1) f, of "ucast w"]) auto
  have "set_interrupt_window M X enable s = Returns (Inr (), s')"
    unfolding set_interrupt_window_def c(1) rbind_simps Let_def w_def [symmetric] s'(1) ..
  then show ?thesis
    using c old s' by (intro exI [of _ s'] exI [of _ "ucast c"]) (simp add: take_bit_ucast32 w_def)
qed

end

text \<open>C10. Pending events reach the guest in the order in which they were queued, and none is lost.  At the end of an
  exit the queue is what the kernel's handler left, with the timer interrupt appended when the timer fired.  When the
  first event is an exception, or the guest can take interrupts, exactly that event is injected and leaves the queue.
  Otherwise the queue is kept, and interrupt-window exiting is enabled so that the guest exits as soon as it can take
  one; nothing else in the control structure changes.\<close>

theorem pending_events_in_order:
  assumes cpu: "vmx_cpu M ok supported" "ok s" "pending_fields \<subseteq> supported"
    and handler: "handle vs = Returns (v, s, os)" and timer: "check_interrupt now (apic v) = Returns (fired, t)"
    and queue: "q = pending_events v @ (if fired then [(timer_vector t, None)] else [])"
  shows "\<exists>v' s'. vcpu_vmexit_handler M X sb V now handle vs = Returns (v', s', os) \<and> ok s' \<and> apic v' = t \<and>
    (case q of
       [] \<Rightarrow> pending_events v' = [] \<and> s' = s
     | (vec, err) # rest \<Rightarrow>
         if vec < 32 \<or> interruptible M X s
         then pending_events v' = rest \<and> inject_event M sb V vec err s = Returns (Inr (), s')
         else pending_events v' = q \<and> (\<exists>w. vmcs_read M (Control32 VmcsControl32.PRIMARY_PROCBASED_EXEC_CONTROLS) s =
             Inr (ucast (w::u32)) \<and> vmcs_read M (Control32 VmcsControl32.PRIMARY_PROCBASED_EXEC_CONTROLS) s' =
             Inr (ucast (w OR INTERRUPT_WINDOW_EXITING X))) \<and>
           (\<forall>g. g = Control32 VmcsControl32.PRIMARY_PROCBASED_EXEC_CONTROLS \<or> vmcs_read M g s' = vmcs_read M g s))"
proof -
  define v1 where "v1 = (if fired then vcpu_inject_event (timer_vector t) None (v\<lparr>apic := t\<rparr>) else v\<lparr>apic := t\<rparr>)"
  have v1: "pending_events v1 = q" "apic v1 = t" by (simp_all add: v1_def queue vcpu_inject_event_def)
  have run: "vcpu_vmexit_handler M X sb V now handle vs =
      obind (check_pending_events M X sb V (v1, s)) (\<lambda>(r, v, s). case r of Inl _ \<Rightarrow> Panics | Inr _ \<Rightarrow> Returns (v, s, os))"
    by (simp add: vcpu_vmexit_handler_def handler timer v1_def)
  have fields: "set event_fields \<subseteq> supported" "set exit_fields \<subseteq> supported" using cpu(3) by (auto simp: pending_fields_def)
  note allow = vmx_cpu.allow_interrupt_spec [OF cpu, of X]
  show ?thesis
  proof (cases q)
    case Nil
    then show ?thesis using v1 cpu(2) by (simp add: run check_pending_events_def)
  next
    case (Cons e rest)
    obtain vec err where e: "e = (vec, err)" by (cases e)
    show ?thesis
    proof (cases "vec < 32 \<or> interruptible M X s")
      case True
      obtain s' where s': "inject_event M sb V vec err s = Returns (Inr (), s')" "ok s'"
        using vmx_cpu.inject_event_spec [OF cpu(1,2) fields, of sb V vec err] by blast
      then have "vcpu_vmexit_handler M X sb V now handle vs = Returns (v1\<lparr>pending_events := rest\<rparr>, s', os)"
        using True by (auto simp: run check_pending_events_def v1 Cons e allow)
      then show ?thesis using True s' v1 Cons e by simp
    next
      case False
      obtain s' w where s': "set_interrupt_window M X True s = Returns (Inr (), s')" "ok s'"
        "vmcs_read M (Control32 VmcsControl32.PRIMARY_PROCBASED_EXEC_CONTROLS) s = Inr (ucast (w::u32))"
        "vmcs_read M (Control32 VmcsControl32.PRIMARY_PROCBASED_EXEC_CONTROLS) s' = Inr (ucast (w OR INTERRUPT_WINDOW_EXITING X))"
        "\<forall>g. g \<noteq> Control32 VmcsControl32.PRIMARY_PROCBASED_EXEC_CONTROLS \<longrightarrow> vmcs_read M g s' = vmcs_read M g s"
        using vmx_cpu.set_interrupt_window_spec [OF cpu, of X True] unfolding if_True by blast
      then have "vcpu_vmexit_handler M X sb V now handle vs = Returns (v1, s', os)"
        using False by (simp add: run check_pending_events_def v1 Cons e allow)
      then show ?thesis using False s' v1 Cons e by (intro exI [of _ v1] exI [of _ s']) auto
    qed
  qed
qed

definition sample_vcpu :: vcpu where
  "sample_vcpu = \<lparr>guest_regs = general_registers_default, host_stack_top = 0, vcpu_vmcs = 0x5000, msr_bitmap = 0x6000,
     apic = apic_timer_new, pending_events = [(14, Some 5), (0x20, None)]\<rparr>"

theorem pending_events_in_order_witness:
  "\<exists>v' s'. vcpu_vmexit_handler plain_cpu sample_consts word_set_bit sample_vectors 100 Returns (sample_vcpu, exit_cpu, [0x41::u8]) = Returns (v', s', [0x41]) \<and>
    True \<and> apic v' = apic_timer_new \<and> pending_events v' = [(0x20, None)] \<and>
    inject_event plain_cpu word_set_bit sample_vectors 14 (Some 5) exit_cpu = Returns (Inr (), s')"
proof -
  have timer: "check_interrupt 100 (apic sample_vcpu) = Returns (False, apic_timer_new)"
    by (simp add: check_interrupt_def sample_vcpu_def apic_timer_new_def)
  note spec = pending_events_in_order [where handle = Returns and vs = "(sample_vcpu, exit_cpu, [0x41::u8])", OF vmx_cpu_plain TrueI subset_UNIV refl timer refl]
  show ?thesis using spec [of sample_consts word_set_bit sample_vectors] by (simp add: sample_vcpu_def)
qed

end
