(* ===== verification/Hypervisor.thy ===== *)
theory Hypervisor
  imports Vcpu
begin

text \<open>Turning VMX on and off (\<open>arch/x86_64/vmx/mod.rs\<close>, \<open>lib.rs\<close> of the crate \<open>rvm\<close>), the handlers of guest exits
  (\<open>virt/kvm/mod.rs\<close>) and the emulated devices (\<open>virt/kvm/device_emu\<close>) of the kernel.

  A handler works on the virtual processor, the processor and the bytes written to the serial port.  The instruction
  \<open>cpuid\<close> is an argument, and the functions of the crate \<open>bit_field\<close> are the record \<open>bit_crate\<close>.

  The lemmas show that turning VMX on and off gives back what it took, what the guest sees of \<open>cpuid\<close> and of the
  serial port, and which accesses of a guest stop the host.\<close>

section \<open>Turning VMX on and off\<close>

record bit_crate =
  get_bit32 :: get_bit32_fn
  get_bits32 :: get_bits32_fn
  set_bit32 :: set_bit32_fn
  set_bits32 :: "u32 \<Rightarrow> nat \<Rightarrow> nat \<Rightarrow> u32 \<Rightarrow> u32"
  get_bit64 :: "u64 \<Rightarrow> nat \<Rightarrow> bool"
  get_bits64 :: get_bits_fn

record vmx_basic =
  revision_id :: u32
  region_size :: u16
  is_32bit_address :: bool
  mem_type :: u8
  basic_io_exit_info :: bool
  vmx_flex_controls :: bool

definition VMX_MEMORY_TYPE_WRITE_BACK :: u8 where "VMX_MEMORY_TYPE_WRITE_BACK = 6"

definition vmx_basic_read :: "('s, 'z) vmx_machine_scheme \<Rightarrow> bit_crate \<Rightarrow> 's \<Rightarrow> vmx_basic" where
  "vmx_basic_read M B s =
     (let msr = msr_read M Msr.IA32_VMX_BASIC s in
      \<lparr>revision_id = ucast (get_bits64 B msr 0 31), region_size = ucast (get_bits64 B msr 32 45),
       is_32bit_address = get_bit64 B msr 48, mem_type = ucast (get_bits64 B msr 50 54),
       basic_io_exit_info = get_bit64 B msr 54, vmx_flex_controls = get_bit64 B msr 55\<rparr>)"

definition FC_LOCKED :: u64 where "FC_LOCKED = push_bit 0 1"
definition FC_VMXON_ENABLED_INSIDE_SMX :: u64 where "FC_VMXON_ENABLED_INSIDE_SMX = push_bit 1 1"
definition FC_VMXON_ENABLED_OUTSIDE_SMX :: u64 where "FC_VMXON_ENABLED_OUTSIDE_SMX = push_bit 2 1"

definition FC_all :: u64 where
  "FC_all = FC_LOCKED OR FC_VMXON_ENABLED_INSIDE_SMX OR FC_VMXON_ENABLED_OUTSIDE_SMX"

definition feature_control_read :: "('s, 'z) vmx_machine_scheme \<Rightarrow> 's \<Rightarrow> u64" where
  "feature_control_read M s = msr_read M Msr.IA32_FEATURE_CONTROL s AND FC_all"

definition feature_control_write :: "('s, 'z) vmx_machine_scheme \<Rightarrow> u64 \<Rightarrow> 's \<Rightarrow> 's" where
  "feature_control_write M flags s =
     (let old_value = msr_read M Msr.IA32_FEATURE_CONTROL s;
          reserved = old_value AND NOT FC_all;
          new_value = reserved OR flags in
      msr_write M Msr.IA32_FEATURE_CONTROL new_value s)"

text \<open>The state of one processor, and the host with its control registers as the crate \<open>x86_64\<close> reports them.\<close>

record percpu =
  vmcs_revision_id :: u32
  vmx_region :: nat

record ('s, 'h) vmx_host =
  vmh :: "('s, 'h) vm_host"
  cr0 :: u64
  cr4 :: u64

definition percpu_new :: percpu where
  "percpu_new = \<lparr>vmcs_revision_id = 0, vmx_region = 0\<rparr>"

text \<open>\<open>feature\<close> is the feature information of \<open>cpuid\<close>, with the flag for VMX.\<close>

definition has_hardware_support :: "bool option \<Rightarrow> bool" where
  "has_hardware_support feature = (case feature of Some has_vmx \<Rightarrow> has_vmx | None \<Rightarrow> False)"

definition is_enabled :: "x86_consts \<Rightarrow> ('s, 'h) vmx_host \<Rightarrow> bool" where
  "is_enabled X w = flags_contain (cr4 w) (CR4_VIRTUAL_MACHINE_EXTENSIONS X)"

definition crx_is_valid :: "u64 \<Rightarrow> u64 \<Rightarrow> u64 \<Rightarrow> bool" where
  "crx_is_valid v fixed0 fixed1 \<longleftrightarrow> NOT fixed0 OR v \<noteq> 0 \<and> fixed1 OR NOT v \<noteq> 0"

definition on_host :: "(('s, 'h) vm_host \<Rightarrow> (('s, 'h) vm_host, 'a) rvm_result) \<Rightarrow> percpu \<times> ('s, 'h) vmx_host
    \<Rightarrow> (percpu \<times> ('s, 'h) vmx_host, 'a) rvm_result" where
  "on_host f = (\<lambda>(p, w). obind (f (vmh w)) (\<lambda>(r, h). Returns (r, (p, w\<lparr>vmh := h\<rparr>))))"

text \<open>The assignment to \<open>vmx_region\<close> drops the region that was there.\<close>

definition set_vmx_region :: "(nat \<Rightarrow> 'h \<Rightarrow> 'h outcome) \<Rightarrow> nat \<Rightarrow> percpu \<times> ('s, 'h) vmx_host \<Rightarrow> (percpu \<times> ('s, 'h) vmx_host) outcome" where
  "set_vmx_region dealloc frame = (\<lambda>(p, w).
     obind (host_drop_frame dealloc (vmx_region p) (vmh w)) (\<lambda>h. Returns (p\<lparr>vmx_region := frame\<rparr>, w\<lparr>vmh := h\<rparr>)))"

definition hardware_enable :: "('s, 'z) vmx_machine_scheme \<Rightarrow> x86_consts \<Rightarrow> bit_crate \<Rightarrow> bool option
    \<Rightarrow> ('h \<Rightarrow> (nat option \<times> 'h) outcome) \<Rightarrow> (nat \<Rightarrow> 'h \<Rightarrow> 'h outcome) \<Rightarrow> percpu \<times> ('s, 'h) vmx_host
    \<Rightarrow> (percpu \<times> ('s, 'h) vmx_host, unit) rvm_result" where
  "hardware_enable M X B feature alloc dealloc = (\<lambda>(p, w).
     if \<not> has_hardware_support feature then Returns (Inl Unsupported, (p, w))
     else if is_enabled X w then Returns (Inl ResourceBusy, (p, w))
     else
       let s = vm_cpu (vmh w);
           ctrl = feature_control_read M s;
           locked = flags_contain ctrl FC_LOCKED;
           vmxon_outside = flags_contain ctrl FC_VMXON_ENABLED_OUTSIDE_SMX in
       if locked \<and> \<not> vmxon_outside then Returns (Inl Unsupported, (p, w))
       else
         let s = (if \<not> locked then feature_control_write M (ctrl OR FC_LOCKED OR FC_VMXON_ENABLED_OUTSIDE_SMX) s else s);
             w = w\<lparr>vmh := (vmh w)\<lparr>vm_cpu := s\<rparr>\<rparr> in
         if \<not> crx_is_valid (cr0 w) (msr_read M Msr.IA32_VMX_CR0_FIXED0 s) (msr_read M Msr.IA32_VMX_CR0_FIXED1 s)
         then Returns (Inl BadState, (p, w))
         else if \<not> crx_is_valid (cr4 w) (msr_read M Msr.IA32_VMX_CR4_FIXED0 s) (msr_read M Msr.IA32_VMX_CR4_FIXED1 s)
         then Returns (Inl BadState, (p, w))
         else
           let basic = vmx_basic_read M B s in
           if unat (region_size basic) \<noteq> 4096 then Returns (Inl Unsupported, (p, w))
           else if mem_type basic \<noteq> VMX_MEMORY_TYPE_WRITE_BACK then Returns (Inl Unsupported, (p, w))
           else if is_32bit_address basic then Returns (Inl Unsupported, (p, w))
           else if \<not> basic_io_exit_info basic then Returns (Inl Unsupported, (p, w))
           else if \<not> vmx_flex_controls basic then Returns (Inl Unsupported, (p, w))
           else
             rbind (on_host (vmx_region_new alloc (set_bits32 B) (set_bit32 B) (revision_id basic) False)
               (p\<lparr>vmcs_revision_id := revision_id basic\<rparr>, w)) (\<lambda>frame pw.
             obind (set_vmx_region dealloc frame pw) (\<lambda>(p, w).
             let w = w\<lparr>cr4 := cr4 w OR CR4_VIRTUAL_MACHINE_EXTENSIONS X\<rparr> in
             on_host (on_cpu (\<lambda>s. vmx_try M (vmxon M (of_nat (vmx_region p)) s))) (p, w))))"

definition hardware_disable :: "('s, 'z) vmx_machine_scheme \<Rightarrow> x86_consts \<Rightarrow> (nat \<Rightarrow> 'h \<Rightarrow> 'h outcome) \<Rightarrow> percpu \<times> ('s, 'h) vmx_host
    \<Rightarrow> (percpu \<times> ('s, 'h) vmx_host, unit) rvm_result" where
  "hardware_disable M X dealloc = (\<lambda>(p, w).
     if \<not> is_enabled X w then Returns (Inl BadState, (p, w))
     else
       rbind (on_host (on_cpu (\<lambda>s. vmx_try M (vmxoff M s))) (p, w)) (\<lambda>_ (p, w).
       obind (set_vmx_region dealloc 0 (p, w\<lparr>cr4 := cr4 w AND NOT (CR4_VIRTUAL_MACHINE_EXTENSIONS X)\<rparr>)) (\<lambda>pw.
       Returns (Inr (), pw))))"

definition create_vcpu :: "('s, 'z) vmx_machine_scheme \<Rightarrow> x86_consts \<Rightarrow> bit_crate \<Rightarrow> host_regs \<Rightarrow> ('h \<Rightarrow> (nat option \<times> 'h) outcome)
    \<Rightarrow> (nat \<Rightarrow> 'h \<Rightarrow> 'h outcome) \<Rightarrow> u64 \<Rightarrow> u64 \<Rightarrow> percpu \<times> ('s, 'h) vmx_host \<Rightarrow> (percpu \<times> ('s, 'h) vmx_host, vcpu) rvm_result" where
  "create_vcpu M X B H alloc dealloc entry npt_root = (\<lambda>(p, w).
     if \<not> is_enabled X w then Returns (Inl BadState, (p, w))
     else on_host (vcpu_new M X (get_bits64 B) (set_bits32 B) (set_bit32 B) H alloc dealloc (vmcs_revision_id p) entry npt_root) (p, w))"

definition percpu_drop :: "('s, 'z) vmx_machine_scheme \<Rightarrow> x86_consts \<Rightarrow> (nat \<Rightarrow> 'h \<Rightarrow> 'h outcome) \<Rightarrow> percpu \<times> ('s, 'h) vmx_host
    \<Rightarrow> (percpu \<times> ('s, 'h) vmx_host) outcome" where
  "percpu_drop M X dealloc = (\<lambda>(p, w).
     obind (if is_enabled X w
            then obind (hardware_disable M X dealloc (p, w)) (\<lambda>(r, pw). case r of Inl _ \<Rightarrow> Panics | Inr _ \<Rightarrow> Returns pw)
            else Returns (p, w)) (\<lambda>pw.
     set_vmx_region dealloc 0 pw))"

section \<open>Emulated devices\<close>

datatype port_io_device = Uart16550 u16 | I8259Pic u16

primrec port_range :: "port_io_device \<Rightarrow> (u16 \<times> u16) outcome" where
  "port_range (Uart16550 port_base) = obind (wadd port_base 8) (\<lambda>e. Returns (port_base, e))"
| "port_range (I8259Pic port_base) = obind (wadd port_base 2) (\<lambda>e. Returns (port_base, e))"

definition find_port_io_device :: "port_io_device list \<Rightarrow> u16 \<Rightarrow> port_io_device option outcome" where
  "find_port_io_device devices p = ofind (\<lambda>dev. obind (port_range dev) (\<lambda>(a, b). Returns (a \<le> p \<and> p < b))) devices"

definition VIRT_DEVICES :: "port_io_device list" where
  "VIRT_DEVICES = [Uart16550 0x3f8, I8259Pic 0x20, I8259Pic 0xA0]"

primrec device_read :: "port_io_device \<Rightarrow> u16 \<Rightarrow> u8 \<Rightarrow> rvm_error + u32" where
  "device_read (Uart16550 port_base) p sz = Inl Unsupported"
| "device_read (I8259Pic port_base) p sz = Inl Unsupported"

definition DATA_REG :: u16 where "DATA_REG = 0"
definition INT_EN_REG :: u16 where "INT_EN_REG = 1"
definition FIFO_CTRL_REG :: u16 where "FIFO_CTRL_REG = 2"
definition LINE_CTRL_REG :: u16 where "LINE_CTRL_REG = 3"
definition MODEM_CTRL_REG :: u16 where "MODEM_CTRL_REG = 4"
definition LINE_STATUS_REG :: u16 where "LINE_STATUS_REG = 5"
definition SCRATCH_REG :: u16 where "SCRATCH_REG = 7"

definition uart_write :: "u16 \<Rightarrow> u16 \<Rightarrow> u8 \<Rightarrow> u32 \<Rightarrow> u8 list \<Rightarrow> (u8 list, unit) rvm_result" where
  "uart_write port_base p sz v out =
     (if sz \<noteq> 1 then Returns (Inl InvalidParam, out)
      else
        obind (wsub p port_base) (\<lambda>r.
        if r = DATA_REG then Returns (Inr (), out @ [ucast v])
        else if r \<in> {INT_EN_REG, FIFO_CTRL_REG, LINE_CTRL_REG, MODEM_CTRL_REG, SCRATCH_REG} then Returns (Inr (), out)
        else if r = LINE_STATUS_REG then Returns (Inr (), out)
        else Panics))"

primrec device_write :: "port_io_device \<Rightarrow> u16 \<Rightarrow> u8 \<Rightarrow> u32 \<Rightarrow> u8 list \<Rightarrow> (u8 list, unit) rvm_result" where
  "device_write (Uart16550 port_base) p sz v out = uart_write port_base p sz v out"
| "device_write (I8259Pic port_base) p sz v out = Returns (Inr (), out)"

section \<open>Handlers of guest exits\<close>

type_synonym 's guest = "vcpu \<times> 's \<times> u8 list"

definition on_guest_cpu :: "('s \<Rightarrow> ('s, 'a) rvm_result) \<Rightarrow> 's guest \<Rightarrow> ('s guest, 'a) rvm_result" where
  "on_guest_cpu f = (\<lambda>(v, s, out). obind (f s) (\<lambda>(r, s). Returns (r, (v, s, out))))"

definition VM_EXIT_INSTR_LEN_CPUID :: u8 where "VM_EXIT_INSTR_LEN_CPUID = 2"
definition VM_EXIT_INSTR_LEN_RDMSR :: u8 where "VM_EXIT_INSTR_LEN_RDMSR = 2"
definition VM_EXIT_INSTR_LEN_WRMSR :: u8 where "VM_EXIT_INSTR_LEN_WRMSR = 2"
definition VM_EXIT_INSTR_LEN_VMCALL :: u8 where "VM_EXIT_INSTR_LEN_VMCALL = 3"

definition handle_external_interrupt :: "('s, 'z) vmx_machine_scheme \<Rightarrow> bit_crate \<Rightarrow> 's guest \<Rightarrow> ('s guest, unit) rvm_result" where
  "handle_external_interrupt M B g =
     rbind (on_guest_cpu (interrupt_exit_info M (get_bits32 B) (get_bit32 B)) g) (\<lambda>int_info g.
     obind (rust_assert (valid int_info)) (\<lambda>_. Returns (Inr (), g)))"

record cpuid_result =
  eax :: u32
  ebx :: u32
  ecx :: u32
  edx :: u32

definition LEAF_FEATURE_INFO :: u32 where "LEAF_FEATURE_INFO = 0x1"
definition LEAF_HYPERVISOR_INFO :: u32 where "LEAF_HYPERVISOR_INFO = 0x40000000"
definition LEAF_HYPERVISOR_FEATURE :: u32 where "LEAF_HYPERVISOR_FEATURE = 0x40000001"
definition FEATURE_VMX :: u32 where "FEATURE_VMX = push_bit 5 1"
definition FEATURE_HYPERVISOR :: u32 where "FEATURE_HYPERVISOR = push_bit 31 1"

definition VENDOR_STR :: "u8 list" where
  "VENDOR_STR = [0x52, 0x56, 0x4d, 0x52, 0x56, 0x4d, 0x52, 0x56, 0x4d, 0x52, 0x56, 0x4d]"

definition vendor_reg :: "nat \<Rightarrow> u32" where
  "vendor_reg i = read_u32 (4 * i) (\<lambda>a. VENDOR_STR ! a)"

definition cpuid_values :: "(u32 \<Rightarrow> u32 \<Rightarrow> cpuid_result) \<Rightarrow> general_registers \<Rightarrow> cpuid_result" where
  "cpuid_values cpuid regs =
     (let f = ucast (rax regs) in
      if f = LEAF_FEATURE_INFO then
        let res = cpuid (ucast (rax regs)) (ucast (rcx regs));
            res = res\<lparr>ecx := ecx res AND NOT FEATURE_VMX\<rparr> in
        res\<lparr>ecx := ecx res OR FEATURE_HYPERVISOR\<rparr>
      else if f = LEAF_HYPERVISOR_INFO then
        \<lparr>eax = LEAF_HYPERVISOR_FEATURE, ebx = vendor_reg 0, ecx = vendor_reg 1, edx = vendor_reg 2\<rparr>
      else if f = LEAF_HYPERVISOR_FEATURE then \<lparr>eax = 0, ebx = 0, ecx = 0, edx = 0\<rparr>
      else cpuid (ucast (rax regs)) (ucast (rcx regs)))"

definition handle_cpuid :: "('s, 'z) vmx_machine_scheme \<Rightarrow> (u32 \<Rightarrow> u32 \<Rightarrow> cpuid_result) \<Rightarrow> 's guest \<Rightarrow> ('s guest, unit) rvm_result" where
  "handle_cpuid M cpuid = (\<lambda>(v, s, out).
     let regs = guest_regs v;
         res = cpuid_values cpuid regs;
         regs = regs\<lparr>rax := ucast (eax res)\<rparr>;
         regs = regs\<lparr>rbx := ucast (ebx res)\<rparr>;
         regs = regs\<lparr>rcx := ucast (ecx res)\<rparr>;
         regs = regs\<lparr>rdx := ucast (edx res)\<rparr> in
     on_guest_cpu (advance_rip M VM_EXIT_INSTR_LEN_CPUID) (v\<lparr>guest_regs := regs\<rparr>, s, out))"

definition handle_hypercall :: "('s, 'z) vmx_machine_scheme \<Rightarrow> 's guest \<Rightarrow> ('s guest, unit) rvm_result" where
  "handle_hypercall M g = on_guest_cpu (advance_rip M VM_EXIT_INSTR_LEN_VMCALL) g"

definition handle_io_in :: "port_io_device \<Rightarrow> vmx_io_exit_info \<Rightarrow> 's guest \<Rightarrow> ('s guest, unit) rvm_result" where
  "handle_io_in dev io_info = (\<lambda>(v, s, out).
     case device_read dev (port io_info) (access_size io_info) of
       Inl e \<Rightarrow> Returns (Inl e, (v, s, out))
     | Inr x \<Rightarrow>
         let old = rax (guest_regs v) in
         obind (if access_size io_info = 1 then Returns (old AND NOT 0xff OR ucast (x AND 0xff))
                else if access_size io_info = 2 then Returns (old AND NOT 0xffff OR ucast (x AND 0xffff))
                else if access_size io_info = 4 then Returns (ucast x)
                else Panics) (\<lambda>new.
         Returns (Inr (), (v\<lparr>guest_regs := (guest_regs v)\<lparr>rax := new\<rparr>\<rparr>, s, out))))"

definition handle_io_out :: "port_io_device \<Rightarrow> vmx_io_exit_info \<Rightarrow> 's guest \<Rightarrow> ('s guest, unit) rvm_result" where
  "handle_io_out dev io_info = (\<lambda>(v, s, out).
     let ax = rax (guest_regs v) in
     obind (if access_size io_info = 1 then Returns (ax AND 0xff)
            else if access_size io_info = 2 then Returns (ax AND 0xffff)
            else if access_size io_info = 4 then Returns ax
            else Panics) (\<lambda>x.
     obind (device_write dev (port io_info) (access_size io_info) (ucast x) out) (\<lambda>(r, out). Returns (r, (v, s, out)))))"

definition handle_io_instruction :: "('s, 'z) vmx_machine_scheme \<Rightarrow> bit_crate \<Rightarrow> vmx_exit_info \<Rightarrow> 's guest \<Rightarrow> ('s guest, unit) rvm_result" where
  "handle_io_instruction M B info g =
     rbind (on_guest_cpu (io_exit_info M (get_bits64 B) (get_bit64 B)) g) (\<lambda>io_info g.
     if is_string io_info then Returns (Inl Unsupported, g)
     else if is_repeat io_info then Returns (Inl Unsupported, g)
     else
       obind (find_port_io_device VIRT_DEVICES (port io_info)) (\<lambda>dev. case dev of
         Some dev \<Rightarrow>
           rbind (if is_in io_info then handle_io_in dev io_info g else handle_io_out dev io_info g) (\<lambda>_ g.
           on_guest_cpu (advance_rip M (ucast (exit_instruction_length info))) g)
       | None \<Rightarrow> Panics))"

definition handle_msr_read :: "('s, 'z) vmx_machine_scheme \<Rightarrow> x86_consts \<Rightarrow> u64 \<Rightarrow> 's guest \<Rightarrow> ('s guest, unit) rvm_result" where
  "handle_msr_read M X now = (\<lambda>(v, s, out).
     let msr = ucast (rcx (guest_regs v)) in
     obind (if msr = IA32_APIC_BASE X
            then Returns (Inr (rdmsr M (IA32_APIC_BASE X) s OR (push_bit 11 1 OR push_bit 10 1)), apic v)
            else if in_msr_range msr then lapic_rdmsr now msr (apic v)
            else Returns (Inl Unsupported, apic v)) (\<lambda>(r, t). case r of
       Inr value \<Rightarrow>
         let regs = guest_regs v;
             regs = regs\<lparr>rax := value AND 0xffffffff\<rparr>;
             regs = regs\<lparr>rdx := drop_bit 32 value\<rparr> in
         on_guest_cpu (advance_rip M VM_EXIT_INSTR_LEN_RDMSR) (v\<lparr>guest_regs := regs, apic := t\<rparr>, s, out)
     | Inl _ \<Rightarrow> Panics))"

definition handle_msr_write :: "('s, 'z) vmx_machine_scheme \<Rightarrow> x86_consts \<Rightarrow> bit_crate \<Rightarrow> u64 \<Rightarrow> 's guest \<Rightarrow> ('s guest, unit) rvm_result" where
  "handle_msr_write M X B now = (\<lambda>(v, s, out).
     let msr = ucast (rcx (guest_regs v));
         value = rax (guest_regs v) AND 0xffffffff OR push_bit 32 (rdx (guest_regs v)) in
     obind (if msr = IA32_APIC_BASE X then Returns (Inr (), apic v)
            else if in_msr_range msr then lapic_wrmsr (get_bits32 B) now msr value (apic v)
            else Returns (Inl Unsupported, apic v)) (\<lambda>(r, t). case r of
       Inl _ \<Rightarrow> Panics
     | Inr _ \<Rightarrow> on_guest_cpu (advance_rip M VM_EXIT_INSTR_LEN_WRMSR) (v\<lparr>apic := t\<rparr>, s, out)))"

definition handle_ept_violation :: "('s, 'z) vmx_machine_scheme \<Rightarrow> bit_crate \<Rightarrow> 's guest \<Rightarrow> ('s guest, unit) rvm_result" where
  "handle_ept_violation M B g = rbind (on_guest_cpu (ept_violation_info M (get_bit64 B)) g) (\<lambda>fault_info g. Panics)"

definition kvm_vmexit_handler :: "('s, 'z) vmx_machine_scheme \<Rightarrow> x86_consts \<Rightarrow> bit_crate \<Rightarrow> (u32 \<Rightarrow> u32 \<Rightarrow> cpuid_result) \<Rightarrow> u64
    \<Rightarrow> 's guest \<Rightarrow> 's guest outcome" where
  "kvm_vmexit_handler M X B cpuid now g =
     obind (on_guest_cpu (vmcs_exit_info M (get_bits32 B) (get_bit32 B)) g) (\<lambda>(r, g). case r of
       Inl _ \<Rightarrow> Panics
     | Inr info \<Rightarrow>
         if entry_failure info then Panics
         else obind (case exit_reason info of
             VmxExitReason.EXTERNAL_INTERRUPT \<Rightarrow> handle_external_interrupt M B g
           | VmxExitReason.INTERRUPT_WINDOW \<Rightarrow> on_guest_cpu (set_interrupt_window M X False) g
           | VmxExitReason.CPUID \<Rightarrow> handle_cpuid M cpuid g
           | VmxExitReason.VMCALL \<Rightarrow> handle_hypercall M g
           | VmxExitReason.IO_INSTRUCTION \<Rightarrow> handle_io_instruction M B info g
           | VmxExitReason.MSR_READ \<Rightarrow> handle_msr_read M X now g
           | VmxExitReason.MSR_WRITE \<Rightarrow> handle_msr_write M X B now g
           | VmxExitReason.EPT_VIOLATION \<Rightarrow> handle_ept_violation M B g
           | _ \<Rightarrow> Panics) (\<lambda>(r, g). case r of Inl _ \<Rightarrow> Panics | Inr _ \<Rightarrow> Returns g))"

section \<open>Skipping an instruction\<close>

context vmx_cpu
begin

lemma advance_rip_spec:
  assumes "ok s" "GuestNW VmcsGuestNW.RIP \<in> supported" "vmcs_read M (GuestNW VmcsGuestNW.RIP) s = Inr rip"
    and "unat rip + unat k < 2 ^ 64"
  shows "\<exists>s'. advance_rip M k s = Returns (Inr (), s') \<and> ok s' \<and>
    vmcs_read M (GuestNW VmcsGuestNW.RIP) s' = Inr (rip + ucast k) \<and>
    (\<forall>g. g \<noteq> GuestNW VmcsGuestNW.RIP \<longrightarrow> vmcs_read M g s' = vmcs_read M g s)"
proof -
  have "unat k < 2 ^ 8" using unsigned_less [of k] by simp
  then have k: "unat (ucast k :: u64) = unat k" by (simp add: unsigned_ucast_eq take_bit_nat_eq_self)
  have add: "wadd rip (ucast k) = Returns (rip + ucast k)" using assms(4) k by (simp add: wadd_def)
  obtain s' where s': "vmx_try M (vmcs_write M (GuestNW VmcsGuestNW.RIP) (rip + ucast k) s) = Returns (Inr (), s')" "ok s'"
    "vmcs_read M (GuestNW VmcsGuestNW.RIP) s' = Inr (take_bit 64 (rip + ucast k))"
    "\<And>g. g \<noteq> GuestNW VmcsGuestNW.RIP \<Longrightarrow> vmcs_read M g s' = vmcs_read M g s"
    by (rule write_ok [OF assms(1,2), of "rip + ucast k"]) auto
  have "advance_rip M k s = Returns (Inr (), s')"
    by (simp add: advance_rip_def read_try_def assms(3) add s'(1))
  then show ?thesis using s' by (auto simp: take_bit_64)
qed

end

lemma bit_clear_set: "bit (w AND NOT (push_bit a 1) OR push_bit b 1) j \<longleftrightarrow> (if j = b then b < 32 else j \<noteq> a \<and> bit (w::u32) j)"
  by (auto simp: bit_or_iff bit_and_iff bit_not_iff bit_exp_iff dest: bit_imp_le_length)

lemma feature_bits: "bit (w AND NOT FEATURE_VMX OR FEATURE_HYPERVISOR) j \<longleftrightarrow> j = 31 \<or> j \<noteq> 5 \<and> bit w j"
  unfolding FEATURE_VMX_def FEATURE_HYPERVISOR_def bit_clear_set by simp

text \<open>C12. What a guest sees of \<open>cpuid\<close>.  The handler answers with the values of the processor except for three
  leaves: leaf 1 never shows VMX and always shows a hypervisor, leaf \<open>0x40000000\<close> names leaf \<open>0x40000001\<close> and spells
  the vendor, and leaf \<open>0x40000001\<close> is empty.  The four result registers are zero-extended, the other registers are
  unchanged, and the guest continues after the two bytes of the instruction with nothing else changed.\<close>

theorem cpuid_virtualised:
  assumes cpu: "vmx_cpu M ok supported" "ok s" "GuestNW VmcsGuestNW.RIP \<in> supported"
    and rip: "vmcs_read M (GuestNW VmcsGuestNW.RIP) s = Inr rip" "unat rip + 2 < 2 ^ 64"
    and host: "cpuid (ucast (rax (guest_regs v))) (ucast (rcx (guest_regs v))) = c"
  shows "\<exists>s' a b c' d. handle_cpuid M cpuid (v, s, out) =
      Returns (Inr (), (v\<lparr>guest_regs := (guest_regs v)\<lparr>rax := ucast a, rbx := ucast b, rcx := ucast c', rdx := ucast d\<rparr>\<rparr>, s', out)) \<and>
    ok s' \<and> vmcs_read M (GuestNW VmcsGuestNW.RIP) s' = Inr (rip + 2) \<and>
    (\<forall>g. g = GuestNW VmcsGuestNW.RIP \<or> vmcs_read M g s' = vmcs_read M g s) \<and>
    (let leaf = ucast (rax (guest_regs v)) :: u32 in
     if leaf = 1 then \<not> bit c' 5 \<and> bit c' 31 \<and> (\<forall>j. j \<in> {5, 31} \<or> bit c' j = bit (ecx c) j) \<and> a = eax c \<and> b = ebx c \<and> d = edx c
     else if leaf = 0x40000000 then a = 0x40000001 \<and> b = 0x524d5652 \<and> c' = 0x56524d56 \<and> d = 0x4d56524d
     else if leaf = 0x40000001 then a = 0 \<and> b = 0 \<and> c' = 0 \<and> d = 0
     else a = eax c \<and> b = ebx c \<and> c' = ecx c \<and> d = edx (c :: cpuid_result))"
proof -
  let ?r = "cpuid_values cpuid (guest_regs v)"
  obtain s' where s': "advance_rip M 2 s = Returns (Inr (), s')" "ok s'"
    "vmcs_read M (GuestNW VmcsGuestNW.RIP) s' = Inr (rip + 2)"
    "\<And>g. g \<noteq> GuestNW VmcsGuestNW.RIP \<Longrightarrow> vmcs_read M g s' = vmcs_read M g s"
    using vmx_cpu.advance_rip_spec [OF cpu rip(1), of 2] rip(2) by auto
  have run: "handle_cpuid M cpuid (v, s, out) = Returns (Inr (), (v\<lparr>guest_regs := (guest_regs v)\<lparr>rax := ucast (eax ?r),
      rbx := ucast (ebx ?r), rcx := ucast (ecx ?r), rdx := ucast (edx ?r)\<rparr>\<rparr>, s', out))"
    by (simp add: handle_cpuid_def Let_def on_guest_cpu_def VM_EXIT_INSTR_LEN_CPUID_def s'(1))
  have vendor: "vendor_reg 0 = 0x524d5652" "vendor_reg 1 = 0x56524d56" "vendor_reg 2 = 0x4d56524d"
    by (simp_all add: vendor_reg_def VENDOR_STR_def read_u32_def)
  have vals: "let leaf = ucast (rax (guest_regs v)) :: u32 in
     if leaf = 1 then \<not> bit (ecx ?r) 5 \<and> bit (ecx ?r) 31 \<and> (\<forall>j. j \<in> {5, 31} \<or> bit (ecx ?r) j = bit (ecx c) j) \<and>
       eax ?r = eax c \<and> ebx ?r = ebx c \<and> edx ?r = edx c
     else if leaf = 0x40000000 then eax ?r = 0x40000001 \<and> ebx ?r = 0x524d5652 \<and> ecx ?r = 0x56524d56 \<and> edx ?r = 0x4d56524d
     else if leaf = 0x40000001 then eax ?r = 0 \<and> ebx ?r = 0 \<and> ecx ?r = 0 \<and> edx ?r = 0
     else eax ?r = eax c \<and> ebx ?r = ebx c \<and> ecx ?r = ecx c \<and> edx ?r = edx c"
    unfolding cpuid_values_def Let_def host LEAF_FEATURE_INFO_def LEAF_HYPERVISOR_INFO_def LEAF_HYPERVISOR_FEATURE_def vendor
    by (auto simp: feature_bits)
  show ?thesis by (rule exI [of _ s'], rule exI [of _ "eax ?r"], rule exI [of _ "ebx ?r"], rule exI [of _ "ecx ?r"],
      rule exI [of _ "edx ?r"]) (use run s' vals in auto)
qed

definition qemu_cpuid :: "u32 \<Rightarrow> u32 \<Rightarrow> cpuid_result" where
  "qemu_cpuid leaf sub = \<lparr>eax = leaf + 5, ebx = 0x756e6547, ecx = 0x7ffafbff, edx = 0x1f8bfbff\<rparr>"

theorem cpuid_virtualised_witness:
  "\<exists>s' a b c' d. handle_cpuid plain_cpu qemu_cpuid (sample_vcpu\<lparr>guest_regs := general_registers_default\<lparr>rax := 1\<rparr>\<rparr>, exit_cpu, [0x41]) =
      Returns (Inr (), (sample_vcpu\<lparr>guest_regs := general_registers_default\<lparr>rax := ucast (a::u32), rbx := ucast (b::u32),
        rcx := ucast (c'::u32), rdx := ucast (d::u32)\<rparr>\<rparr>, s', [0x41])) \<and>
    \<not> bit c' 5 \<and> bit c' 31"
proof -
  let ?v = "sample_vcpu\<lparr>guest_regs := general_registers_default\<lparr>rax := 1\<rparr>\<rparr>"
  have rip: "vmcs_read plain_cpu (GuestNW VmcsGuestNW.RIP) exit_cpu = Inr 0"
    by (simp add: vmcs_read_def plain_cpu_def exit_cpu_def)
  have small: "unat (0::u64) + 2 < 2 ^ 64" by simp
  show ?thesis
    using cpuid_virtualised [where v = ?v and cpuid = qemu_cpuid and out = "[0x41]", OF vmx_cpu_plain TrueI UNIV_I rip small refl]
    by (simp add: Let_def general_registers_default_def) blast
qed

section \<open>Ports\<close>

lemma find_device:
  "find_port_io_device VIRT_DEVICES p = Returns (
     if 0x3f8 \<le> p \<and> p < 0x400 then Some (Uart16550 0x3f8)
     else if p = 0x20 \<or> p = 0x21 then Some (I8259Pic 0x20)
     else if p = 0xA0 \<or> p = 0xA1 then Some (I8259Pic 0xA0)
     else None)"
proof -
  have two: "a \<le> p \<and> p < a + 2 \<longleftrightarrow> p = a \<or> p = a + 1" if "unat a + 2 < 2 ^ 16" for a :: u16
    using that by (auto simp: word_le_nat_alt word_less_nat_alt unat_plus_simple [THEN iffD1] word_unat_eq_iff unat_word_ariths)
  show ?thesis
    using two [of "0x20"] two [of "0xA0"] by (simp add: find_port_io_device_def VIRT_DEVICES_def wadd_def)
qed

text \<open>The ports and sizes of the accesses that a device accepts, and what they add to the serial output.\<close>

definition port_write_ok :: "u16 \<Rightarrow> u8 \<Rightarrow> bool" where
  "port_write_ok p sz \<longleftrightarrow> 0x3f8 \<le> p \<and> p < 0x400 \<and> sz = 1 \<and> p \<noteq> 0x3fe \<or> p \<in> {0x20, 0x21, 0xA0, 0xA1} \<and> sz \<in> {1, 2, 4}"

lemma uart_register: "p - 0x3f8 = r \<longleftrightarrow> p = 0x3f8 + r" for p r :: u16
  by (auto simp: algebra_simps)

lemma uart_ports: "0x3f8 \<le> p \<and> p < 0x400 \<longleftrightarrow> p \<in> {0x3f8, 0x3f9, 0x3fa, 0x3fb, 0x3fc, 0x3fd, 0x3fe, 0x3ff}" for p :: u16
proof -
  have "0x3f8 \<le> n \<and> n < 0x400 \<longleftrightarrow> n \<in> {0x3f8, 0x3f9, 0x3fa, 0x3fb, 0x3fc, 0x3fd, 0x3fe, 0x3ff}" for n :: nat by auto
  from this [of "unat p"] show ?thesis by (simp add: word_le_nat_alt word_less_nat_alt word_unat_eq_iff)
qed

lemma uart_write_data: "uart_write 0x3f8 p 1 x out =
    (if p = 0x3f8 then Returns (Inr (), out @ [ucast x]) else if p = 0x3fe then Panics else Returns (Inr (), out))"
  if "0x3f8 \<le> p" "p < 0x400"
  using that uart_ports [of p]
  by (auto simp: uart_write_def wsub_def uart_register DATA_REG_def INT_EN_REG_def FIFO_CTRL_REG_def LINE_CTRL_REG_def
      MODEM_CTRL_REG_def SCRATCH_REG_def LINE_STATUS_REG_def)

lemma low_byte: "ucast (ucast (w AND 0xff :: u64) :: u32) = (ucast w :: u8)"
proof -
  have "w AND 0xff = take_bit 8 w" by (simp add: take_bit_eq_mask mask_eq_exp_minus_1)
  then show ?thesis by (intro bit_eqI) (auto simp: bit_ucast_iff bit_take_bit_iff dest: bit_imp_le_length)
qed

lemma io_out_accepted:
  assumes "port_write_ok (port io) (access_size io)" "find_port_io_device VIRT_DEVICES (port io) = Returns (Some dev)"
  shows "handle_io_out dev io (v, s, out) =
    Returns (Inr (), (v, s, if port io = 0x3f8 then out @ [ucast (rax (guest_regs v))] else out))"
  using assms unfolding find_device port_write_ok_def
  by (auto simp: handle_io_out_def Let_def uart_write_data low_byte split: if_splits)

lemma io_out_rejected:
  assumes "\<not> port_write_ok (port io) (access_size io)" "find_port_io_device VIRT_DEVICES (port io) = Returns (Some dev)"
  shows "handle_io_out dev io (v, s, out) \<noteq> Returns (Inr (), g)"
  using assms unfolding find_device port_write_ok_def
  by (auto simp: handle_io_out_def Let_def uart_write_data uart_write_def [of _ _ 2] uart_write_def [of _ _ 4] split: if_splits)


text \<open>The byte \<open>0x42\<close> written to the serial port: the qualification of the exit is that of a one-byte \<open>out\<close>.\<close>

definition sample_bits :: bit_crate where
  "sample_bits = \<lparr>get_bit32 = word_get_bit, get_bits32 = word_get_bits, set_bit32 = word_set_bit, set_bits32 = word_set_bits,
     get_bit64 = word_get_bit, get_bits64 = word_get_bits\<rparr>"

definition out_cpu :: plain_cpu_state where
  "out_cpu = \<lparr>cpu_fields = (\<lambda>f. if f = 0x6400 then 0x3f80000 else 0), cpu_msrs = (\<lambda>_. 0)\<rparr>"


section \<open>Switching VMX on and off again\<close>

lemma rbind_Inr_iff: "rbind m f = Returns (Inr y, s') \<longleftrightarrow> (\<exists>x s. m = Returns (Inr x, s) \<and> f x s = Returns (Inr y, s'))"
proof (cases m)
  case (Returns rs)
  then show ?thesis by (cases rs, cases "fst rs") auto
qed simp

lemma set_clear_flag: "w AND push_bit n 1 \<noteq> push_bit n 1 \<Longrightarrow> (w OR push_bit n 1) AND NOT (push_bit n 1) = w" for w :: u64
  by (auto simp: bit_eq_iff [where 'a = "64 word"] bit_or_iff bit_and_iff bit_not_iff bit_exp_iff)

lemma host_drop_none: "host_drop_frame dealloc 0 h = Returns h"
  by (simp add: host_drop_frame_def drop_frame_def)

lemma vmx_region_new_ok:
  assumes "vmx_region_new alloc sbs sb rid shadow h = Returns (Inr frame, h')"
  shows "0 < frame \<and> alloc (vm_hal h) = Returns (Some frame, vm_hal h') \<and> vm_cpu h' = vm_cpu h"
proof (cases "alloc (vm_hal h)")
  case (Returns ra)
  then show ?thesis
    using assms by (cases ra; cases "fst ra"; cases "fst ra = Some 0")
      (auto simp: vmx_region_new_def host_alloc_zero_def host_alloc_def phys_frame_alloc_def rust_assert_def Let_def)
next
  case Panics
  then show ?thesis using assms by (simp add: vmx_region_new_def host_alloc_zero_def host_alloc_def phys_frame_alloc_def)
qed

lemma hardware_enable_ok:
  assumes "hardware_enable M X B feature alloc dealloc (p, w) = Returns (Inr (), (p1, w1))" "vmx_region p = 0"
  obtains s0 h s1 where "vmx_region_new alloc (set_bits32 B) (set_bit32 B) (vmcs_revision_id p1) False ((vmh w)\<lparr>vm_cpu := s0\<rparr>) =
      Returns (Inr (vmx_region p1), h)" "vmxon M (of_nat (vmx_region p1)) s0 = (Inr (), s1)" "\<not> is_enabled X w"
    "w1 = w\<lparr>vmh := h\<lparr>vm_cpu := s1\<rparr>, cr4 := cr4 w OR CR4_VIRTUAL_MACHINE_EXTENSIONS X\<rparr>"
proof -
  let ?ctrl = "feature_control_read M (vm_cpu (vmh w))"
  define s0 where "s0 = (if \<not> flags_contain ?ctrl FC_LOCKED
    then feature_control_write M (?ctrl OR FC_LOCKED OR FC_VMXON_ENABLED_OUTSIDE_SMX) (vm_cpu (vmh w)) else vm_cpu (vmh w))"
  define h0 where "h0 = (vmh w)\<lparr>vm_cpu := s0\<rparr>"
  define r where "r = revision_id (vmx_basic_read M B s0)"
  have "\<not> is_enabled X w" and run: "rbind (on_host (vmx_region_new alloc (set_bits32 B) (set_bit32 B) r False)
      (p\<lparr>vmcs_revision_id := r\<rparr>, w\<lparr>vmh := h0\<rparr>)) (\<lambda>frame pw.
    obind (set_vmx_region dealloc frame pw) (\<lambda>(p, w).
    on_host (on_cpu (\<lambda>s. vmx_try M (vmxon M (of_nat (vmx_region p)) s))) (p, w\<lparr>cr4 := cr4 w OR CR4_VIRTUAL_MACHINE_EXTENSIONS X\<rparr>))) =
    Returns (Inr (), (p1, w1))"
    using assms(1) unfolding hardware_enable_def Let_def prod.case s0_def [symmetric] h0_def [symmetric] r_def [symmetric]
    by (simp_all split: if_splits)
  then obtain frame h where new: "vmx_region_new alloc (set_bits32 B) (set_bit32 B) r False h0 = Returns (Inr frame, h)"
    and on: "on_host (on_cpu (\<lambda>s. vmx_try M (vmxon M (of_nat frame) s)))
      (p\<lparr>vmcs_revision_id := r, vmx_region := frame\<rparr>, w\<lparr>vmh := h, cr4 := cr4 w OR CR4_VIRTUAL_MACHINE_EXTENSIONS X\<rparr>) = Returns (Inr (), (p1, w1))"
    using assms(2) by (auto simp: rbind_Inr_iff on_host_def [of "vmx_region_new alloc (set_bits32 B) (set_bit32 B) r False"]
        set_vmx_region_def host_drop_none obind_Returns_iff)
  then have cpu: "vm_cpu h = s0" using vmx_region_new_ok [OF new] by (simp add: h0_def)
  obtain s1 where "vmxon M (of_nat frame) s0 = (Inr (), s1)"
    "p1 = p\<lparr>vmcs_revision_id := r, vmx_region := frame\<rparr>"
    "w1 = w\<lparr>vmh := h\<lparr>vm_cpu := s1\<rparr>, cr4 := cr4 w OR CR4_VIRTUAL_MACHINE_EXTENSIONS X\<rparr>"
    using on cpu by (cases "vmxon M (of_nat frame) s0") (auto simp: on_host_def on_cpu_def vmx_try_def obind_Returns_iff split: sum.splits)
  then show ?thesis using that [of s0 h s1] new \<open>\<not> is_enabled X w\<close> by (simp add: h0_def)
qed

text \<open>C14. Turning VMX on and off again gives back everything that it took.  When \<open>hardware_enable\<close> succeeds, VMX is
  enabled and the region is a frame that the allocator handed out.  \<open>hardware_disable\<close> then succeeds if the
  instruction does: it frees exactly that frame, CR4 has its old value, VMX is no longer enabled and no region is left,
  so that VMX can be enabled once more.\<close>

theorem vmx_on_off:
  assumes flag: "CR4_VIRTUAL_MACHINE_EXTENSIONS X = 0x2000" and fresh: "vmx_region p = 0"
    and on: "hardware_enable M X B feature alloc dealloc (p, w) = Returns (Inr (), (p1, w1))"
    and off: "vmxoff M (vm_cpu (vmh w1)) = (Inr (), s2)" "dealloc (vmx_region p1) (vm_hal (vmh w1)) = Returns a2"
  shows "is_enabled X w1 \<and> alloc (vm_hal (vmh w)) = Returns (Some (vmx_region p1), vm_hal (vmh w1)) \<and>
    (\<exists>w2. hardware_disable M X dealloc (p1, w1) = Returns (Inr (), (p1\<lparr>vmx_region := 0\<rparr>, w2)) \<and>
      vm_hal (vmh w2) = a2 \<and> vm_cpu (vmh w2) = s2 \<and> cr4 w2 = cr4 w \<and> cr0 w2 = cr0 w \<and> \<not> is_enabled X w2)"
proof -
  obtain s0 h s1 where new: "vmx_region_new alloc (set_bits32 B) (set_bit32 B) (vmcs_revision_id p1) False ((vmh w)\<lparr>vm_cpu := s0\<rparr>) =
      Returns (Inr (vmx_region p1), h)" and off0: "\<not> is_enabled X w"
    and w1: "w1 = w\<lparr>vmh := h\<lparr>vm_cpu := s1\<rparr>, cr4 := cr4 w OR CR4_VIRTUAL_MACHINE_EXTENSIONS X\<rparr>"
    by (rule hardware_enable_ok [OF on fresh])
  note region = vmx_region_new_ok [OF new]
  have 13: "(0x2000::u64) = push_bit 13 1" by simp
  have clear: "(cr4 w OR 0x2000) AND NOT 0x2000 = cr4 w"
    using off0 unfolding is_enabled_def flag flags_contain_def 13 by (rule set_clear_flag)
  have "is_enabled X w1" by (simp add: w1 is_enabled_def flag flags_contain_def bit_eq_iff bit_or_iff bit_and_iff)
  moreover have "hardware_disable M X dealloc (p1, w1) = Returns (Inr (), (p1\<lparr>vmx_region := 0\<rparr>,
      w1\<lparr>vmh := h\<lparr>vm_cpu := s2, vm_hal := a2\<rparr>, cr4 := cr4 w\<rparr>))"
    using \<open>is_enabled X w1\<close> off region
    by (simp add: hardware_disable_def on_host_def on_cpu_def set_vmx_region_def host_drop_frame_def drop_frame_def w1 flag clear [simplified])
  ultimately show ?thesis using region off0 by (auto simp: w1 is_enabled_def)
qed

definition vmx_capable_cpu :: plain_cpu_state where
  "vmx_capable_cpu = \<lparr>cpu_fields = (\<lambda>_. 0), cpu_msrs = (\<lambda>m. if m = 0x480 then 0xd8100000000004 else if m = 0x3a then 0x100000 else 0)\<rparr>"

text \<open>The same processor once its feature control register is locked.\<close>

definition vmx_locked_cpu :: plain_cpu_state where
  "vmx_locked_cpu = \<lparr>cpu_fields = (\<lambda>_. 0), cpu_msrs = (\<lambda>m. if m = 0x480 then 0xd8100000000004 else if m = 0x3a then 0x100005 else 0)\<rparr>"

lemma vmx_capable_cpu_facts:
  "feature_control_read plain_cpu vmx_capable_cpu = 0"
  "feature_control_write plain_cpu 5 vmx_capable_cpu = vmx_locked_cpu" "vmxon plain_cpu a s = (Inr (), s)"
  "vmx_basic_read plain_cpu sample_bits vmx_locked_cpu = \<lparr>revision_id = 4, region_size = 0x1000, is_32bit_address = False,
     mem_type = 6, basic_io_exit_info = True, vmx_flex_controls = True\<rparr>"
  "crx_is_valid v (msr_read plain_cpu Msr.IA32_VMX_CR0_FIXED0 vmx_locked_cpu) (msr_read plain_cpu Msr.IA32_VMX_CR0_FIXED1 vmx_locked_cpu) = (NOT v \<noteq> 0)"
  "crx_is_valid v (msr_read plain_cpu Msr.IA32_VMX_CR4_FIXED0 vmx_locked_cpu) (msr_read plain_cpu Msr.IA32_VMX_CR4_FIXED1 vmx_locked_cpu) = (NOT v \<noteq> 0)"
  by (auto simp: feature_control_read_def feature_control_write_def vmx_basic_read_def msr_read_def msr_write_def plain_cpu_def
      vmx_capable_cpu_def vmx_locked_cpu_def FC_all_def FC_LOCKED_def FC_VMXON_ENABLED_INSIDE_SMX_def FC_VMXON_ENABLED_OUTSIDE_SMX_def
      sample_bits_def word_get_bits_def word_get_bit_def take_bit_eq_mask mask_eq_exp_minus_1 crx_is_valid_def fun_eq_iff)

theorem vmx_on_off_witness:
  "let w = \<lparr>vmh = \<lparr>vm_cpu = vmx_capable_cpu, vm_hal = [0x7000, 0x8000], vm_mem = (\<lambda>_. 1)\<rparr>, cr0 = 0x80000031, cr4 = 0x20\<rparr>;
       alloc = (\<lambda>free. case free of [] \<Rightarrow> Returns (None, []) | f # fs \<Rightarrow> Returns (Some f, fs));
       dealloc = (\<lambda>f free. Returns (f # free)) in
   \<exists>p1 w1 w2. hardware_enable plain_cpu sample_consts sample_bits (Some True) alloc dealloc (percpu_new, w) = Returns (Inr (), (p1, w1)) \<and>
     is_enabled sample_consts w1 \<and> vmx_region p1 = 0x7000 \<and> vmcs_revision_id p1 = 4 \<and>
     hardware_disable plain_cpu sample_consts dealloc (p1, w1) = Returns (Inr (), (p1\<lparr>vmx_region := 0\<rparr>, w2)) \<and>
     vm_hal (vmh w2) = [0x7000, 0x8000] \<and> cr4 w2 = 0x20 \<and> \<not> is_enabled sample_consts w2"
proof -
  let ?w = "\<lparr>vmh = \<lparr>vm_cpu = vmx_capable_cpu, vm_hal = [0x7000, 0x8000], vm_mem = (\<lambda>_. 1)\<rparr>, cr0 = 0x80000031, cr4 = 0x20\<rparr>"
  let ?alloc = "\<lambda>free. case free of [] \<Rightarrow> Returns (None, []) | f # fs \<Rightarrow> Returns (Some f, fs)"
  let ?dealloc = "\<lambda>f free. Returns (f # free)"
  have flag: "CR4_VIRTUAL_MACHINE_EXTENSIONS sample_consts = 0x2000" and fresh: "vmx_region percpu_new = 0"
    by (simp_all add: sample_consts_def percpu_new_def)
  let ?p1 = "\<lparr>vmcs_revision_id = 4, vmx_region = 0x7000\<rparr>"
  obtain w1 where on: "hardware_enable plain_cpu sample_consts sample_bits (Some True) ?alloc ?dealloc (percpu_new, ?w) = Returns (Inr (), (?p1, w1))"
    and w1: "vm_hal (vmh w1) = [0x8000]"
    by (simp add: hardware_enable_def has_hardware_support_def is_enabled_def flag flags_contain_def vmx_capable_cpu_facts Let_def
        on_host_def vmx_region_new_def host_alloc_zero_def host_alloc_def phys_frame_alloc_def rust_assert_def set_vmx_region_def
        host_drop_none percpu_new_def on_cpu_def VMX_MEMORY_TYPE_WRITE_BACK_def FC_LOCKED_def FC_VMXON_ENABLED_OUTSIDE_SMX_def)
  have off: "vmxoff plain_cpu (vm_cpu (vmh w1)) = (Inr (), vm_cpu (vmh w1))" by (simp add: plain_cpu_def)
  show ?thesis
    using vmx_on_off [OF flag fresh on off refl] on w1 by (auto simp: Let_def)
qed

text \<open>When \<open>vmxon\<close> fails, CR4 already has the flag: VMX counts as enabled although it is off, and dropping the state of
  the processor executes \<open>vmxoff\<close> and panics.\<close>

definition vmxon_fails :: "plain_cpu_state vmx_machine" where
  "vmxon_fails = plain_cpu\<lparr>vmxon := (\<lambda>_ s. (Inl VmFailInvalid, s)), vmxoff := (\<lambda>s. (Inl VmFailInvalid, s))\<rparr>"

lemma vmxon_fails_msrs:
  "feature_control_read vmxon_fails = feature_control_read plain_cpu" "feature_control_write vmxon_fails = feature_control_write plain_cpu"
  "vmx_basic_read vmxon_fails = vmx_basic_read plain_cpu" "msr_read vmxon_fails = msr_read plain_cpu"
  by (auto simp: fun_eq_iff feature_control_read_def feature_control_write_def vmx_basic_read_def msr_read_def msr_write_def vmxon_fails_def)

lemma vmxon_failure_leaves_flag:
  "let w = \<lparr>vmh = \<lparr>vm_cpu = vmx_capable_cpu, vm_hal = [0x7000, 0x8000], vm_mem = (\<lambda>_. 1)\<rparr>, cr0 = 0x80000031, cr4 = 0x20\<rparr>;
       alloc = (\<lambda>free. case free of [] \<Rightarrow> Returns (None, []) | f # fs \<Rightarrow> Returns (Some f, fs));
       dealloc = (\<lambda>f free. Returns (f # free)) in
   \<exists>p1 w1. hardware_enable vmxon_fails sample_consts sample_bits (Some True) alloc dealloc (percpu_new, w) = Returns (Inl BadState, (p1, w1)) \<and>
     is_enabled sample_consts w1 \<and> percpu_drop vmxon_fails sample_consts dealloc (p1, w1) = Panics"
proof -
  have flag: "CR4_VIRTUAL_MACHINE_EXTENSIONS sample_consts = 0x2000" by (simp add: sample_consts_def)
  have fail: "vmxon vmxon_fails a s = (Inl VmFailInvalid, s)" "vmxoff vmxon_fails s = (Inl VmFailInvalid, s)" for a s
    by (simp_all add: vmxon_fails_def)
  show ?thesis
    by (simp add: hardware_enable_def has_hardware_support_def is_enabled_def flag flags_contain_def vmx_capable_cpu_facts vmxon_fails_msrs fail
        vmx_try_def rvm_error_from_def Let_def percpu_drop_def hardware_disable_def on_host_def vmx_region_new_def host_alloc_zero_def
        host_alloc_def phys_frame_alloc_def rust_assert_def set_vmx_region_def host_drop_none percpu_new_def on_cpu_def
        VMX_MEMORY_TYPE_WRITE_BACK_def FC_LOCKED_def FC_VMXON_ENABLED_OUTSIDE_SMX_def)
qed

text \<open>The check of the control registers accepts a register that lacks a required bit.\<close>

lemma crx_check_accepts_missing_bit: "crx_is_valid 0 1 (- 1)" by (simp add: crx_is_valid_def)

end
