(* ===== verification/CMem.thy ===== *)
theory CMem
  imports Prelude
begin

text \<open>The memory functions of the C library: the \<open>mem\<close> functions of \<open>relibc/src/header/string/mod.rs\<close> and the
  \<open>b\<close> functions of \<open>relibc/src/header/strings/mod.rs\<close>.

  The memory of the program is the list of its bytes and a pointer is an index into it, so that two arguments may
  overlap.  An access outside the list is an access outside every object of the program and is modelled as a panic.
  A word is read and written as its eight bytes, the lowest first; the processor allows it at every address.  The
  length of an object is below \<open>isize::MAX\<close>, so that adding an offset to a pointer of an object does not wrap.
  \<open>memchr\<close> and \<open>memrchr\<close> of the crate \<open>memchr\<close>, which is not part of the repository, are parameters.

  The lemmas show that the word by word routines compute what the byte by byte ones do: \<open>memcmp\<close> the order of the two
  blocks, \<open>memcpy\<close> and \<open>memmove\<close> the copy of a block.\<close>

section \<open>Bytes and words of memory\<close>

type_synonym memory = "u8 list"

definition load_byte :: "memory \<Rightarrow> nat \<Rightarrow> u8 outcome" where
  "load_byte m p = (if p < length m then Returns (m ! p) else Panics)"

definition store_byte :: "nat \<Rightarrow> u8 \<Rightarrow> memory \<Rightarrow> memory outcome" where
  "store_byte p b m = (if p < length m then Returns (m[p := b]) else Panics)"

definition blit :: "nat \<Rightarrow> u8 list \<Rightarrow> memory \<Rightarrow> memory" where
  "blit p bs m = take p m @ bs @ drop (p + length bs) m"

primrec le_word :: "u8 list \<Rightarrow> u64" where
  "le_word [] = 0"
| "le_word (b # bs) = ucast b OR push_bit 8 (le_word bs)"

definition le_bytes :: "u64 \<Rightarrow> u8 list" where
  "le_bytes w = map (\<lambda>i. ucast (drop_bit (8 * i) w)) [0..<8]"

definition load_word :: "memory \<Rightarrow> nat \<Rightarrow> u64 outcome" where
  "load_word m p = (if p + 8 \<le> length m then Returns (le_word (take 8 (drop p m))) else Panics)"

definition store_word :: "nat \<Rightarrow> u64 \<Rightarrow> memory \<Rightarrow> memory outcome" where
  "store_word p w m = (if p + 8 \<le> length m then Returns (blit p (le_bytes w) m) else Panics)"

section \<open>Comparing\<close>

text \<open>A run of bytes compared until the first that differ, the body of the inner loop on the bytes of a word and of the
  loop on the bytes after the last word.\<close>

primrec compare_bytes :: "nat \<Rightarrow> memory \<Rightarrow> nat \<Rightarrow> nat \<Rightarrow> int option outcome" where
  "compare_bytes 0 m a b = Returns None"
| "compare_bytes (Suc k) m a b =
     obind (load_byte m a) (\<lambda>c. obind (load_byte m b) (\<lambda>d.
     if c \<noteq> d then Returns (Some (uint c - uint d)) else compare_bytes k m (a + 1) (b + 1)))"

primrec compare_words :: "nat \<Rightarrow> memory \<Rightarrow> nat \<Rightarrow> nat \<Rightarrow> int option outcome" where
  "compare_words 0 m a b = Returns None"
| "compare_words (Suc k) m a b =
     obind (load_word m a) (\<lambda>v. obind (load_word m b) (\<lambda>w.
     if v \<noteq> w then obind (compare_bytes 8 m a b) (\<lambda>r. case r of Some c \<Rightarrow> Returns (Some c) | None \<Rightarrow> Panics)
     else compare_words k m (a + 8) (b + 8)))"

definition memcmp :: "memory \<Rightarrow> nat \<Rightarrow> nat \<Rightarrow> nat \<Rightarrow> int outcome" where
  "memcmp m s1 s2 n =
     obind (compare_words (n div 8) m s1 s2) (\<lambda>r. case r of Some c \<Rightarrow> Returns c | None \<Rightarrow>
     obind (compare_bytes (n mod 8) m (s1 + 8 * (n div 8)) (s2 + 8 * (n div 8))) (\<lambda>r.
     case r of Some c \<Rightarrow> Returns c | None \<Rightarrow> Returns 0))"

definition bcmp :: "memory \<Rightarrow> nat \<Rightarrow> nat \<Rightarrow> nat \<Rightarrow> int outcome" where
  "bcmp m a b n = memcmp m a b n"

section \<open>Copying and filling\<close>

function copy_words :: "nat \<Rightarrow> nat \<Rightarrow> nat \<Rightarrow> nat \<Rightarrow> memory \<Rightarrow> (nat \<times> memory) outcome" where
  "copy_words s1 s2 n i m =
     (if i + 7 < n then
        obind (load_word m (s2 + i)) (\<lambda>w. obind (store_word (s1 + i) w m) (copy_words s1 s2 n (i + 8)))
      else Returns (i, m))"
  by pat_completeness auto

termination by (relation "measure (\<lambda>(s1, s2, n, i, m). n - i)") auto

function copy_up :: "nat \<Rightarrow> nat \<Rightarrow> nat \<Rightarrow> nat \<Rightarrow> memory \<Rightarrow> memory outcome" where
  "copy_up s1 s2 n i m =
     (if i < n then obind (load_byte m (s2 + i)) (\<lambda>b. obind (store_byte (s1 + i) b m) (copy_up s1 s2 n (i + 1)))
      else Returns m)"
  by pat_completeness auto

termination by (relation "measure (\<lambda>(s1, s2, n, i, m). n - i)") auto

primrec copy_down :: "nat \<Rightarrow> nat \<Rightarrow> nat \<Rightarrow> memory \<Rightarrow> memory outcome" where
  "copy_down s1 s2 0 m = Returns m"
| "copy_down s1 s2 (Suc i) m = obind (load_byte m (s2 + i)) (\<lambda>b. obind (store_byte (s1 + i) b m) (copy_down s1 s2 i))"

definition memcpy :: "nat \<Rightarrow> nat \<Rightarrow> nat \<Rightarrow> memory \<Rightarrow> (nat \<times> memory) outcome" where
  "memcpy s1 s2 n m = obind (copy_words s1 s2 n 0 m) (\<lambda>(i, m). obind (copy_up s1 s2 n i m) (\<lambda>m. Returns (s1, m)))"

definition memmove :: "nat \<Rightarrow> nat \<Rightarrow> nat \<Rightarrow> memory \<Rightarrow> (nat \<times> memory) outcome" where
  "memmove s1 s2 n m =
     obind (if s2 < s1 then copy_down s1 s2 n m else copy_up s1 s2 n 0 m) (\<lambda>m. Returns (s1, m))"

definition memset :: "nat \<Rightarrow> u32 \<Rightarrow> nat \<Rightarrow> memory \<Rightarrow> (nat \<times> memory) outcome" where
  "memset s c n m = obind (ofold (\<lambda>i. store_byte (s + i) (ucast c)) [0..<n] m) (\<lambda>m. Returns (s, m))"

definition explicit_bzero :: "nat \<Rightarrow> nat \<Rightarrow> memory \<Rightarrow> memory outcome" where
  "explicit_bzero s n m = ofold (\<lambda>i. store_byte (s + i) 0) [0..<n] m"

text \<open>\<open>ptr::copy\<close> and \<open>ptr::write_bytes\<close> of the standard library copy and fill a block at once.\<close>

definition bcopy :: "nat \<Rightarrow> nat \<Rightarrow> nat \<Rightarrow> memory \<Rightarrow> memory outcome" where
  "bcopy src dst n m = (if src + n \<le> length m \<and> dst + n \<le> length m then Returns (blit dst (take n (drop src m)) m) else Panics)"

definition bzero :: "nat \<Rightarrow> nat \<Rightarrow> memory \<Rightarrow> memory outcome" where
  "bzero dst n m = (if dst + n \<le> length m then Returns (blit dst (replicate n 0) m) else Panics)"

section \<open>Searching\<close>

type_synonym byte_search = "u8 \<Rightarrow> u8 list \<Rightarrow> nat option"

text \<open>A search returns a null pointer, \<open>None\<close>, or the pointer to the byte found.\<close>

definition memchr :: "byte_search \<Rightarrow> memory \<Rightarrow> nat \<Rightarrow> u32 \<Rightarrow> nat \<Rightarrow> nat option outcome" where
  "memchr memchr_memchr m haystack needle len =
     (if haystack + len \<le> length m then
        case memchr_memchr (ucast needle) (take len (drop haystack m)) of
          Some index \<Rightarrow> if index \<le> len then Returns (Some (haystack + index)) else Panics
        | None \<Rightarrow> Returns None
      else Panics)"

definition memrchr :: "byte_search \<Rightarrow> memory \<Rightarrow> nat \<Rightarrow> u32 \<Rightarrow> nat \<Rightarrow> nat option outcome" where
  "memrchr memchr_memrchr m haystack needle len =
     (if haystack + len \<le> length m then
        case memchr_memrchr (ucast needle) (take len (drop haystack m)) of
          Some index \<Rightarrow> if index \<le> len then Returns (Some (haystack + index)) else Panics
        | None \<Rightarrow> Returns None
      else Panics)"

definition memccpy :: "byte_search \<Rightarrow> nat \<Rightarrow> nat \<Rightarrow> u32 \<Rightarrow> nat \<Rightarrow> memory \<Rightarrow> (nat option \<times> memory) outcome" where
  "memccpy memchr_memchr dest src c n m =
     obind (memchr memchr_memchr m src c n) (\<lambda>found. case found of None \<Rightarrow> Returns (None, m) | Some to \<Rightarrow>
     let dist = to - src in
     obind (memcpy dest src dist m) (\<lambda>(_, m). Returns (Some (dest + (dist + 1)), m)))"

section \<open>Words are their bytes\<close>

lemma bit_le_word:
  "length bs \<le> 8 \<Longrightarrow> bit (le_word bs) n \<longleftrightarrow> n < 8 * length bs \<and> bit (bs ! (n div 8)) (n mod 8)"
proof (induction bs arbitrary: n)
  case (Cons b bs)
  have small: "n < 64" if "n < 8 * length (b # bs)" using that Cons.prems by simp
  show ?case
  proof (cases "n < 8")
    case True
    then show ?thesis by (simp add: bit_simps)
  next
    case False
    then have n: "n div 8 = Suc ((n - 8) div 8)" "n mod 8 = (n - 8) mod 8" by (simp_all add: le_div_geq le_mod_geq)
    have "bit (le_word (b # bs)) n \<longleftrightarrow> n < 64 \<and> bit (le_word bs) (n - 8)"
      using False by (auto simp: bit_simps dest: bit_imp_le_length)
    also have "\<dots> \<longleftrightarrow> n < 64 \<and> n - 8 < 8 * length bs \<and> bit (bs ! ((n - 8) div 8)) ((n - 8) mod 8)" using Cons by simp
    also have "\<dots> \<longleftrightarrow> n < 8 * length (b # bs) \<and> bit ((b # bs) ! (n div 8)) (n mod 8)"
      using small False unfolding n by auto
    finally show ?thesis .
  qed
qed simp

lemma le_bytes_le_word: "length bs = 8 \<Longrightarrow> le_bytes (le_word bs) = bs"
proof (rule nth_equalityI)
  fix i assume bs: "length bs = 8" and "i < length (le_bytes (le_word bs))"
  then have i: "i < 8" by (simp add: le_bytes_def)
  have "bit (le_bytes (le_word bs) ! i) k \<longleftrightarrow> bit (bs ! i) k" if "k < 8" for k
    using i that bs by (simp add: le_bytes_def bit_simps bit_le_word)
  then show "le_bytes (le_word bs) ! i = bs ! i" by (intro bit_word_eqI) simp
qed (simp add: le_bytes_def)

lemma le_word_inj: "length bs = 8 \<Longrightarrow> length cs = 8 \<Longrightarrow> le_word bs = le_word cs \<longleftrightarrow> bs = cs"
  by (metis le_bytes_le_word)

lemma length_blit [simp]: "p + length bs \<le> length m \<Longrightarrow> length (blit p bs m) = length m" by (simp add: blit_def)

lemma nth_blit: "p + length bs \<le> length m \<Longrightarrow> i < length m \<Longrightarrow>
    blit p bs m ! i = (if p \<le> i \<and> i < p + length bs then bs ! (i - p) else m ! i)"
  by (auto simp: blit_def nth_append min_def)

lemma blit_Nil [simp]: "blit p [] m = m" by (simp add: blit_def)

lemma store_byte_blit: "store_byte p b m = (if p < length m then Returns (blit p [b] m) else Panics)"
  by (simp add: store_byte_def blit_def upd_conv_take_nth_drop)

section \<open>The order of two blocks\<close>

text \<open>The difference of the first two bytes that differ, and 0 for equal blocks.\<close>

fun lex_diff :: "u8 list \<Rightarrow> u8 list \<Rightarrow> int" where
  "lex_diff (x # xs) (y # ys) = (if x \<noteq> y then uint x - uint y else lex_diff xs ys)"
| "lex_diff _ _ = 0"

lemma lex_diff_0: "length xs = length ys \<Longrightarrow> lex_diff xs ys = 0 \<longleftrightarrow> xs = ys"
  by (induction xs ys rule: lex_diff.induct) (auto simp: word_uint_eq_iff)

lemma lex_diff_less: "length xs = length ys \<Longrightarrow> lex_diff xs ys < 0 \<longleftrightarrow> (xs, ys) \<in> lexord {(x, y). x < y}"
  by (induction xs ys rule: lex_diff.induct) (auto simp: word_less_def)

lemma lex_diff_append: "length xs = length ys \<Longrightarrow>
    lex_diff (xs @ xs') (ys @ ys') = (if xs = ys then lex_diff xs' ys' else lex_diff xs ys)"
  by (induction xs ys rule: lex_diff.induct) auto

lemma compare_bytes_run: "a + k \<le> length m \<Longrightarrow> b + k \<le> length m \<Longrightarrow> compare_bytes k m a b =
    Returns (if take k (drop a m) = take k (drop b m) then None else Some (lex_diff (take k (drop a m)) (take k (drop b m))))"
proof (induction k arbitrary: a b)
  case (Suc k)
  then have "drop a m = m ! a # drop (Suc a) m" "drop b m = m ! b # drop (Suc b) m" by (simp_all add: Cons_nth_drop_Suc)
  with Suc show ?case by (simp add: load_byte_def)
qed simp

lemma compare_words_run: "a + 8 * k \<le> length m \<Longrightarrow> b + 8 * k \<le> length m \<Longrightarrow> compare_words k m a b =
    Returns (if take (8 * k) (drop a m) = take (8 * k) (drop b m) then None
      else Some (lex_diff (take (8 * k) (drop a m)) (take (8 * k) (drop b m))))"
proof (induction k arbitrary: a b)
  case (Suc k)
  let ?blk = "\<lambda>p. take 8 (drop p m)"
  have split: "take (8 * Suc k) (drop p m) = ?blk p @ take (8 * k) (drop (p + 8) m)" for p
    using take_add [of 8 "8 * k" "drop p m"] by (simp add: add.commute)
  have len: "length (?blk a) = 8" "length (?blk b) = 8" using Suc.prems by auto
  have fit: "a + 8 \<le> length m" "b + 8 \<le> length m" "a + 8 + 8 * k \<le> length m" "b + 8 + 8 * k \<le> length m" using Suc.prems by auto
  have "compare_words (Suc k) m a b = (if ?blk a \<noteq> ?blk b then Returns (Some (lex_diff (?blk a) (?blk b)))
      else compare_words k m (a + 8) (b + 8))"
    using fit(1,2) le_word_inj [OF len] by (simp add: load_word_def compare_bytes_run [OF fit(1,2)])
  moreover have "lex_diff (?blk a @ xs) (?blk b @ ys) = (if ?blk a = ?blk b then lex_diff xs ys else lex_diff (?blk a) (?blk b))" for xs ys
    by (rule lex_diff_append) (use len in simp)
  ultimately show ?case unfolding split Suc.IH [OF fit(3,4)] using len by (cases "?blk a = ?blk b") (simp_all only: append_eq_append_conv if_True if_False not_False_eq_True not_True_eq_False simp_thms)
qed simp

lemma memcmp_run:
  assumes "s1 + n \<le> length m" "s2 + n \<le> length m"
  shows "memcmp m s1 s2 n = Returns (lex_diff (take n (drop s1 m)) (take n (drop s2 m)))"
proof -
  let ?k = "8 * (n div 8)"
  have n: "n = ?k + n mod 8" by simp
  have split: "take n (drop p m) = take ?k (drop p m) @ take (n mod 8) (drop (p + ?k) m)" for p
    by (subst n, subst take_add) (simp add: add.commute)
  have bounds: "s1 + ?k \<le> length m" "s2 + ?k \<le> length m" "s1 + ?k + n mod 8 \<le> length m" "s2 + ?k + n mod 8 \<le> length m"
    using assms n by linarith+
  have len: "length (take ?k (drop s1 m)) = length (take ?k (drop s2 m))" using bounds by simp
  show ?thesis using bounds unfolding split lex_diff_append [OF len] memcmp_def
    by (auto simp: compare_words_run compare_bytes_run lex_diff_0)
qed

text \<open>C28. Comparing two blocks word by word, with a byte by byte search inside the first pair of words that differ, is
  comparing them byte by byte from the start: the result is 0 for equal blocks only, negative when the first block comes
  first in the lexicographic order of unsigned bytes, and the \<open>unreachable!\<close> after the search is never reached.\<close>

theorem memcmp_lexicographic:
  assumes "s1 + n \<le> length m" "s2 + n \<le> length m"
  shows "memcmp m s1 s2 n = obind (compare_bytes n m s1 s2) (\<lambda>r. Returns (case r of None \<Rightarrow> 0 | Some c \<Rightarrow> c)) \<and>
    (\<exists>c. memcmp m s1 s2 n = Returns c \<and> (c = 0 \<longleftrightarrow> take n (drop s1 m) = take n (drop s2 m)) \<and>
      (c < 0 \<longleftrightarrow> (take n (drop s1 m), take n (drop s2 m)) \<in> lexord {(x, y). x < y}))"
proof -
  have "length (take n (drop s1 m)) = length (take n (drop s2 m))" using assms by simp
  then show ?thesis using assms by (simp add: memcmp_run compare_bytes_run lex_diff_0 lex_diff_less)
qed

theorem memcmp_lexicographic_witness:
  "memcmp [1, 2, 3, 4, 5, 6, 7, 8, 9, 200, 1, 2, 3, 4, 5, 6, 7, 8, 9, 100] 0 10 10 = Returns 100"
proof -
  let ?m = "[1, 2, 3, 4, 5, 6, 7, 8, 9, 200, 1, 2, 3, 4, 5, 6, 7, 8, 9, 100] :: memory"
  have bytes: "compare_bytes 10 ?m 0 10 = Returns (Some 100)" by code_simp
  have "10 \<le> length ?m" "10 + 10 \<le> length ?m" by simp_all
  then have "memcmp ?m 0 10 10 = obind (compare_bytes 10 ?m 0 10) (\<lambda>r. Returns (case r of None \<Rightarrow> 0 | Some c \<Rightarrow> c))"
    by (intro conjunct1 [OF memcmp_lexicographic]) (simp_all only: add_0)
  then show ?thesis unfolding bytes by (simp only: obind.simps option.case)
qed

section \<open>The copy of a block\<close>

lemma blit_extend:
  assumes "d + k + j \<le> length m" "s + k + j \<le> length m"
  shows "blit (d + k) (take j (drop (s + k) m)) (blit d (take k (drop s m)) m) = blit d (take (k + j) (drop s m)) m"
  by (rule nth_equalityI) (use assms in \<open>auto simp: nth_blit\<close>)

text \<open>Copying upwards reads each byte before it is overwritten when the destination does not start inside the source.\<close>

lemma source_unchanged:
  assumes "d + k + j \<le> length m" "s + k + j \<le> length m" "d \<le> s \<or> s + k + j \<le> d"
  shows "take j (drop (s + k) (blit d (take k (drop s m)) m)) = take j (drop (s + k) m)"
  by (rule nth_equalityI) (use assms in \<open>auto simp: nth_blit\<close>)

lemma copy_up_run:
  assumes "d + n \<le> length m" "s + n \<le> length m" "d \<le> s \<or> s + n \<le> d" "k \<le> n"
  shows "copy_up d s n k (blit d (take k (drop s m)) m) = Returns (blit d (take n (drop s m)) m)"
  using assms(4)
proof (induction "n - k" arbitrary: k)
  case (Suc x)
  then have k: "k < n" "Suc k \<le> n" "x = n - Suc k" by auto
  have "take 1 (drop (s + k) (blit d (take k (drop s m)) m)) = take 1 (drop (s + k) m)"
    by (rule source_unchanged) (use assms k in auto)
  then have "blit d (take k (drop s m)) m ! (s + k) = m ! (s + k)" using assms k by (simp add: take_Suc_conv_app_nth hd_drop_conv_nth)
  moreover have "[m ! (s + k)] = take 1 (drop (s + k) m)" using assms k by (simp add: take_Suc_conv_app_nth hd_drop_conv_nth)
  ultimately have "copy_up d s n k (blit d (take k (drop s m)) m) = copy_up d s n (k + 1) (blit d (take (k + 1) (drop s m)) m)"
    using assms k blit_extend [of d k 1 m s] by (subst copy_up.simps) (simp add: load_byte_def store_byte_blit)
  then show ?case using Suc.hyps(1) [of "Suc k"] k by simp
qed (simp add: le_antisym)

lemma copy_words_run:
  assumes "d + n \<le> length m" "s + n \<le> length m" "d \<le> s \<or> s + n \<le> d" "k \<le> n"
  shows "\<exists>i\<le>n. copy_words d s n k (blit d (take k (drop s m)) m) = Returns (i, blit d (take i (drop s m)) m)"
  using assms(4)
proof (induction "n - k" arbitrary: k rule: less_induct)
  case less
  show ?case
  proof (cases "k + 7 < n")
    case True
    have same: "take 8 (drop (s + k) (blit d (take k (drop s m)) m)) = take 8 (drop (s + k) m)"
      by (rule source_unchanged) (use assms True in auto)
    have "length (take 8 (drop (s + k) m)) = 8" using assms True by simp
    then have "copy_words d s n k (blit d (take k (drop s m)) m) = copy_words d s n (k + 8) (blit d (take (k + 8) (drop s m)) m)"
      using True assms blit_extend [of d k 8 m s] le_bytes_le_word same
      by (subst copy_words.simps) (simp add: load_word_def store_word_def)
    then show ?thesis using less.hyps [of "k + 8"] True by simp
  next
    case False
    then show ?thesis using less.prems by (subst copy_words.simps) auto
  qed
qed

lemma memcpy_run:
  assumes "d + n \<le> length m" "s + n \<le> length m" "d \<le> s \<or> s + n \<le> d"
  shows "memcpy d s n m = Returns (d, blit d (take n (drop s m)) m)"
proof -
  obtain i where "i \<le> n" "copy_words d s n 0 m = Returns (i, blit d (take i (drop s m)) m)"
    using copy_words_run [OF assms, of 0] by auto
  then show ?thesis using copy_up_run [OF assms, of i] by (simp add: memcpy_def)
qed

lemma copy_down_run:
  assumes "d + n \<le> length m" "s + n \<le> length m" "s < d" "k \<le> n"
  shows "copy_down d s k (blit (d + k) (drop k (take n (drop s m))) m) = Returns (blit d (take n (drop s m)) m)"
  using assms(4)
proof (induction k)
  case (Suc k)
  have len: "d + Suc k + length (drop (Suc k) (take n (drop s m))) \<le> length m" using assms Suc.prems by auto
  have byte: "blit (d + Suc k) (drop (Suc k) (take n (drop s m))) m ! (s + k) = m ! (s + k)" using assms Suc.prems len by (simp add: nth_blit)
  have "blit (d + k) [m ! (s + k)] (blit (d + Suc k) (drop (Suc k) (take n (drop s m))) m) = blit (d + k) (drop k (take n (drop s m))) m"
    by (rule nth_equalityI) (use assms Suc.prems in \<open>auto simp: nth_blit intro!: arg_cong [where f = "(!) m"]\<close>)
  then show ?case using Suc assms byte len by (simp add: load_byte_def store_byte_blit)
qed simp

lemma memmove_run:
  assumes "d + n \<le> length m" "s + n \<le> length m"
  shows "memmove d s n m = Returns (d, blit d (take n (drop s m)) m)"
  using assms copy_up_run [OF assms, of 0] copy_down_run [OF assms, of n] by (auto simp: memmove_def)

lemma fill_run: "s + n \<le> length m \<Longrightarrow> ofold (\<lambda>i. store_byte (s + i) b) [0..<n] m = Returns (blit s (replicate n b) m)"
proof (induction n)
  case (Suc n)
  have "blit (s + n) [b] (blit s (replicate n b) m) = blit s (replicate (Suc n) b) m"
    by (rule nth_equalityI) (use Suc.prems in \<open>auto simp: nth_blit nth_Cons' nth_append\<close>)
  then show ?case using Suc by (simp add: ofold_append store_byte_blit)
qed simp

lemma memset_run: "s + n \<le> length m \<Longrightarrow> memset s c n m = Returns (s, blit s (replicate n (ucast c)) m)"
  by (simp add: memset_def fill_run)

lemma bzero_is_memset: "s + n \<le> length m \<Longrightarrow> bzero s n m = explicit_bzero s n m"
  by (simp add: bzero_def explicit_bzero_def fill_run)

text \<open>C35. The copying routines compute the copy of the block for every length.  \<open>memmove\<close> does so for blocks that
  overlap in either direction.  \<open>memcpy\<close>, which copies words as long as it can, does so for blocks that do not overlap
  and also when the destination is below the source; there the two are equal.\<close>

theorem memmove_memcpy_copy:
  assumes "d + n \<le> length m" "s + n \<le> length m"
  shows "memmove d s n m = Returns (d, blit d (take n (drop s m)) m) \<and>
    (d \<le> s \<or> s + n \<le> d \<longrightarrow> memcpy d s n m = memmove d s n m) \<and>
    take n (drop d (blit d (take n (drop s m)) m)) = take n (drop s m) \<and>
    (\<forall>i. i < d \<or> d + n \<le> i \<longrightarrow> i < length m \<longrightarrow> blit d (take n (drop s m)) m ! i = m ! i)"
proof -
  have "take n (drop d (blit d (take n (drop s m)) m)) = take n (drop s m)"
    by (rule nth_equalityI) (use assms in \<open>auto simp: nth_blit\<close>)
  then show ?thesis using assms by (auto simp: memmove_run memcpy_run nth_blit)
qed

theorem memmove_memcpy_copy_witness:
  "memmove 1 0 3 [1, 2, 3, 4] = Returns (1, [1, 1, 2, 3]) \<and> memcpy 0 1 3 [1, 2, 3, 4] = memmove 0 1 3 [1, 2, 3, 4]"
  using memmove_memcpy_copy [of 1 3 "[1, 2, 3, 4]" 0] memmove_memcpy_copy [of 0 3 "[1, 2, 3, 4]" 1] by (simp add: blit_def)

text \<open>Copying up to a byte leaves that byte out: only the bytes before it are copied, although the pointer returned is
  the one after it.\<close>

lemma memccpy_drops_byte:
  assumes "memchr_memchr (ucast c) (take n (drop src m)) = Some k" "k < n"
    and "src + n \<le> length m" "dest + n \<le> length m" "src + n \<le> dest \<or> dest + n \<le> src"
  shows "memccpy memchr_memchr dest src c n m = Returns (Some (dest + (k + 1)), blit dest (take k (drop src m)) m)"
proof -
  have "memcpy dest src k m = Returns (dest, blit dest (take k (drop src m)) m)" by (rule memcpy_run) (use assms in auto)
  then show ?thesis using assms by (simp add: memccpy_def memchr_def)
qed

end
