(* ===== verification/CString.thy ===== *)
theory CString
  imports CMem
begin

text \<open>The string functions of the C library: the \<open>str\<close> functions of \<open>relibc/src/header/string/mod.rs\<close>, the iterators of
  \<open>relibc/src/iter.rs\<close> they use, and \<open>alphasort\<close> of \<open>relibc/src/header/dirent/mod.rs\<close>.

  \<open>c_str m p\<close> is the string at a pointer: the bytes up to the first zero byte, if there is one before the end of the
  memory.  The lemmas give the result of each function in terms of the strings of its arguments, also for overlapping
  arguments.  Each loop ends, because it stops at the zero byte or leaves the memory.  The set of bytes of the crate
  \<open>cbitset\<close>, which is not part of the repository, is a parameter with its contract as a locale.\<close>

section \<open>Iterating over a string\<close>

definition nul_next :: "memory \<Rightarrow> nat \<Rightarrow> (u8 \<times> nat) option outcome" where
  "nul_next m p = obind (load_byte m p) (\<lambda>b. Returns (if b = 0 then None else Some (b, p + 1)))"

lemma nul_next_step: "nul_next m p = Returns (Some (b, q)) \<Longrightarrow> p < length m \<and> q = Suc p"
  by (auto simp: nul_next_def load_byte_def split: if_splits)

function strlen :: "memory \<Rightarrow> nat \<Rightarrow> nat outcome" where
  "strlen m s = obind (nul_next m s) (\<lambda>r. case r of None \<Rightarrow> Returns 0 | Some (_, s) \<Rightarrow> omap Suc (strlen m s))"
  by pat_completeness auto

termination by (relation "measure (\<lambda>(m, s). length m - s)") (auto dest!: nul_next_step)

fun strnlen :: "memory \<Rightarrow> nat \<Rightarrow> nat \<Rightarrow> nat outcome" where
  "strnlen m s n =
     (if n = 0 then Returns 0
      else obind (nul_next m s) (\<lambda>r. case r of None \<Rightarrow> Returns 0 | Some (_, s) \<Rightarrow> omap Suc (strnlen m s (n - 1))))"

definition strnlen_s :: "memory \<Rightarrow> nat option \<Rightarrow> nat \<Rightarrow> nat outcome" where
  "strnlen_s m s n = (case s of None \<Rightarrow> Returns 0 | Some s \<Rightarrow> strnlen m s n)"

section \<open>Searching a byte\<close>

function strchr_from :: "memory \<Rightarrow> nat \<Rightarrow> u8 \<Rightarrow> nat option outcome" where
  "strchr_from m s c =
     obind (load_byte m s) (\<lambda>b. if b = 0 then Returns None else if b = c then Returns (Some s) else strchr_from m (s + 1) c)"
  by pat_completeness auto

termination by (relation "measure (\<lambda>(m, s, c). length m - s)") (auto simp: load_byte_def split: if_splits)

definition strchr :: "memory \<Rightarrow> nat \<Rightarrow> u32 \<Rightarrow> nat option outcome" where
  "strchr m s c = strchr_from m s (ucast c)"

text \<open>The loop of \<open>strrchr\<close> counts \<open>i\<close> down from the last byte; here from the number of bytes that are left.\<close>

primrec strrchr_from :: "memory \<Rightarrow> nat \<Rightarrow> u8 \<Rightarrow> nat \<Rightarrow> nat option outcome" where
  "strrchr_from m s c 0 = Returns None"
| "strrchr_from m s c (Suc i) =
     obind (load_byte m (s + i)) (\<lambda>b. if b = c then Returns (Some (s + i)) else strrchr_from m s c i)"

definition strrchr :: "memory \<Rightarrow> nat \<Rightarrow> u32 \<Rightarrow> nat option outcome" where
  "strrchr m s c = obind (strlen m s) (\<lambda>len. strrchr_from m s (ucast c) len)"

section \<open>Comparing\<close>

fun strncmp :: "memory \<Rightarrow> nat \<Rightarrow> nat \<Rightarrow> nat \<Rightarrow> int outcome" where
  "strncmp m s1 s2 n =
     (if n = 0 then Returns 0
      else obind (load_byte m s1) (\<lambda>a. obind (load_byte m s2) (\<lambda>b.
        let val = uint a - uint b in
        if a \<noteq> b \<or> a = 0 then Returns val else strncmp m (s1 + 1) (s2 + 1) (n - 1))))"

definition strcmp :: "memory \<Rightarrow> nat \<Rightarrow> nat \<Rightarrow> int outcome" where
  "strcmp m s1 s2 = strncmp m s1 s2 usize_max"

definition strcoll :: "memory \<Rightarrow> nat \<Rightarrow> nat \<Rightarrow> int outcome" where
  "strcoll m s1 s2 = strcmp m s1 s2"

section \<open>Copying\<close>

function strcpy_loop :: "nat \<Rightarrow> nat \<Rightarrow> memory \<Rightarrow> memory outcome" where
  "strcpy_loop dst src m =
     obind (nul_next m src) (\<lambda>r. case r of
       None \<Rightarrow> store_byte dst 0 m
     | Some (b, src) \<Rightarrow> obind (store_byte dst b m) (strcpy_loop (dst + 1) src))"
  by pat_completeness auto

termination
  by (relation "measure (\<lambda>(dst, src, m). length m - src)") (auto dest!: nul_next_step simp: store_byte_def split: if_splits)

definition strcpy :: "nat \<Rightarrow> nat \<Rightarrow> memory \<Rightarrow> (nat \<times> memory) outcome" where
  "strcpy dst src m = obind (strcpy_loop dst src m) (\<lambda>m. Returns (dst, m))"

text \<open>The loop that \<open>strncpy\<close> and \<open>strlcpy\<close> start with.  It reads the byte of the source before it compares the index
  with the size.\<close>

function copy_until :: "nat \<Rightarrow> nat \<Rightarrow> nat \<Rightarrow> nat \<Rightarrow> memory \<Rightarrow> (nat \<times> memory) outcome" where
  "copy_until dst src n i m =
     obind (load_byte m (src + i)) (\<lambda>b.
     if b \<noteq> 0 \<and> i < n then obind (store_byte (dst + i) b m) (copy_until dst src n (i + 1)) else Returns (i, m))"
  by pat_completeness auto

termination by (relation "measure (\<lambda>(dst, src, n, i, m). n - i)") auto

definition strncpy :: "nat \<Rightarrow> nat \<Rightarrow> nat \<Rightarrow> memory \<Rightarrow> (nat \<times> memory) outcome" where
  "strncpy dst src n m =
     obind (copy_until dst src n 0 m) (\<lambda>(i, m).
     obind (ofold (\<lambda>i. store_byte (dst + i) 0) [i..<n] m) (\<lambda>m. Returns (dst, m)))"

definition strlcpy :: "nat \<Rightarrow> nat \<Rightarrow> nat \<Rightarrow> memory \<Rightarrow> (nat \<times> memory) outcome" where
  "strlcpy dst src n m =
     obind (copy_until dst src n 0 m) (\<lambda>(i, m). obind (store_byte (dst + i) 0 m) (\<lambda>m. Returns (i, m)))"

definition strlcat :: "nat \<Rightarrow> nat \<Rightarrow> nat \<Rightarrow> memory \<Rightarrow> (nat \<times> memory) outcome" where
  "strlcat dst src n m = obind (strlen m dst) (\<lambda>len. strlcpy (dst + len) src n m)"

function strncat_loop :: "nat \<Rightarrow> nat \<Rightarrow> nat \<Rightarrow> nat \<Rightarrow> nat \<Rightarrow> memory \<Rightarrow> (nat \<times> memory) outcome" where
  "strncat_loop s1 len s2 n i m =
     (if i < n then
        obind (load_byte m (s2 + i)) (\<lambda>b.
        if b = 0 then Returns (i, m)
        else obind (store_byte (s1 + (len + i)) b m) (strncat_loop s1 len s2 n (i + 1)))
      else Returns (i, m))"
  by pat_completeness auto

termination by (relation "measure (\<lambda>(s1, len, s2, n, i, m). n - i)") auto

definition strncat :: "nat \<Rightarrow> nat \<Rightarrow> nat \<Rightarrow> memory \<Rightarrow> (nat \<times> memory) outcome" where
  "strncat s1 s2 n m =
     obind (strlen m s1) (\<lambda>len.
     obind (strncat_loop s1 len s2 n 0 m) (\<lambda>(i, m).
     obind (store_byte (s1 + (len + i)) 0 m) (\<lambda>m. Returns (s1, m))))"

definition strcat :: "nat \<Rightarrow> nat \<Rightarrow> memory \<Rightarrow> (nat \<times> memory) outcome" where
  "strcat s1 s2 m = strncat s1 s2 usize_max m"

definition strxfrm :: "nat \<Rightarrow> nat \<Rightarrow> nat \<Rightarrow> memory \<Rightarrow> (nat \<times> memory) outcome" where
  "strxfrm s1 s2 n m =
     obind (strlen m s2) (\<lambda>len.
     obind (if len < n then omap snd (strcpy s1 s2 m) else Returns m) (\<lambda>m. Returns (len, m)))"

text \<open>\<open>strndup\<close> asks the allocator for a buffer and sets \<open>errno\<close> when there is none.\<close>

definition ENOMEM :: int where "ENOMEM = 12"

definition strndup :: "(nat \<Rightarrow> nat option) \<Rightarrow> nat \<Rightarrow> nat \<Rightarrow> int \<times> memory \<Rightarrow> (nat option \<times> int \<times> memory) outcome" where
  "strndup platform_alloc s1 n = (\<lambda>(errno, m).
     obind (strnlen m s1 n) (\<lambda>len.
     case platform_alloc (len + 1) of
       None \<Rightarrow> Returns (None, ENOMEM, m)
     | Some buffer \<Rightarrow>
         obind (ofold (\<lambda>i m. obind (load_byte m (s1 + i)) (\<lambda>b. store_byte (buffer + i) b m)) [0..<len] m) (\<lambda>m.
         obind (store_byte (buffer + len) 0 m) (\<lambda>m. Returns (Some buffer, errno, m)))))"

definition strdup :: "(nat \<Rightarrow> nat option) \<Rightarrow> nat \<Rightarrow> int \<times> memory \<Rightarrow> (nat option \<times> int \<times> memory) outcome" where
  "strdup platform_alloc s1 st = strndup platform_alloc s1 usize_max st"

section \<open>Spans, substrings and tokens\<close>

text \<open>The operations of \<open>BitSet256\<close> of the crate \<open>cbitset\<close> and their contract.\<close>

record 'b byte_set =
  bs_new :: 'b
  bs_insert :: "nat \<Rightarrow> 'b \<Rightarrow> 'b"
  bs_contains :: "'b \<Rightarrow> nat \<Rightarrow> bool"

locale bitset256 =
  fixes B :: "'b byte_set"
  assumes contains_new: "k < 256 \<Longrightarrow> \<not> bs_contains B (bs_new B) k"
    and contains_insert: "j < 256 \<Longrightarrow> k < 256 \<Longrightarrow> bs_contains B (bs_insert B j s) k \<longleftrightarrow> j = k \<or> bs_contains B s k"

function collect_bytes :: "'b byte_set \<Rightarrow> memory \<Rightarrow> nat \<Rightarrow> 'b \<Rightarrow> 'b outcome" where
  "collect_bytes B m s2 bset =
     obind (load_byte m s2) (\<lambda>b. if b = 0 then Returns bset else collect_bytes B m (s2 + 1) (bs_insert B (unat b) bset))"
  by pat_completeness auto

termination by (relation "measure (\<lambda>(B, m, s2, bset). length m - s2)") (auto simp: load_byte_def split: if_splits)

function span_bytes :: "'b byte_set \<Rightarrow> memory \<Rightarrow> nat \<Rightarrow> 'b \<Rightarrow> bool \<Rightarrow> nat outcome" where
  "span_bytes B m s1 bset cmp =
     obind (load_byte m s1) (\<lambda>b.
     if b = 0 \<or> bs_contains B bset (unat b) \<noteq> cmp then Returns 0 else omap Suc (span_bytes B m (s1 + 1) bset cmp))"
  by pat_completeness auto

termination by (relation "measure (\<lambda>(B, m, s1, bset, cmp). length m - s1)") (auto simp: load_byte_def split: if_splits)

definition inner_strspn :: "'b byte_set \<Rightarrow> memory \<Rightarrow> nat \<Rightarrow> nat \<Rightarrow> bool \<Rightarrow> nat outcome" where
  "inner_strspn B m s1 s2 cmp = obind (collect_bytes B m s2 (bs_new B)) (\<lambda>bset. span_bytes B m s1 bset cmp)"

definition strspn :: "'b byte_set \<Rightarrow> memory \<Rightarrow> nat \<Rightarrow> nat \<Rightarrow> nat outcome" where
  "strspn B m s1 s2 = inner_strspn B m s1 s2 True"

definition strcspn :: "'b byte_set \<Rightarrow> memory \<Rightarrow> nat \<Rightarrow> nat \<Rightarrow> nat outcome" where
  "strcspn B m s1 s2 = inner_strspn B m s1 s2 False"

definition strpbrk :: "'b byte_set \<Rightarrow> memory \<Rightarrow> nat \<Rightarrow> nat \<Rightarrow> nat option outcome" where
  "strpbrk B m s1 s2 =
     obind (strcspn B m s1 s2) (\<lambda>n. let p = s1 + n in
     obind (load_byte m p) (\<lambda>b. Returns (if b \<noteq> 0 then Some p else None)))"

text \<open>The inner loop of the substring search answers whether the needle matches at the haystack pointer.\<close>

function match_here :: "memory \<Rightarrow> nat \<Rightarrow> nat \<Rightarrow> u8 \<Rightarrow> nat \<Rightarrow> bool outcome" where
  "match_here m haystack needle msk i =
     obind (load_byte m (needle + i)) (\<lambda>b.
     if b = 0 then Returns True
     else obind (load_byte m (haystack + i)) (\<lambda>a.
       if a AND msk \<noteq> b AND msk then Returns False else match_here m haystack needle msk (i + 1)))"
  by pat_completeness auto

termination by (relation "measure (\<lambda>(m, haystack, needle, msk, i). length m - (needle + i))") (auto simp: load_byte_def split: if_splits)

function inner_strstr :: "memory \<Rightarrow> nat \<Rightarrow> nat \<Rightarrow> u8 \<Rightarrow> nat option outcome" where
  "inner_strstr m haystack needle msk =
     obind (load_byte m haystack) (\<lambda>b.
     if b = 0 then Returns None
     else obind (match_here m haystack needle msk 0) (\<lambda>found.
       if found then Returns (Some haystack) else inner_strstr m (haystack + 1) needle msk))"
  by pat_completeness auto

termination by (relation "measure (\<lambda>(m, haystack, needle, msk). length m - haystack)") (auto simp: load_byte_def split: if_splits)

definition strstr :: "memory \<Rightarrow> nat \<Rightarrow> nat \<Rightarrow> nat option outcome" where
  "strstr m haystack needle = inner_strstr m haystack needle (NOT 0)"

definition strcasestr :: "memory \<Rightarrow> nat \<Rightarrow> nat \<Rightarrow> nat option outcome" where
  "strcasestr m haystack needle = inner_strstr m haystack needle (NOT 32)"

text \<open>\<open>strtok_r\<close> takes and leaves the pointer to the rest of the string; it returns the token.\<close>

definition strtok_r :: "'b byte_set \<Rightarrow> nat option \<Rightarrow> nat \<Rightarrow> nat option \<times> memory \<Rightarrow> (nat option \<times> nat option \<times> memory) outcome" where
  "strtok_r B s delimiter = (\<lambda>(lasts, m).
     case (case s of None \<Rightarrow> lasts | Some s \<Rightarrow> Some s) of
       None \<Rightarrow> Returns (None, lasts, m)
     | Some haystack \<Rightarrow>
         obind (strspn B m haystack delimiter) (\<lambda>n. let haystack = haystack + n in
         obind (load_byte m haystack) (\<lambda>b.
         if b = 0 then Returns (None, None, m)
         else let token = haystack in
           obind (strpbrk B m token delimiter) (\<lambda>r. case r of
             Some haystack \<Rightarrow> obind (store_byte haystack 0 m) (\<lambda>m. Returns (Some token, Some (haystack + 1), m))
           | None \<Rightarrow> Returns (Some token, None, m)))))"

text \<open>\<open>strtok\<close> keeps that pointer in a static variable, the first component of its state.\<close>

definition strtok :: "'b byte_set \<Rightarrow> nat option \<Rightarrow> nat \<Rightarrow> nat option \<times> memory \<Rightarrow> (nat option \<times> nat option \<times> memory) outcome" where
  "strtok B s1 delimiter st = strtok_r B s1 delimiter st"

section \<open>Directory entries\<close>

text \<open>In \<open>struct dirent\<close> the name follows an 8 byte inode number, an 8 byte offset, a 2 byte length and a type byte.  The
  comparison function gets pointers to two elements of the array of pointers, here the elements.\<close>

definition d_name :: "nat \<Rightarrow> nat" where "d_name dirent = dirent + 19"

definition alphasort :: "memory \<Rightarrow> nat \<Rightarrow> nat \<Rightarrow> int outcome" where
  "alphasort m first second = strcoll m (d_name first) (d_name second)"

lemmas string_loops [simp del] = strlen.simps strnlen.simps strchr_from.simps strncmp.simps strcpy_loop.simps copy_until.simps
  strncat_loop.simps collect_bytes.simps span_bytes.simps match_here.simps inner_strstr.simps

section \<open>The string at a pointer\<close>

definition c_str :: "memory \<Rightarrow> nat \<Rightarrow> u8 list option" where
  "c_str m p = (if 0 \<in> set (drop p m) then Some (takeWhile (\<lambda>b. b \<noteq> 0) (drop p m)) else None)"

lemma c_str_unfold: "c_str m p =
    (if p < length m then if m ! p = 0 then Some [] else map_option ((#) (m ! p)) (c_str m (Suc p)) else None)"
  by (cases "p < length m") (auto simp: c_str_def Cons_nth_drop_Suc [symmetric])

lemma c_str_Nil: "c_str m p = Some [] \<longleftrightarrow> p < length m \<and> m ! p = 0"
  by (subst c_str_unfold) auto

lemma c_str_Cons: "c_str m p = Some (x # xs) \<longleftrightarrow> p < length m \<and> m ! p = x \<and> x \<noteq> 0 \<and> c_str m (Suc p) = Some xs"
  by (subst c_str_unfold) auto

lemma c_str_iff: "c_str m p = Some xs \<longleftrightarrow> 0 \<notin> set xs \<and> p + length xs < length m \<and> take (Suc (length xs)) (drop p m) = xs @ [0]"
proof (induction xs arbitrary: p)
  case Nil
  then show ?case by (auto simp: c_str_Nil take_Suc_conv_app_nth)
next
  case (Cons x xs)
  show ?case
  proof (cases "p < length m")
    case True
    then have "drop p m = m ! p # drop (Suc p) m" by (simp add: Cons_nth_drop_Suc)
    then show ?thesis using True by (auto simp: c_str_Cons Cons)
  qed (simp add: c_str_Cons)
qed

lemma c_str_end: "c_str m p = Some xs \<Longrightarrow> p + length xs < length m \<and> m ! (p + length xs) = 0"
proof (induction xs arbitrary: p)
  case (Cons x xs)
  then show ?case using Cons.IH [of "Suc p"] by (simp add: c_str_Cons)
qed (simp add: c_str_Nil)

lemma c_str_drop: "c_str m p = Some xs \<Longrightarrow> i \<le> length xs \<Longrightarrow> c_str m (p + i) = Some (drop i xs)"
proof (induction xs arbitrary: p i)
  case (Cons x xs)
  then show ?case using Cons.IH [of "Suc p" "i - 1"] by (cases i) (auto simp: c_str_Cons)
qed simp

lemma c_str_nth: "c_str m p = Some xs \<Longrightarrow> i < length xs \<Longrightarrow> m ! (p + i) = xs ! i \<and> xs ! i \<noteq> 0"
  using c_str_drop [of m p xs i] by (simp add: c_str_Cons Cons_nth_drop_Suc [symmetric])

section \<open>Lengths and searches\<close>

lemma strlen_run: "strlen m p = omap length (unwrap (c_str m p))"
proof (induction m p rule: strlen.induct)
  case (1 m p)
  show ?case
    by (subst strlen.simps, subst c_str_unfold)
      (use 1 in \<open>auto simp: nul_next_def load_byte_def split: option.splits; cases "c_str m (Suc p)"; simp\<close>)
qed

lemma strnlen_run: "c_str m p = Some xs \<Longrightarrow> strnlen m p n = Returns (min n (length xs))"
proof (induction xs arbitrary: p n)
  case Nil
  then show ?case by (subst strnlen.simps) (simp add: c_str_Nil nul_next_def load_byte_def)
next
  case (Cons x xs)
  then show ?case by (subst strnlen.simps) (auto simp: c_str_Cons nul_next_def load_byte_def min_def)
qed

lemma strchr_run: "c_str m p = Some xs \<Longrightarrow> strchr_from m p c =
    Returns (if c \<in> set xs then Some (p + length (takeWhile (\<lambda>b. b \<noteq> c) xs)) else None)"
proof (induction xs arbitrary: p)
  case Nil
  then show ?case by (subst strchr_from.simps) (simp add: c_str_Nil load_byte_def)
next
  case (Cons x xs)
  then show ?case by (subst strchr_from.simps) (auto simp: c_str_Cons load_byte_def)
qed

text \<open>The byte that ends the string is never found, although it is part of the string for \<open>strchr\<close> in C.\<close>

lemma strchr_misses_end: "c_str m p = Some xs \<Longrightarrow> strchr m p 0 = Returns None"
  using strchr_run [of m p xs 0] by (simp add: strchr_def c_str_iff)

lemma strrchr_from_run: "s + n \<le> length m \<Longrightarrow> strrchr_from m s c n =
    Returns (if c \<in> set (take n (drop s m)) then Some (s + (n - 1 - length (takeWhile (\<lambda>b. b \<noteq> c) (List.rev (take n (drop s m)))))) else None)"
proof (induction n)
  case (Suc n)
  then have "take (Suc n) (drop s m) = take n (drop s m) @ [m ! (s + n)]" by (simp add: take_Suc_conv_app_nth)
  with Suc show ?case by (auto simp: load_byte_def)
qed simp

section \<open>Comparing strings\<close>

lemma strncmp_run: "c_str m p = Some xs \<Longrightarrow> c_str m q = Some ys \<Longrightarrow>
    strncmp m p q n = Returns (lex_diff (take n (xs @ [0])) (take n (ys @ [0])))"
proof (induction xs arbitrary: p q ys n)
  case Nil
  then show ?case by (cases ys; subst strncmp.simps) (auto simp: c_str_Nil c_str_Cons load_byte_def take_Cons' Let_def)
next
  case (Cons x xs)
  then show ?case by (cases ys; subst strncmp.simps) (auto simp: c_str_Nil c_str_Cons load_byte_def take_Cons' Let_def)
qed

definition string_order :: "u8 list \<Rightarrow> u8 list \<Rightarrow> int" where
  "string_order xs ys = lex_diff (xs @ [0]) (ys @ [0])"

lemma strcmp_run:
  assumes "c_str m p = Some xs" "c_str m q = Some ys" "length m \<le> usize_max"
  shows "strcmp m p q = Returns (string_order xs ys)"
proof -
  have "length (xs @ [0]) \<le> usize_max" "length (ys @ [0]) \<le> usize_max" using c_str_end [OF assms(1)] c_str_end [OF assms(2)] assms(3) by auto
  then show ?thesis unfolding strcmp_def string_order_def strncmp_run [OF assms(1,2)] by (simp only: take_all)
qed

lemma lex_diff_flip: "lex_diff ys xs = - lex_diff xs ys"
  by (induction xs ys rule: lex_diff.induct) auto

lemma string_order_flip: "string_order ys xs = - string_order xs ys"
  unfolding string_order_def by (rule lex_diff_flip)

lemma string_order_less:
  "0 \<notin> set xs \<Longrightarrow> 0 \<notin> set ys \<Longrightarrow> string_order xs ys < 0 \<longleftrightarrow> (xs, ys) \<in> lexord {(x, y). x < y}"
proof (induction xs arbitrary: ys)
  case Nil
  have "0 < uint y" if "y \<noteq> 0" for y :: u8 using that word_neq_0_conv [of y] by (simp add: word_less_def)
  with Nil show ?case by (cases ys) (auto simp: string_order_def)
next
  case (Cons x xs)
  then show ?case by (cases ys) (auto simp: string_order_def word_less_def word_uint_eq_iff)
qed

lemma string_order_0: "0 \<notin> set xs \<Longrightarrow> 0 \<notin> set ys \<Longrightarrow> string_order xs ys = 0 \<longleftrightarrow> xs = ys"
proof (induction xs arbitrary: ys)
  case Nil
  then show ?case by (cases ys) (auto simp: string_order_def word_uint_eq_iff)
next
  case (Cons x xs)
  then show ?case by (cases ys) (auto simp: string_order_def word_uint_eq_iff)
qed

lemma string_order_trans:
  assumes "0 \<notin> set xs" "0 \<notin> set ys" "0 \<notin> set zs" "string_order xs ys \<le> 0" "string_order ys zs \<le> 0"
  shows "string_order xs zs \<le> 0"
proof -
  have le: "string_order as bs \<le> 0 \<longleftrightarrow> as = bs \<or> (as, bs) \<in> lexord {(x, y). x < y}" if "0 \<notin> set as" "0 \<notin> set bs" for as bs
    unfolding le_less string_order_less [OF that] string_order_0 [OF that] by blast
  have "trans {(x, y). (x :: u8) < y}" by (auto intro: transI)
  then show ?thesis using lexord_trans [of xs ys "{(x, y). x < y}" zs] assms(4,5)
    unfolding le [OF assms(1,2)] le [OF assms(2,3)] le [OF assms(1,3)] by blast
qed

section \<open>Copying strings\<close>

lemma blit_append: "d + length xs + length ys \<le> length m \<Longrightarrow> blit (d + length xs) ys (blit d xs m) = blit d (xs @ ys) m"
  by (simp add: blit_def ac_simps)

lemma blit_take_Suc:
  assumes "k < length xs" "d + length xs \<le> length m"
  shows "blit (d + k) [xs ! k] (blit d (take k xs) m) = blit d (take (Suc k) xs) m"
  using blit_append [of d "take k xs" "[xs ! k]" m] assms by (simp add: take_Suc_conv_app_nth min_def)

lemma strcpy_loop_run:
  assumes "c_str m s = Some xs" "d + length xs < length m" "d \<le> s \<or> s + length xs < d" "k \<le> length xs"
  shows "strcpy_loop (d + k) (s + k) (blit d (take k xs) m) = Returns (blit d (xs @ [0]) m)"
  using assms(4)
proof (induction "length xs - k" arbitrary: k)
  case 0
  then have "k = length xs" by simp
  moreover have "blit d xs m ! (s + length xs) = 0" "s + length xs < length m"
    using c_str_end [OF assms(1)] assms(2,3) by (auto simp: nth_blit)
  moreover have "blit (d + length xs) [0] (blit d xs m) = blit d (xs @ [0]) m"
    by (rule blit_append) (use assms in simp)
  ultimately show ?case using assms(2) by (subst strcpy_loop.simps) (simp add: nul_next_def load_byte_def store_byte_blit)
next
  case (Suc x)
  then have k: "k < length xs" "x = length xs - Suc k" by auto
  have "blit d (take k xs) m ! (s + k) = xs ! k" "xs ! k \<noteq> 0" "s + k < length m"
    using c_str_nth [OF assms(1) k(1)] c_str_end [OF assms(1)] assms(2,3) k by (auto simp: nth_blit)
  moreover have "blit (d + k) [xs ! k] (blit d (take k xs) m) = blit d (take (Suc k) xs) m"
    by (rule blit_take_Suc) (use assms k in simp_all)
  ultimately have "strcpy_loop (d + k) (s + k) (blit d (take k xs) m) = strcpy_loop (d + Suc k) (s + Suc k) (blit d (take (Suc k) xs) m)"
    using assms(2) k by (subst strcpy_loop.simps) (simp add: nul_next_def load_byte_def store_byte_blit)
  then show ?case using Suc.hyps(1) [OF k(2)] k by simp
qed

lemma c_str_blit: "0 \<notin> set xs \<Longrightarrow> d + length xs < length m \<Longrightarrow> c_str (blit d (xs @ [0]) m) d = Some xs"
  by (auto simp: c_str_iff blit_def min_def)

lemma strcpy_run:
  assumes "c_str m s = Some xs" "d + length xs < length m" "d \<le> s \<or> s + length xs < d"
  shows "strcpy d s m = Returns (d, blit d (xs @ [0]) m) \<and> c_str (blit d (xs @ [0]) m) d = Some xs"
  using strcpy_loop_run [OF assms, of 0] assms by (simp add: strcpy_def c_str_blit c_str_iff)

text \<open>\<open>strlcpy\<close> with a size of at most the length of the source writes a zero byte behind the buffer.\<close>

lemma copy_until_run:
  assumes "c_str m s = Some xs" "n \<le> length xs" "d + n \<le> length m" "d + n \<le> s \<or> s + length xs < d" "k \<le> n"
  shows "copy_until d s n k (blit d (take k xs) m) = Returns (n, blit d (take n xs) m)"
  using assms(5)
proof (induction "n - k" arbitrary: k)
  case 0
  then have "k = n" by simp
  moreover have "s + n < length (blit d (take n xs) m)" using c_str_end [OF assms(1)] assms by auto
  ultimately show ?case by (subst copy_until.simps) (simp add: load_byte_def)
next
  case (Suc x)
  then have k: "k < n" "x = n - Suc k" by auto
  have "blit d (take k xs) m ! (s + k) = xs ! k" "xs ! k \<noteq> 0" "s + k < length m"
    using c_str_nth [OF assms(1), of k] c_str_end [OF assms(1)] assms k by (auto simp: nth_blit)
  moreover have "blit (d + k) [xs ! k] (blit d (take k xs) m) = blit d (take (Suc k) xs) m"
    using blit_append [of d "take k xs" "[xs ! k]" m] assms k by (simp add: take_Suc_conv_app_nth min_def)
  ultimately have "copy_until d s n k (blit d (take k xs) m) = copy_until d s n (k + 1) (blit d (take (Suc k) xs) m)"
    using assms k by (subst copy_until.simps) (simp add: load_byte_def store_byte_blit)
  then show ?case using Suc.hyps(1) [OF k(2)] k by simp
qed

lemma strlcpy_writes_behind:
  assumes "c_str m s = Some xs" "n \<le> length xs" "d + n < length m" "d + n \<le> s \<or> s + length xs < d"
  shows "strlcpy d s n m = Returns (n, (blit d (take n xs) m)[d + n := 0])"
  using copy_until_run [OF assms(1,2) _ assms(4), of 0] assms by (simp add: strlcpy_def store_byte_def)

section \<open>Spans and tokens\<close>

context bitset256
begin

lemma collect_bytes_run: "c_str m p = Some ds \<Longrightarrow>
    \<exists>s'. collect_bytes B m p s = Returns s' \<and> (\<forall>k<256. bs_contains B s' k \<longleftrightarrow> k \<in> unat ` set ds \<or> bs_contains B s k)"
proof (induction ds arbitrary: p s)
  case Nil
  then show ?case by (subst collect_bytes.simps) (simp add: c_str_Nil load_byte_def)
next
  case (Cons x ds)
  have x: "unat x < 256" using unsigned_less [of x] by simp
  obtain s' where "collect_bytes B m (Suc p) (bs_insert B (unat x) s) = Returns s'"
      "\<forall>k<256. bs_contains B s' k \<longleftrightarrow> k \<in> unat ` set ds \<or> bs_contains B (bs_insert B (unat x) s) k"
    using Cons.IH [of "Suc p" "bs_insert B (unat x) s"] Cons.prems by (auto simp: c_str_Cons)
  then show ?case using Cons.prems x by (subst collect_bytes.simps) (auto simp: c_str_Cons load_byte_def contains_insert)
qed

lemma span_bytes_run: "c_str m p = Some xs \<Longrightarrow> \<forall>k<256. bs_contains B s k \<longleftrightarrow> k \<in> unat ` D \<Longrightarrow>
    span_bytes B m p s b = Returns (length (takeWhile (\<lambda>x. (x \<in> D) = b) xs))"
proof (induction xs arbitrary: p)
  case Nil
  then show ?case by (subst span_bytes.simps) (simp add: c_str_Nil load_byte_def)
next
  case (Cons x xs)
  have "unat x < 256" using unsigned_less [of x] by simp
  moreover have "unat x \<in> unat ` D \<longleftrightarrow> x \<in> D" by (rule inj_image_mem_iff) (simp add: inj_def word_unat_eq_iff)
  ultimately have "bs_contains B s (unat x) \<longleftrightarrow> x \<in> D" using Cons.prems(2) by simp
  then show ?case using Cons by (subst span_bytes.simps) (auto simp: c_str_Cons load_byte_def)
qed

lemma inner_strspn_run:
  assumes "c_str m p = Some xs" "c_str m q = Some ds"
  shows "inner_strspn B m p q b = Returns (length (takeWhile (\<lambda>x. (x \<in> set ds) = b) xs))"
proof -
  obtain s where "collect_bytes B m q (bs_new B) = Returns s" "\<forall>k<256. bs_contains B s k \<longleftrightarrow> k \<in> unat ` set ds"
    using collect_bytes_run [OF assms(2), of "bs_new B"] contains_new by auto
  then show ?thesis using span_bytes_run [OF assms(1)] by (simp add: inner_strspn_def)
qed

lemma strpbrk_run:
  assumes "c_str m p = Some xs" "c_str m q = Some ds"
  shows "strpbrk B m p q = Returns (let n = length (takeWhile (\<lambda>x. x \<notin> set ds) xs) in if n < length xs then Some (p + n) else None)"
proof -
  let ?n = "length (takeWhile (\<lambda>x. x \<notin> set ds) xs)"
  have "?n \<le> length xs" by (rule length_takeWhile_le)
  moreover have "m ! (p + ?n) = 0 \<longleftrightarrow> ?n = length xs" "p + ?n < length m"
    using c_str_nth [OF assms(1), of ?n] c_str_end [OF assms(1)] calculation by (cases "?n < length xs"; auto)+
  ultimately show ?thesis by (auto simp: strpbrk_def strcspn_def inner_strspn_run [OF assms] load_byte_def Let_def)
qed

end

text \<open>The tokens of a string: its maximal runs of bytes that are not delimiters.\<close>

function tokens :: "u8 list \<Rightarrow> u8 list \<Rightarrow> u8 list list" where
  "tokens ds xs = (let rest = dropWhile (\<lambda>x. x \<in> set ds) xs in
     if rest = [] then [] else takeWhile (\<lambda>x. x \<notin> set ds) rest # tokens ds (dropWhile (\<lambda>x. x \<notin> set ds) rest))"
  by pat_completeness auto

termination
proof (relation "measure (\<lambda>(ds, xs). length xs)")
  fix ds xs rest :: "u8 list"
  assume rest: "rest = dropWhile (\<lambda>x. x \<in> set ds) xs" "rest \<noteq> []"
  then obtain y ys where "rest = y # ys" "y \<notin> set ds" by (metis hd_dropWhile list.exhaust_sel)
  moreover have "length rest \<le> length xs" unfolding rest by (rule length_dropWhile_le)
  ultimately show "((ds, dropWhile (\<lambda>x. x \<notin> set ds) rest), ds, xs) \<in> measure (\<lambda>(ds, xs). length xs)"
    using length_dropWhile_le [of "\<lambda>x. x \<notin> set ds" ys] by simp
qed simp

declare tokens.simps [simp del]

lemma tokens_Nil: "tokens ds [] = []"
  by (subst tokens.simps) simp

lemma tokens_delimiter: "x \<in> set ds \<Longrightarrow> tokens ds (x # xs) = tokens ds xs"
  by (subst (1 2) tokens.simps) simp

lemma c_str_update: "c_str m p = Some xs \<Longrightarrow> i < p \<or> p + length xs < i \<Longrightarrow> c_str (m[i := b]) p = Some xs"
proof (induction xs arbitrary: p)
  case (Cons x xs)
  then show ?case using Cons.IH [of "Suc p"] by (auto simp: c_str_Cons nth_list_update)
qed (auto simp: c_str_Nil)

lemma c_str_cut: "c_str m p = Some xs \<Longrightarrow> n \<le> length xs \<Longrightarrow> c_str (m[p + n := 0]) p = Some (take n xs)"
proof (induction xs arbitrary: p n)
  case (Cons x xs)
  then show ?case using Cons.IH [of "Suc p" "n - 1"] by (cases n) (auto simp: c_str_Cons c_str_Nil nth_list_update)
qed (auto simp: c_str_Nil)

context bitset256
begin

lemma strtok_r_run:
  assumes "c_str m d = Some ds" "c_str m h = Some xs" "(case s of None \<Rightarrow> lasts | Some p \<Rightarrow> Some p) = Some h"
  shows "strtok_r B s d (lasts, m) = Returns (let k = length (takeWhile (\<lambda>x. x \<in> set ds) xs); rest = drop k xs;
      n = length (takeWhile (\<lambda>x. x \<notin> set ds) rest) in
    if rest = [] then (None, None, m)
    else if n < length rest then (Some (h + k), Some (h + k + n + 1), m[h + k + n := 0]) else (Some (h + k), None, m))"
proof -
  define k where "k = length (takeWhile (\<lambda>x. x \<in> set ds) xs)"
  have k: "k \<le> length xs" unfolding k_def by (rule length_takeWhile_le)
  have rest: "c_str m (h + k) = Some (drop k xs)" by (rule c_str_drop [OF assms(2) k])
  have at: "h + k < length m" "m ! (h + k) = 0 \<longleftrightarrow> drop k xs = []"
    using c_str_end [OF assms(2)] c_str_nth [OF assms(2), of k] k by (cases "k < length xs"; auto)+
  have "strspn B m h d = Returns k" using inner_strspn_run [OF assms(2,1), of True] by (simp add: strspn_def k_def)
  moreover have "h + k + length (takeWhile (\<lambda>x. x \<notin> set ds) (drop k xs)) < length m"
    using c_str_end [OF rest] length_takeWhile_le [of "\<lambda>x. x \<notin> set ds" "drop k xs"] by linarith
  ultimately show ?thesis unfolding k_def [symmetric] using assms(3) at strpbrk_run [OF rest assms(1)]
    by (auto simp: strtok_r_def load_byte_def store_byte_def Let_def)
qed

end

lemma tokens_split:
  assumes "rest = drop (length (takeWhile (\<lambda>x. x \<in> set ds) xs)) xs" "n = length (takeWhile (\<lambda>x. x \<notin> set ds) rest)"
  shows "rest = [] \<Longrightarrow> tokens ds xs = []"
    and "rest \<noteq> [] \<Longrightarrow> n < length rest \<Longrightarrow> tokens ds xs = take n rest # tokens ds (drop (n + 1) rest)"
    and "rest \<noteq> [] \<Longrightarrow> \<not> n < length rest \<Longrightarrow> tokens ds xs = [take n rest]"
proof -
  have rest: "rest = dropWhile (\<lambda>x. x \<in> set ds) xs" unfolding assms(1) by (simp add: dropWhile_eq_drop)
  have parts: "take n rest = takeWhile (\<lambda>x. x \<notin> set ds) rest" "drop n rest = dropWhile (\<lambda>x. x \<notin> set ds) rest"
    unfolding assms(2) by (rule takeWhile_eq_take [symmetric], rule dropWhile_eq_drop [symmetric])
  have unfold: "tokens ds xs = (if rest = [] then [] else take n rest # tokens ds (drop n rest))"
    unfolding parts by (subst tokens.simps) (simp only: Let_def rest)
  then have cons: "rest \<noteq> [] \<Longrightarrow> tokens ds xs = take n rest # tokens ds (drop n rest)" by (simp only: if_False)
  show "rest = [] \<Longrightarrow> tokens ds xs = []" using unfold by (simp only: simp_thms if_True)
  show "tokens ds xs = [take n rest]" if "rest \<noteq> []" "\<not> n < length rest"
    using cons [OF that(1)] that(2) by (simp add: tokens_Nil)
  show "tokens ds xs = take n rest # tokens ds (drop (n + 1) rest)" if "rest \<noteq> []" "n < length rest"
  proof -
    have "rest ! n \<in> set ds" using nth_length_takeWhile [of "\<lambda>x. x \<notin> set ds" rest] that(2) unfolding assms(2) by simp
    then show ?thesis using cons [OF that(1)] tokens_delimiter [of "rest ! n" ds "drop (Suc n) rest"] that(2) by (simp add: Cons_nth_drop_Suc)
  qed
qed

text \<open>C36. A call of \<open>strtok_r\<close> takes the first token off the string: with the string and the delimiters apart in memory
  it returns a pointer to the first token, as a string of its own, and leaves a pointer to a string with the other
  tokens.  It returns null when no token is left.  It writes inside the string only, so the delimiters stay as they were
  and the next call, which starts where this one left off, meets the same conditions.\<close>

theorem strtok_yields_tokens:
  assumes "bitset256 B" "c_str m d = Some ds" "c_str m h = Some xs" "(case s of None \<Rightarrow> lasts | Some p \<Rightarrow> Some p) = Some h"
    and "d + length ds < h \<or> h + length xs < d"
  shows "\<exists>token lasts' m'. strtok_r B s d (lasts, m) = Returns (token, lasts', m') \<and> c_str m' d = Some ds \<and>
    length m' = length m \<and> (\<forall>i. i < h \<or> h + length xs \<le> i \<longrightarrow> m' ! i = m ! i) \<and>
    (case tokens ds xs of
       [] \<Rightarrow> token = None \<and> lasts' = None
     | t # ts \<Rightarrow> \<exists>p. token = Some p \<and> c_str m' p = Some t \<and>
         (case lasts' of None \<Rightarrow> ts = []
          | Some l \<Rightarrow> \<exists>ys. c_str m' l = Some ys \<and> tokens ds ys = ts \<and> h < l \<and> l + length ys = h + length xs))"
proof -
  define k where "k = length (takeWhile (\<lambda>x. x \<in> set ds) xs)"
  define rest where "rest = drop k xs"
  define n where "n = length (takeWhile (\<lambda>x. x \<notin> set ds) rest)"
  note run = bitset256.strtok_r_run [OF assms(1-4), unfolded Let_def, folded k_def, folded rest_def, folded n_def]
  note toks = tokens_split [OF rest_def [unfolded k_def] n_def]
  have k: "k \<le> length xs" unfolding k_def by (rule length_takeWhile_le)
  have at: "c_str m (h + k) = Some rest" unfolding rest_def by (rule c_str_drop [OF assms(3) k])
  have whole: "n = length rest \<Longrightarrow> take n rest = rest" "n \<le> length rest" unfolding n_def by (auto intro: length_takeWhile_le)
  consider "rest = []" | "rest \<noteq> []" "n < length rest" | "rest \<noteq> []" "n = length rest" using whole(2) by linarith
  then show ?thesis
  proof cases
    case 1
    then show ?thesis using run toks(1) assms(2) by simp
  next
    case 2
    have "c_str (m[h + k + n := 0]) (h + k) = Some (take n rest)" by (rule c_str_cut [OF at]) (use 2 in simp)
    moreover have "c_str (m[h + k + n := 0]) (h + k + n + 1) = Some (drop (n + 1) rest)"
      using c_str_update [OF c_str_drop [OF at, of "n + 1"], of "h + k + n" 0] 2 by (simp add: add.assoc)
    moreover have "c_str (m[h + k + n := 0]) d = Some ds"
      by (rule c_str_update [OF assms(2)]) (use assms(5) 2 k in \<open>auto simp: rest_def\<close>)
    moreover have "h + k + n + 1 + length (drop (n + 1) rest) = h + length xs" "h + k + n < h + length xs"
      using 2 k by (auto simp: rest_def)
    ultimately show ?thesis using run toks(2) [OF 2] 2 by (simp add: nth_list_update)
  next
    case 3
    then show ?thesis using run toks(3) assms(2) at whole(1) by simp
  qed
qed

definition word_byte_set :: "256 word byte_set" where
  "word_byte_set = \<lparr>bs_new = 0, bs_insert = \<lambda>k s. s OR push_bit k 1, bs_contains = bit\<rparr>"

lemma bitset256_word: "bitset256 word_byte_set"
  by unfold_locales (auto simp: word_byte_set_def bit_simps)

interpretation word_set: bitset256 word_byte_set
  by (rule bitset256_word)

theorem strtok_yields_tokens_witness:
  "\<exists>p l m'. strtok_r word_byte_set (Some 0) 6 (None, [44, 97, 98, 44, 99, 0, 44, 0]) = Returns (Some p, Some l, m') \<and>
     c_str m' p = Some [97, 98] \<and> (\<exists>ys. c_str m' l = Some ys \<and> tokens [44] ys = [[99]])"
proof -
  let ?m = "[44, 97, 98, 44, 99, 0, 44, 0] :: memory"
  have d: "c_str ?m 6 = Some [44]" and h: "c_str ?m 0 = Some [44, 97, 98, 44, 99]" by code_simp+
  have toks: "tokens [44] [44, 97, 98, 44, 99] = [[97, 98], [99]]" by code_simp
  show ?thesis using strtok_yields_tokens [OF bitset256_word d h, where s = "Some 0" and lasts = None] unfolding toks
    by (simp split: option.splits) blast
qed

section \<open>Substrings\<close>

lemma match_here_run:
  assumes "c_str m h = Some xs" "c_str m q = Some ys" "i \<le> length ys" "take i ys = take i xs" "i \<le> length xs"
  shows "match_here m h q (NOT 0) i = Returns (take (length ys) xs = ys)"
  using assms(3-5)
proof (induction "length ys - i" arbitrary: i)
  case 0
  then have i: "i = length ys" by simp
  moreover have "take (length ys) xs = ys" using 0 i by simp
  ultimately show ?case using c_str_end [OF assms(2)] by (subst match_here.simps) (simp add: load_byte_def)
next
  case (Suc k)
  then have i: "i < length ys" by simp
  have b: "m ! (q + i) = ys ! i" "ys ! i \<noteq> 0" "q + i < length m" using c_str_nth [OF assms(2) i] c_str_end [OF assms(2)] i by auto
  have a: "h + i < length m" "m ! (h + i) = (if i < length xs then xs ! i else 0)"
    using c_str_nth [OF assms(1), of i] c_str_end [OF assms(1)] Suc.prems by auto
  show ?case
  proof (cases "i < length xs \<and> xs ! i = ys ! i")
    case True
    then have "take (Suc i) ys = take (Suc i) xs" using Suc.prems i by (simp add: take_Suc_conv_app_nth)
    then have "match_here m h q (NOT 0) (Suc i) = Returns (take (length ys) xs = ys)" using Suc.hyps(1) [of "Suc i"] Suc.hyps(2) True i by auto
    then show ?thesis using True a b by (subst match_here.simps) (simp add: load_byte_def)
  next
    case False
    then have "take (length ys) xs \<noteq> ys" using i by (metis length_take min_less_iff_conj nth_take)
    then show ?thesis using False a b by (subst match_here.simps) (auto simp: load_byte_def)
  qed
qed

text \<open>The first place of the haystack at which the needle starts.  A haystack that is empty has none, even for the
  empty needle.\<close>

fun first_match :: "u8 list \<Rightarrow> u8 list \<Rightarrow> nat option" where
  "first_match [] ys = None"
| "first_match (x # xs) ys = (if take (length ys) (x # xs) = ys then Some 0 else map_option Suc (first_match xs ys))"

lemma strstr_run: "c_str m h = Some xs \<Longrightarrow> c_str m q = Some ys \<Longrightarrow> strstr m h q = Returns (map_option ((+) h) (first_match xs ys))"
proof (induction xs arbitrary: h)
  case Nil
  then show ?case unfolding strstr_def by (subst inner_strstr.simps) (simp add: c_str_Nil load_byte_def)
next
  case (Cons x xs)
  have "match_here m h q (NOT 0) 0 = Returns (take (length ys) (x # xs) = ys)" by (rule match_here_run [OF Cons.prems]) simp_all
  then show ?case using Cons.IH [of "Suc h"] Cons.prems unfolding strstr_def
    by (subst inner_strstr.simps) (auto simp: c_str_Cons load_byte_def option.map_comp comp_def)
qed

text \<open>The search that ignores case compares bytes with the bit 32 masked out.  A space in the needle then matches the
  zero byte at the end of the haystack, and the comparison runs on behind it.\<close>

lemma strcasestr_runs_over: "strcasestr [65, 0, 66, 0, 32, 98, 0] 0 4 = Returns None \<and>
    strcasestr [97, 0, 66, 0, 97, 32, 98, 0] 0 4 = Returns (Some 0)"
  by code_simp

section \<open>The order of directory entries\<close>

definition entry_name :: "memory \<Rightarrow> nat \<Rightarrow> u8 list" where
  "entry_name m dirent = takeWhile (\<lambda>b. b \<noteq> 0) (drop (d_name dirent) m)"

definition entry_order :: "memory \<Rightarrow> nat \<Rightarrow> nat \<Rightarrow> int" where
  "entry_order m first second = string_order (entry_name m first) (entry_name m second)"

lemma entry_name_zero: "0 \<notin> set (entry_name m p)" by (auto simp: entry_name_def dest: set_takeWhileD)

lemma alphasort_order:
  assumes "0 \<in> set (drop (d_name first) m)" "0 \<in> set (drop (d_name second) m)" "length m \<le> usize_max"
  shows "alphasort m first second = Returns (entry_order m first second)"
  unfolding alphasort_def strcoll_def entry_order_def by (rule strcmp_run) (use assms in \<open>auto simp: c_str_def entry_name_def\<close>)

end
