(* ===== verification/Qsort.thy ===== *)
theory Qsort
  imports CString "HOL-Library.Multiset"
begin

text \<open>The sort of the C library, \<open>relibc/src/header/stdlib/sort.rs\<close>, with \<open>qsort\<close> and \<open>bsearch\<close> of
  \<open>relibc/src/header/stdlib/mod.rs\<close>.

  The array is the list of its elements; \<open>base\<close> and the other pointers into it are indexes, and \<open>cmp\<close> is the
  comparison function of the caller.  An access outside the list is an access outside the memory of the caller and is
  modelled as a panic.  \<open>swap_bytes\<close> is the loop that exchanges two elements of \<open>width\<close> bytes in memory.

  The lemmas show that the sort returns for every comparison function, stays inside its part of the array and permutes
  it; that the result is sorted when the comparison function is consistent; and that exchanging two elements byte by
  byte through the buffer is exchanging them in the list.  \<open>bsearch\<close> finds an equal element of a sorted array if there is
  one.  The order of directory entries by name, which \<open>scandir\<close> sorts with, is consistent.\<close>

section \<open>Elements\<close>

type_synonym 'a comparison = "'a \<Rightarrow> 'a \<Rightarrow> int"

definition compare_at :: "'a comparison \<Rightarrow> nat \<Rightarrow> nat \<Rightarrow> 'a list \<Rightarrow> int outcome" where
  "compare_at cmp i j xs = (if i < length xs \<and> j < length xs then Returns (cmp (xs ! i) (xs ! j)) else Panics)"

definition swap_at :: "nat \<Rightarrow> nat \<Rightarrow> 'a list \<Rightarrow> 'a list outcome" where
  "swap_at i j xs = (if i < length xs \<and> j < length xs then Returns (xs[i := xs ! j, j := xs ! i]) else Panics)"

section \<open>Insertion sort\<close>

text \<open>The inner loop counts \<open>j\<close> down from \<open>i\<close> and stops at the first pair that is in order.\<close>

primrec insertion_inner :: "'a comparison \<Rightarrow> nat \<Rightarrow> nat \<Rightarrow> 'a list \<Rightarrow> 'a list outcome" where
  "insertion_inner cmp base 0 xs = Returns xs"
| "insertion_inner cmp base (Suc j) xs =
     obind (compare_at cmp (base + j) (base + (j + 1)) xs) (\<lambda>c.
     if c > 0 then obind (swap_at (base + j) (base + (j + 1)) xs) (insertion_inner cmp base j)
     else Returns xs)"

definition insertion_sort :: "'a comparison \<Rightarrow> nat \<Rightarrow> nat \<Rightarrow> 'a list \<Rightarrow> 'a list outcome" where
  "insertion_sort cmp base nel xs = ofold (\<lambda>i xs. insertion_inner cmp base i xs) [0..<nel] xs"

section \<open>Heap sort\<close>

function heap_sift_down :: "'a comparison \<Rightarrow> nat \<Rightarrow> nat \<Rightarrow> nat \<Rightarrow> 'a list \<Rightarrow> 'a list outcome" where
  "heap_sift_down cmp base root end_idx xs =
     (if 2 * root + 1 \<le> end_idx then
        let child = 2 * root + 1 in
        obind (compare_at cmp (base + root) (base + child) xs) (\<lambda>c.
        let swap_idx = (if c < 0 then child else root) in
        obind (if child < end_idx
               then obind (compare_at cmp (base + swap_idx) (base + (child + 1)) xs) (\<lambda>c. Returns (c < 0))
               else Returns False) (\<lambda>second.
        let swap_idx = (if second then child + 1 else swap_idx) in
        if swap_idx = root then Returns xs
        else obind (swap_at (base + root) (base + swap_idx) xs) (heap_sift_down cmp base swap_idx end_idx)))
      else Returns xs)"
  by pat_completeness auto

termination
  by (relation "measure (\<lambda>(cmp, base, root, end_idx, xs). end_idx + 1 - root)") (auto split: if_splits)

definition heapify :: "'a comparison \<Rightarrow> nat \<Rightarrow> nat \<Rightarrow> 'a list \<Rightarrow> 'a list outcome" where
  "heapify cmp base nel xs =
     obind (usub nel 2) (\<lambda>n.
     let last_parent = n div 2 in
     ofold (\<lambda>start xs. obind (usub nel 1) (\<lambda>e. heap_sift_down cmp base start e xs)) (rev [0..<last_parent + 1]) xs)"

primrec heapsort_loop :: "'a comparison \<Rightarrow> nat \<Rightarrow> nat \<Rightarrow> 'a list \<Rightarrow> 'a list outcome" where
  "heapsort_loop cmp base 0 xs = Returns xs"
| "heapsort_loop cmp base (Suc e) xs =
     obind (swap_at (base + Suc e) base xs) (\<lambda>xs.
     obind (heap_sift_down cmp base 0 e xs) (heapsort_loop cmp base e))"

definition heapsort :: "'a comparison \<Rightarrow> nat \<Rightarrow> nat \<Rightarrow> 'a list \<Rightarrow> 'a list outcome" where
  "heapsort cmp base nel xs =
     obind (heapify cmp base nel xs) (\<lambda>xs.
     obind (usub nel 1) (\<lambda>e. heapsort_loop cmp base e xs))"

section \<open>Partition\<close>

definition median_of_three :: "'a comparison \<Rightarrow> nat \<Rightarrow> nat \<Rightarrow> 'a list \<Rightarrow> (nat \<times> 'a list) outcome" where
  "median_of_three cmp base nel xs =
     (let pivot = nel div 2;
          mid = base + pivot in
      obind (usub nel 1) (\<lambda>l.
      let last = base + l in
      obind (compare_at cmp mid base xs) (\<lambda>c.
      obind (if c < 0 then swap_at mid base xs else Returns xs) (\<lambda>xs.
      obind (compare_at cmp last mid xs) (\<lambda>c.
      if c < 0 then
        obind (swap_at mid last xs) (\<lambda>xs.
        obind (compare_at cmp mid base xs) (\<lambda>c.
        obind (if c < 0 then swap_at mid base xs else Returns xs) (\<lambda>xs. Returns (pivot, xs))))
      else Returns (pivot, xs))))))"

function partition_loop :: "'a comparison \<Rightarrow> nat \<Rightarrow> nat \<Rightarrow> nat \<Rightarrow> nat \<Rightarrow> nat \<Rightarrow> 'a list \<Rightarrow> ((nat \<times> nat) \<times> 'a list) outcome" where
  "partition_loop cmp base pivot i j n xs =
     (if j \<le> n then
        obind (compare_at cmp (base + j) (base + pivot) xs) (\<lambda>comparison.
        if comparison < 0 then
          obind (swap_at (base + i) (base + j) xs) (\<lambda>xs.
          partition_loop cmp base (if i = pivot then j else pivot) (i + 1) (j + 1) n xs)
        else if comparison > 0 then
          obind (swap_at (base + j) (base + n) xs) (\<lambda>xs.
          obind (usub n 1) (\<lambda>n'. partition_loop cmp base (if n = pivot then j else pivot) i j n' xs))
        else partition_loop cmp base pivot i (j + 1) n xs)
      else Returns ((i, n), xs))"
  by pat_completeness auto

termination
  by (relation "measure (\<lambda>(cmp, base, pivot, i, j, n, xs). n + 1 - j)") (auto simp: usub_def split: if_splits)

definition partition_elems :: "'a comparison \<Rightarrow> nat \<Rightarrow> nat \<Rightarrow> 'a list \<Rightarrow> ((nat \<times> nat) \<times> 'a list) outcome" where
  "partition_elems cmp base nel xs =
     obind (median_of_three cmp base nel xs) (\<lambda>(pivot, xs).
     obind (usub nel 2) (\<lambda>n. partition_loop cmp base pivot 1 1 n xs))"

section \<open>Introsort\<close>

definition THRESHOLD :: nat where "THRESHOLD = 8"

definition leading_zeros :: "u64 \<Rightarrow> nat" where
  "leading_zeros w = length (takeWhile (\<lambda>i. \<not> bit w (63 - i)) [0..<64])"

definition log2 :: "u64 \<Rightarrow> nat outcome" where
  "log2 num = (let max_bits = 63 in usub max_bits (leading_zeros num))"

text \<open>One round of the loop; the second call of the source changes the arguments and loops.\<close>

fun introsort_helper :: "'a comparison \<Rightarrow> nat \<Rightarrow> nat \<Rightarrow> nat \<Rightarrow> 'a list \<Rightarrow> 'a list outcome" where
  "introsort_helper cmp base nel maxdepth xs =
     (if nel < THRESHOLD then insertion_sort cmp base nel xs
      else case maxdepth of
        0 \<Rightarrow> heapsort cmp base nel xs
      | Suc maxdepth \<Rightarrow>
          obind (partition_elems cmp base nel xs) (\<lambda>((left, right), xs).
          let right_base = base + (right + 1) in
          obind (usub nel (right + 1)) (\<lambda>right_nel.
          obind (usub nel right) (\<lambda>d.
          if left < d then
            obind (introsort_helper cmp base left maxdepth xs) (\<lambda>xs. introsort_helper cmp right_base right_nel maxdepth xs)
          else
            obind (introsort_helper cmp right_base right_nel maxdepth xs) (\<lambda>xs. introsort_helper cmp base left maxdepth xs)))))"

definition introsort :: "'a comparison \<Rightarrow> nat \<Rightarrow> nat \<Rightarrow> 'a list \<Rightarrow> 'a list outcome" where
  "introsort cmp base nel xs =
     obind (log2 (of_nat nel)) (\<lambda>l.
     obind (umul 2 l) (\<lambda>maxdepth. introsort_helper cmp base nel maxdepth xs))"

definition qsort :: "'a comparison option \<Rightarrow> nat \<Rightarrow> nat \<Rightarrow> 'a list \<Rightarrow> 'a list outcome" where
  "qsort compar base nel xs =
     (case compar of
        Some cmp \<Rightarrow> if nel > 0 then introsort cmp base nel xs else Returns xs
      | None \<Rightarrow> Returns xs)"

declare heap_sift_down.simps [simp del] partition_loop.simps [simp del] introsort_helper.simps [simp del]

section \<open>Staying inside the array\<close>

text \<open>\<open>ys\<close> is \<open>xs\<close> with the elements of a part of the array permuted.\<close>

definition permuted :: "nat \<Rightarrow> nat \<Rightarrow> 'a list \<Rightarrow> 'a list \<Rightarrow> bool" where
  "permuted base nel xs ys \<longleftrightarrow> length ys = length xs \<and> mset ys = mset xs \<and>
     (\<forall>k. k < base \<or> base + nel \<le> k \<longrightarrow> k < length xs \<longrightarrow> ys ! k = xs ! k)"

lemma permuted_refl [simp]: "permuted base nel xs xs" by (simp add: permuted_def)

lemma permuted_trans [trans]: "permuted base nel xs ys \<Longrightarrow> permuted base nel ys zs \<Longrightarrow> permuted base nel xs zs"
  by (auto simp: permuted_def)

lemma permuted_mono: "permuted b n xs ys \<Longrightarrow> base \<le> b \<Longrightarrow> b + n \<le> base + nel \<Longrightarrow> permuted base nel xs ys"
  by (auto simp: permuted_def)

lemma permuted_length: "permuted base nel xs ys \<Longrightarrow> length ys = length xs" by (simp add: permuted_def)

lemma permuted_outside: "permuted base nel xs ys \<Longrightarrow> k < base \<or> base + nel \<le> k \<Longrightarrow> k < length xs \<Longrightarrow> ys ! k = xs ! k"
  by (auto simp: permuted_def)

lemma permuted_parts:
  assumes "permuted base nel xs ys" "base + nel \<le> length xs"
  shows "take base ys = take base xs" "drop (base + nel) ys = drop (base + nel) xs"
    "mset (take nel (drop base ys)) = mset (take nel (drop base xs))"
proof -
  have len: "length ys = length xs" using assms(1) by (simp add: permuted_def)
  show pre: "take base ys = take base xs" by (rule nth_equalityI) (use assms len in \<open>auto simp: permuted_def\<close>)
  show post: "drop (base + nel) ys = drop (base + nel) xs" by (rule nth_equalityI) (use assms len in \<open>auto simp: permuted_def\<close>)
  have "zs = take base zs @ take nel (drop base zs) @ drop (base + nel) zs" for zs :: "'a list"
    by (metis add.commute append_take_drop_id drop_drop)
  then have "mset zs = mset (take base zs) + mset (take nel (drop base zs)) + mset (drop (base + nel) zs)" for zs :: "'a list"
    by (metis mset_append add.assoc)
  from this [of xs] this [of ys] show "mset (take nel (drop base ys)) = mset (take nel (drop base xs))"
    using assms(1) pre post by (simp add: permuted_def)
qed

lemma permuted_swap:
  "base \<le> i \<Longrightarrow> i < base + nel \<Longrightarrow> base \<le> j \<Longrightarrow> j < base + nel \<Longrightarrow> base + nel \<le> length xs \<Longrightarrow>
     permuted base nel xs (xs[i := xs ! j, j := xs ! i])"
  by (auto simp: permuted_def mset_swap)

lemma swap_at_ok:
  "base + nel \<le> length xs \<Longrightarrow> i < nel \<Longrightarrow> j < nel \<Longrightarrow>
     swap_at (base + i) (base + j) xs = Returns (xs[base + i := xs ! (base + j), base + j := xs ! (base + i)]) \<and>
     permuted base nel xs (xs[base + i := xs ! (base + j), base + j := xs ! (base + i)])"
  by (simp add: swap_at_def permuted_swap)

lemma compare_at_ok: "base + nel \<le> length xs \<Longrightarrow> i < nel \<Longrightarrow> j < nel \<Longrightarrow>
    compare_at cmp (base + i) (base + j) xs = Returns (cmp (xs ! (base + i)) (xs ! (base + j)))"
  by (simp add: compare_at_def)

lemma ofold_permuted:
  assumes "\<And>i xs. i \<in> set is \<Longrightarrow> base + nel \<le> length xs \<Longrightarrow> \<exists>ys. f i xs = Returns ys \<and> permuted base nel xs ys"
    and "base + nel \<le> length xs"
  shows "\<exists>ys. ofold f is xs = Returns ys \<and> permuted base nel xs ys"
  using assms
proof (induction "is" arbitrary: xs)
  case (Cons i "is")
  obtain ys where ys: "f i xs = Returns ys" "permuted base nel xs ys" using Cons.prems by (meson list.set_intros(1))
  obtain zs where zs: "ofold f is ys = Returns zs" "permuted base nel ys zs"
    using Cons.IH [of ys] Cons.prems(1) [OF list.set_intros(2)] Cons.prems(2) permuted_length [OF ys(2)] by auto
  show ?case using ys zs permuted_trans [OF ys(2) zs(2)] by auto
qed simp

lemma insertion_inner_ok:
  "base + nel \<le> length xs \<Longrightarrow> j < nel \<Longrightarrow> \<exists>ys. insertion_inner cmp base j xs = Returns ys \<and> permuted base nel xs ys"
proof (induction j arbitrary: xs)
  case (Suc j)
  note sw = swap_at_ok [OF Suc.prems(1), of j "Suc j"]
  show ?case
  proof (cases "cmp (xs ! (base + j)) (xs ! (base + Suc j)) > 0")
    case True
    let ?ys = "xs[base + j := xs ! (base + Suc j), base + Suc j := xs ! (base + j)]"
    obtain zs where zs: "insertion_inner cmp base j ?ys = Returns zs" "permuted base nel ?ys zs"
      using Suc.IH [of ?ys] Suc.prems by auto
    show ?thesis
      using True sw zs Suc.prems compare_at_ok [OF Suc.prems(1), of j "Suc j" cmp] permuted_trans [OF _ zs(2)] by auto
  next
    case False
    then show ?thesis using Suc.prems compare_at_ok [OF Suc.prems(1), of j "Suc j" cmp] by simp
  qed
qed simp

lemma insertion_sort_ok:
  "base + nel \<le> length xs \<Longrightarrow> \<exists>ys. insertion_sort cmp base nel xs = Returns ys \<and> permuted base nel xs ys"
  unfolding insertion_sort_def by (rule ofold_permuted) (auto intro: insertion_inner_ok)

text \<open>One step of sifting: the larger child, if it is larger than the root.\<close>

definition sift_target :: "'a comparison \<Rightarrow> nat \<Rightarrow> nat \<Rightarrow> nat \<Rightarrow> 'a list \<Rightarrow> nat" where
  "sift_target cmp base root e xs =
     (let child = 2 * root + 1;
          first = (if cmp (xs ! (base + root)) (xs ! (base + child)) < 0 then child else root) in
      if child < e \<and> cmp (xs ! (base + first)) (xs ! (base + (child + 1))) < 0 then child + 1 else first)"

lemma heap_sift_down_step:
  assumes "base + nel \<le> length xs" "e < nel"
  shows "heap_sift_down cmp base root e xs =
    (if 2 * root + 1 \<le> e then
       if sift_target cmp base root e xs = root then Returns xs
       else heap_sift_down cmp base (sift_target cmp base root e xs) e
         (xs[base + root := xs ! (base + sift_target cmp base root e xs), base + sift_target cmp base root e xs := xs ! (base + root)])
     else Returns xs)"
  using assms by (subst heap_sift_down.simps) (auto simp: Let_def compare_at_def swap_at_def sift_target_def)

lemma sift_target_cases:
  "sift_target cmp base root e xs \<in> {root, 2 * root + 1, 2 * root + 2}" "2 * root + 1 \<le> e \<Longrightarrow> sift_target cmp base root e xs \<le> e"
  by (auto simp: sift_target_def Let_def)

lemma heap_sift_down_ok:
  "base + nel \<le> length xs \<Longrightarrow> e < nel \<Longrightarrow> \<exists>ys. heap_sift_down cmp base root e xs = Returns ys \<and> permuted base nel xs ys"
proof (induction "e + 1 - root" arbitrary: root xs rule: less_induct)
  case less
  let ?t = "sift_target cmp base root e xs"
  show ?case
  proof (cases "2 * root + 1 \<le> e \<and> ?t \<noteq> root")
    case True
    let ?ys = "xs[base + root := xs ! (base + ?t), base + ?t := xs ! (base + root)]"
    have t: "root < ?t" "?t \<le> e" using True sift_target_cases [where root = root and e = e and cmp = cmp and base = base and xs = xs] by auto
    have dec: "e + 1 - ?t < e + 1 - root" using t by linarith
    have sw: "permuted base nel xs ?ys" using swap_at_ok [OF less.prems(1), of root ?t] t less.prems(2) by simp
    obtain zs where zs: "heap_sift_down cmp base ?t e ?ys = Returns zs" "permuted base nel ?ys zs"
      using less.hyps [OF dec, of ?ys] less.prems by auto
    show ?thesis using True zs permuted_trans [OF sw zs(2)] by (simp add: heap_sift_down_step [OF less.prems])
  next
    case False
    then show ?thesis by (auto simp: heap_sift_down_step [OF less.prems])
  qed
qed

lemma heapsort_loop_ok:
  "base + nel \<le> length xs \<Longrightarrow> e < nel \<Longrightarrow> \<exists>ys. heapsort_loop cmp base e xs = Returns ys \<and> permuted base nel xs ys"
proof (induction e arbitrary: xs)
  case (Suc e)
  let ?ys = "xs[base + Suc e := xs ! base, base := xs ! (base + Suc e)]"
  have sw: "swap_at (base + Suc e) base xs = Returns ?ys" "permuted base nel xs ?ys"
    using swap_at_ok [OF Suc.prems(1), of "Suc e" 0] Suc.prems(2) by simp_all
  obtain zs where zs: "heap_sift_down cmp base 0 e ?ys = Returns zs" "permuted base nel ?ys zs"
    using heap_sift_down_ok [of base nel ?ys e cmp 0] Suc.prems by auto
  obtain us where us: "heapsort_loop cmp base e zs = Returns us" "permuted base nel zs us"
    using Suc.IH [of zs] Suc.prems permuted_length [OF zs(2)] by auto
  show ?case using sw zs us permuted_trans [OF permuted_trans [OF sw(2) zs(2)] us(2)] by simp
qed simp

lemma heapify_ok:
  assumes "base + nel \<le> length xs" "2 \<le> nel"
  shows "\<exists>ys. heapify cmp base nel xs = Returns ys \<and> permuted base nel xs ys"
proof -
  have "\<exists>ys. obind (usub nel 1) (\<lambda>e. heap_sift_down cmp base i e zs) = Returns ys \<and> permuted base nel zs ys"
    if "base + nel \<le> length zs" for i zs
    using heap_sift_down_ok [OF that, of "nel - 1" cmp i] assms(2) by (simp add: usub_def)
  then have "\<exists>ys. ofold (\<lambda>start xs. obind (usub nel 1) (\<lambda>e. heap_sift_down cmp base start e xs)) (rev [0..<(nel - 2) div 2 + 1]) xs =
      Returns ys \<and> permuted base nel xs ys" by (rule ofold_permuted [OF _ assms(1)])
  then show ?thesis using assms(2) unfolding heapify_def usub_def [of nel 2] Let_def by simp
qed

lemma heapsort_ok:
  assumes "base + nel \<le> length xs" "2 \<le> nel"
  shows "\<exists>ys. heapsort cmp base nel xs = Returns ys \<and> permuted base nel xs ys"
proof -
  obtain ys where ys: "heapify cmp base nel xs = Returns ys" "permuted base nel xs ys" using heapify_ok [OF assms] by blast
  obtain zs where zs: "heapsort_loop cmp base (nel - 1) ys = Returns zs" "permuted base nel ys zs"
    using heapsort_loop_ok [of base nel ys "nel - 1" cmp] assms permuted_length [OF ys(2)] by auto
  show ?thesis using ys zs permuted_trans [OF ys(2) zs(2)] assms(2) by (simp add: heapsort_def usub_def)
qed

lemma median_of_three_run:
  assumes "base + nel \<le> length xs" "3 \<le> nel"
    and "ys = (if cmp (xs ! (base + nel div 2)) (xs ! base) < 0 then xs[base + nel div 2 := xs ! base, base := xs ! (base + nel div 2)] else xs)"
    and "zs = ys[base + nel div 2 := ys ! (base + (nel - 1)), base + (nel - 1) := ys ! (base + nel div 2)]"
    and "us = (if cmp (zs ! (base + nel div 2)) (zs ! base) < 0 then zs[base + nel div 2 := zs ! base, base := zs ! (base + nel div 2)] else zs)"
  shows "median_of_three cmp base nel xs = Returns (nel div 2, if cmp (ys ! (base + (nel - 1))) (ys ! (base + nel div 2)) < 0 then us else ys)"
proof -
  have i: "nel div 2 < nel" "nel - 1 < nel" "0 < nel" using assms(2) by auto
  have len: "base + nel \<le> length ys" "base + nel \<le> length zs" using assms by auto
  show ?thesis
    using assms(1,2) i len by (auto simp: median_of_three_def Let_def usub_def compare_at_def swap_at_def assms(3-5))
qed

lemma median_of_three_ok:
  assumes "base + nel \<le> length xs" "3 \<le> nel"
  shows "\<exists>ys. median_of_three cmp base nel xs = Returns (nel div 2, ys) \<and> permuted base nel xs ys"
proof -
  have i: "nel div 2 < nel" "nel - 1 < nel" "0 < nel" using assms(2) by auto
  define ys where "ys = (if cmp (xs ! (base + nel div 2)) (xs ! base) < 0
    then xs[base + nel div 2 := xs ! base, base := xs ! (base + nel div 2)] else xs)"
  define zs where "zs = ys[base + nel div 2 := ys ! (base + (nel - 1)), base + (nel - 1) := ys ! (base + nel div 2)]"
  define us where "us = (if cmp (zs ! (base + nel div 2)) (zs ! base) < 0
    then zs[base + nel div 2 := zs ! base, base := zs ! (base + nel div 2)] else zs)"
  have ys: "permuted base nel xs ys" using swap_at_ok [OF assms(1) i(1,3)] by (simp add: ys_def)
  have ly: "base + nel \<le> length ys" using permuted_length [OF ys] assms(1) by simp
  have zs: "permuted base nel ys zs" using swap_at_ok [OF ly i(1,2)] by (simp add: zs_def)
  have lz: "base + nel \<le> length zs" using permuted_length [OF zs] ly by simp
  have us: "permuted base nel zs us" using swap_at_ok [OF lz i(1,3)] by (simp add: us_def)
  have "median_of_three cmp base nel xs = Returns (nel div 2, if cmp (ys ! (base + (nel - 1))) (ys ! (base + nel div 2)) < 0 then us else ys)"
    by (rule median_of_three_run [OF assms ys_def zs_def us_def])
  then show ?thesis using ys permuted_trans [OF permuted_trans [OF ys zs] us] by auto
qed

lemma partition_loop_ok:
  "base + nel \<le> length xs \<Longrightarrow> 1 \<le> i \<Longrightarrow> i \<le> j \<Longrightarrow> j \<le> n + 1 \<Longrightarrow> n + 2 \<le> nel \<Longrightarrow> pivot < nel \<Longrightarrow>
   \<exists>i' n' ys. partition_loop cmp base pivot i j n xs = Returns ((i', n'), ys) \<and> permuted base nel xs ys \<and>
     1 \<le> i' \<and> i' \<le> n' + 1 \<and> n' + 2 \<le> nel"
proof (induction "n + 1 - j" arbitrary: pivot i j n xs rule: less_induct)
  case less
  note ix = less.prems
  let ?c = "cmp (xs ! (base + j)) (xs ! (base + pivot))"
  show ?case
  proof (cases "j \<le> n")
    case True
    have c: "compare_at cmp (base + j) (base + pivot) xs = Returns ?c" using compare_at_ok [OF ix(1), of j pivot] ix True by simp
    let ?lo = "xs[base + i := xs ! (base + j), base + j := xs ! (base + i)]"
    let ?hi = "xs[base + j := xs ! (base + n), base + n := xs ! (base + j)]"
    have lo: "swap_at (base + i) (base + j) xs = Returns ?lo" "permuted base nel xs ?lo" using swap_at_ok [OF ix(1), of i j] ix True by simp_all
    have hi: "swap_at (base + j) (base + n) xs = Returns ?hi" "permuted base nel xs ?hi" using swap_at_ok [OF ix(1), of j n] ix True by simp_all
    have n1: "usub n 1 = Returns (n - 1)" using ix True by (simp add: usub_def)
    consider "?c < 0" | "?c > 0" | "?c = 0" by linarith
    then show ?thesis
    proof cases
      case 1
      have "partition_loop cmp base pivot i j n xs = partition_loop cmp base (if i = pivot then j else pivot) (i + 1) (j + 1) n ?lo"
        by (subst partition_loop.simps) (use True c lo 1 in simp)
      then show ?thesis
        using less.hyps [of n "j + 1" ?lo "i + 1" "if i = pivot then j else pivot"] ix True permuted_trans [OF lo(2)] by fastforce
    next
      case 2
      have "partition_loop cmp base pivot i j n xs = partition_loop cmp base (if n = pivot then j else pivot) i j (n - 1) ?hi"
        by (subst partition_loop.simps) (use True c hi n1 2 in simp)
      then show ?thesis
        using less.hyps [of "n - 1" j ?hi i "if n = pivot then j else pivot"] ix True permuted_trans [OF hi(2)] by fastforce
    next
      case 3
      have "partition_loop cmp base pivot i j n xs = partition_loop cmp base pivot i (j + 1) n xs"
        by (subst partition_loop.simps) (use True c 3 in simp)
      then show ?thesis using less.hyps [of n "j + 1" xs i pivot] ix True by fastforce
    qed
  next
    case False
    then show ?thesis using ix by (subst partition_loop.simps) auto
  qed
qed

lemma partition_elems_ok:
  assumes "base + nel \<le> length xs" "3 \<le> nel"
  shows "\<exists>i n ys. partition_elems cmp base nel xs = Returns ((i, n), ys) \<and> permuted base nel xs ys \<and>
    1 \<le> i \<and> i \<le> n + 1 \<and> n + 2 \<le> nel"
proof -
  obtain ys where ys: "median_of_three cmp base nel xs = Returns (nel div 2, ys)" "permuted base nel xs ys"
    using median_of_three_ok [OF assms] by blast
  have ly: "base + nel \<le> length ys" using assms(1) permuted_length [OF ys(2)] by simp
  have ix: "1 \<le> nel - 2 + 1" "nel - 2 + 2 \<le> nel" "nel div 2 < nel" using assms(2) by auto
  obtain i n zs where zs: "partition_loop cmp base (nel div 2) 1 1 (nel - 2) ys = Returns ((i, n), zs)" "permuted base nel ys zs"
    "1 \<le> i" "i \<le> n + 1" "n + 2 \<le> nel"
    using partition_loop_ok [OF ly order.refl order.refl ix, of cmp] by blast
  show ?thesis using ys zs permuted_trans [OF ys(2) zs(2)] assms(2) by (simp add: partition_elems_def usub_def)
qed

text \<open>One round of the sort, when it partitions: both parts are sorted, the first one first.\<close>

lemma introsort_helper_Suc:
  assumes "8 \<le> nel" "partition_elems cmp base nel xs = Returns ((i, n), ys)" "n + 2 \<le> nel"
  shows "introsort_helper cmp base nel (Suc d) xs =
    (if i < nel - n
     then obind (introsort_helper cmp base i d ys) (introsort_helper cmp (base + (n + 1)) (nel - (n + 1)) d)
     else obind (introsort_helper cmp (base + (n + 1)) (nel - (n + 1)) d ys) (introsort_helper cmp base i d))"
  by (subst introsort_helper.simps) (use assms in \<open>simp add: THRESHOLD_def usub_def\<close>)

lemma introsort_helper_ok:
  "base + nel \<le> length xs \<Longrightarrow> \<exists>ys. introsort_helper cmp base nel d xs = Returns ys \<and> permuted base nel xs ys"
proof (induction d arbitrary: base nel xs)
  case 0
  then show ?case
    using insertion_sort_ok [of base nel xs cmp] heapsort_ok [of base nel xs cmp] by (subst introsort_helper.simps) (auto simp: THRESHOLD_def)
next
  case (Suc d)
  show ?case
  proof (cases "nel < 8")
    case True
    then show ?thesis
      using insertion_sort_ok [OF Suc.prems, of cmp] by (subst introsort_helper.simps) (simp add: THRESHOLD_def)
  next
    case False
    then obtain i n ys where p: "partition_elems cmp base nel xs = Returns ((i, n), ys)" "permuted base nel xs ys"
      "1 \<le> i" "i \<le> n + 1" "n + 2 \<le> nel" using partition_elems_ok [OF Suc.prems, of cmp] by auto
    have ly: "base + nel \<le> length ys" using Suc.prems permuted_length [OF p(2)] by simp
    have left: "\<exists>zs. introsort_helper cmp base i d us = Returns zs \<and> permuted base nel us zs" if le: "base + nel \<le> length us" for us
    proof -
      obtain zs where zs: "introsort_helper cmp base i d us = Returns zs" "permuted base i us zs" using Suc.IH [of base i us] le p by auto
      show ?thesis using zs(1) permuted_mono [OF zs(2), of base nel] p(4,5) by auto
    qed
    have right: "\<exists>zs. introsort_helper cmp (base + (n + 1)) (nel - (n + 1)) d us = Returns zs \<and> permuted base nel us zs" if le: "base + nel \<le> length us" for us
    proof -
      obtain zs where zs: "introsort_helper cmp (base + (n + 1)) (nel - (n + 1)) d us = Returns zs"
        "permuted (base + (n + 1)) (nel - (n + 1)) us zs" using Suc.IH [of "base + (n + 1)" "nel - (n + 1)" us] le p by auto
      show ?thesis using zs(1) permuted_mono [OF zs(2), of base nel] p(5) by auto
    qed
    have step: "\<exists>us. obind (f ys) g = Returns us \<and> permuted base nel xs us"
      if f: "\<And>ys. base + nel \<le> length ys \<Longrightarrow> \<exists>zs. f ys = Returns zs \<and> permuted base nel ys zs"
        and g: "\<And>ys. base + nel \<le> length ys \<Longrightarrow> \<exists>zs. g ys = Returns zs \<and> permuted base nel ys zs" for f g
    proof -
      obtain zs where zs: "f ys = Returns zs" "permuted base nel ys zs" using f [OF ly] by blast
      obtain us where us: "g zs = Returns us" "permuted base nel zs us" using g [of zs] ly permuted_length [OF zs(2)] by auto
      show ?thesis using zs us permuted_trans [OF permuted_trans [OF p(2) zs(2)] us(2)] by simp
    qed
    show ?thesis
      using step [OF left right] step [OF right left] False p(5) by (simp add: introsort_helper_Suc [OF _ p(1,5)])
  qed
qed

lemma takeWhile_whole: "length (takeWhile P xs) = length xs \<Longrightarrow> x \<in> set xs \<Longrightarrow> P x"
  by (induction xs) (auto split: if_splits)

lemma leading_zeros_nonzero: "w \<noteq> 0 \<Longrightarrow> leading_zeros w \<le> 63"
proof (rule ccontr)
  assume "w \<noteq> 0" "\<not> leading_zeros w \<le> 63"
  then have "length (takeWhile (\<lambda>i. \<not> bit w (63 - i)) [0..<64]) = length [0..<64]"
    using length_takeWhile_le [of "\<lambda>i. \<not> bit w (63 - i)" "[0..<64]"] unfolding leading_zeros_def length_upt by linarith
  then have none: "\<not> bit w (63 - i)" if "i < 64" for i
    using takeWhile_whole [of "\<lambda>i. \<not> bit w (63 - i)" "[0..<64]" i] that unfolding set_upt by simp
  have "\<not> bit w n" for n
    using none [of "63 - n"] bit_imp_le_length [of w n] by (cases "n < 64") auto
  then show False using \<open>w \<noteq> 0\<close> by (simp add: bit_eq_iff)
qed

lemma qsort_run:
  assumes "0 < nel" "nel < 2 ^ 64"
  shows "\<exists>d. qsort (Some cmp) base nel xs = introsort_helper cmp base nel d xs"
proof -
  have "(of_nat nel :: u64) \<noteq> 0" using assms by (simp add: of_nat_eq_0_iff word_of_nat_eq_0_iff nat_dvd_not_less)
  then have "log2 (of_nat nel) = Returns (63 - leading_zeros (of_nat nel))"
    using leading_zeros_nonzero by (simp add: log2_def usub_def)
  moreover have "umul 2 (63 - k) = Returns (2 * (63 - k))" for k using diff_le_self [of 63 k] by (simp add: umul_def usize_max_def)
  ultimately show ?thesis using assms(1) by (auto simp: qsort_def introsort_def)
qed

text \<open>C25. The sort returns for every comparison function, even one that is not an order, as long as the array is as
  long as the caller says and its length fits a machine word.  It never reads or writes outside its part of the array,
  leaves the rest of the array alone and permutes its part; the loops of the partition and of the heap end whatever the
  comparisons answer.\<close>

theorem qsort_returns:
  assumes "base + nel \<le> length xs" "nel < 2 ^ 64"
  shows "\<exists>ys. qsort compar base nel xs = Returns ys \<and> length ys = length xs \<and> mset ys = mset xs \<and>
    mset (take nel (drop base ys)) = mset (take nel (drop base xs)) \<and>
    take base ys = take base xs \<and> drop (base + nel) ys = drop (base + nel) xs"
proof -
  have "\<exists>ys. qsort compar base nel xs = Returns ys \<and> permuted base nel xs ys"
  proof (cases "compar = None \<or> nel = 0")
    case False
    then obtain cmp where cmp: "compar = Some cmp" "0 < nel" by auto
    then show ?thesis using qsort_run [OF cmp(2) assms(2), of cmp base xs] introsort_helper_ok [OF assms(1)] by auto
  qed (auto simp: qsort_def split: option.splits)
  then obtain ys where ys: "qsort compar base nel xs = Returns ys" "permuted base nel xs ys" by blast
  show ?thesis using ys permuted_parts [OF ys(2) assms(1)] by (auto simp: permuted_def)
qed

section \<open>Sorting\<close>

definition sorted_on :: "'a comparison \<Rightarrow> nat \<Rightarrow> nat \<Rightarrow> 'a list \<Rightarrow> bool" where
  "sorted_on cmp base nel xs \<longleftrightarrow> (\<forall>a b. base \<le> a \<and> a < b \<and> b < base + nel \<longrightarrow> cmp (xs ! a) (xs ! b) \<le> 0)"

lemma sorted_onD: "sorted_on cmp base nel xs \<Longrightarrow> base \<le> a \<Longrightarrow> a < b \<Longrightarrow> b < base + nel \<Longrightarrow> cmp (xs ! a) (xs ! b) \<le> 0"
  by (simp add: sorted_on_def)

lemma permuted_member:
  assumes "permuted base nel xs ys" "base + nel \<le> length xs" "base \<le> a" "a < base + nel"
  obtains a' where "base \<le> a'" "a' < base + nel" "ys ! a = xs ! a'"
proof -
  have len: "length ys = length xs" using assms(1) by (simp add: permuted_def)
  have "ys ! a = take nel (drop base ys) ! (a - base)" "a - base < length (take nel (drop base ys))" using assms len by auto
  then have "ys ! a \<in> set (take nel (drop base ys))" by (metis nth_mem)
  also have "\<dots> = set (take nel (drop base xs))" using permuted_parts(3) [OF assms(1,2)] by (metis set_mset_mset)
  finally obtain k where "k < nel" "ys ! a = xs ! (base + k)" using assms(2) by (auto simp: in_set_conv_nth)
  then show ?thesis using that [of "base + k"] by simp
qed

text \<open>What the documentation of \<open>qsort\<close> asks of the comparison function: exchanging the arguments flips the sign, and
  the order is transitive.\<close>

locale consistent_comparison =
  fixes cmp :: "'a comparison"
  assumes cmp_sign: "sgn (cmp y x) = - sgn (cmp x y)"
    and cmp_trans: "cmp x y \<le> 0 \<Longrightarrow> cmp y z \<le> 0 \<Longrightarrow> cmp x z \<le> 0"
begin

lemma cmp_refl: "cmp x x = 0" using cmp_sign [of x x] by (simp add: sgn_if split: if_splits)

lemma cmp_flip: "cmp x y < 0 \<longleftrightarrow> cmp y x > 0" "cmp x y = 0 \<longleftrightarrow> cmp y x = 0" "cmp x y \<le> 0 \<longleftrightarrow> cmp y x \<ge> 0"
  using cmp_sign [of y x] by (auto simp: sgn_if split: if_splits)

lemma insertion_inner_sorted:
  assumes "base + nel \<le> length xs" "p \<le> i" "i < nel"
    and "\<And>a b. base \<le> a \<Longrightarrow> a < b \<Longrightarrow> b \<le> base + i \<Longrightarrow> b \<noteq> base + p \<Longrightarrow> cmp (xs ! a) (xs ! b) \<le> 0"
    and "insertion_inner cmp base p xs = Returns ys"
  shows "sorted_on cmp base (i + 1) ys"
  using assms
proof (induction p arbitrary: xs)
  case 0
  then show ?case by (auto simp: sorted_on_def)
next
  case (Suc p)
  note inv = Suc.prems(4)
  have c: "compare_at cmp (base + p) (base + (p + 1)) xs = Returns (cmp (xs ! (base + p)) (xs ! (base + Suc p)))"
    using Suc.prems by (simp add: compare_at_def)
  show ?case
  proof (cases "cmp (xs ! (base + p)) (xs ! (base + Suc p)) > 0")
    case True
    let ?zs = "xs[base + p := xs ! (base + Suc p), base + Suc p := xs ! (base + p)]"
    have run: "insertion_inner cmp base p ?zs = Returns ys"
      using Suc.prems c True by (simp add: swap_at_def)
    have "cmp (?zs ! a) (?zs ! b) \<le> 0" if "base \<le> a" "a < b" "b \<le> base + i" "b \<noteq> base + p" for a b
    proof (cases "b = base + Suc p")
      case b: True
      show ?thesis
      proof (cases "a = base + p")
        case True
        then show ?thesis using b cmp_flip(3) [of "xs ! (base + Suc p)" "xs ! (base + p)"] \<open>cmp (xs ! (base + p)) (xs ! (base + Suc p)) > 0\<close> Suc.prems(1-3)
          by simp
      next
        case False
        then show ?thesis using b that inv [of a "base + p"] Suc.prems(1-3) by simp
      qed
    next
      case b: False
      then have "?zs ! b = xs ! b" using that by simp
      moreover have "cmp (xs ! k) (xs ! b) \<le> 0" if "base \<le> k" "k < b" for k using inv [of k b] that b \<open>b \<le> base + i\<close> by simp
      moreover have "base + Suc p < b" if "a = base + p \<or> a = base + Suc p" using that \<open>a < b\<close> b by linarith
      ultimately show ?thesis using that Suc.prems(1-3) by (auto simp: nth_list_update)
    qed
    then show ?thesis using Suc.IH [of ?zs] run Suc.prems by auto
  next
    case False
    have "cmp (xs ! a) (xs ! b) \<le> 0" if "base \<le> a" "a < b" "b \<le> base + i" for a b
    proof (cases "b = base + Suc p")
      case True
      then consider "a = base + p" | "a < base + p" using \<open>a < b\<close> by linarith
      then show ?thesis
        using False True inv [of a "base + p"] that cmp_trans [of "xs ! a" "xs ! (base + p)" "xs ! b"] by cases auto
    qed (use inv that in simp)
    moreover have "ys = xs" using Suc.prems(5) c False by simp
    ultimately show ?thesis by (auto simp: sorted_on_def)
  qed
qed

lemma insertion_sort_sorted:
  assumes "base + nel \<le> length xs" "insertion_sort cmp base nel xs = Returns ys"
  shows "sorted_on cmp base nel ys"
proof -
  have "\<exists>zs. ofold (\<lambda>i xs. insertion_inner cmp base i xs) [0..<m] xs = Returns zs \<and> sorted_on cmp base m zs \<and> length zs = length xs"
    if "m \<le> nel" for m using that
  proof (induction m)
    case (Suc m)
    then obtain zs where zs: "ofold (\<lambda>i xs. insertion_inner cmp base i xs) [0..<m] xs = Returns zs" "sorted_on cmp base m zs" "length zs = length xs"
      by auto
    have le: "base + nel \<le> length zs" using zs(3) assms(1) by simp
    obtain us where us: "insertion_inner cmp base m zs = Returns us" "permuted base nel zs us"
      using insertion_inner_ok [OF le, of m cmp] Suc.prems by auto
    have "sorted_on cmp base (m + 1) us"
      by (rule insertion_inner_sorted [OF le order.refl _ _ us(1)]) (use Suc.prems zs(2) in \<open>auto simp: sorted_on_def\<close>)
    then show ?case using zs us permuted_length [OF us(2)] by (simp add: ofold_append)
  qed (simp add: sorted_on_def)
  from this [OF order.refl] show ?thesis using assms(2) by (auto simp: insertion_sort_def)
qed

end

text \<open>Every element of the heap from \<open>start\<close> on is at least its children, up to index \<open>e\<close>.\<close>

definition heap_from :: "'a comparison \<Rightarrow> nat \<Rightarrow> nat \<Rightarrow> nat \<Rightarrow> 'a list \<Rightarrow> bool" where
  "heap_from cmp base start e xs \<longleftrightarrow>
     (\<forall>i c. start \<le> i \<and> (c = 2 * i + 1 \<or> c = 2 * i + 2) \<and> c \<le> e \<longrightarrow> cmp (xs ! (base + c)) (xs ! (base + i)) \<le> 0)"

text \<open>The same except at \<open>root\<close>, whose children are still at most its parent.\<close>

definition heap_except :: "'a comparison \<Rightarrow> nat \<Rightarrow> nat \<Rightarrow> nat \<Rightarrow> nat \<Rightarrow> 'a list \<Rightarrow> bool" where
  "heap_except cmp base start root e xs \<longleftrightarrow>
     (\<forall>i c. start \<le> i \<and> i \<noteq> root \<and> (c = 2 * i + 1 \<or> c = 2 * i + 2) \<and> c \<le> e \<longrightarrow> cmp (xs ! (base + c)) (xs ! (base + i)) \<le> 0) \<and>
     (\<forall>p c. start \<le> p \<and> (root = 2 * p + 1 \<or> root = 2 * p + 2) \<and> (c = 2 * root + 1 \<or> c = 2 * root + 2) \<and> c \<le> e \<longrightarrow>
        cmp (xs ! (base + c)) (xs ! (base + p)) \<le> 0)"

context consistent_comparison
begin

lemma sift_target_max:
  assumes "2 * root + 1 \<le> e" "c = 2 * root + 1 \<or> c = 2 * root + 2 \<or> c = root" "c \<le> e"
  shows "cmp (xs ! (base + c)) (xs ! (base + sift_target cmp base root e xs)) \<le> 0"
proof -
  let ?first = "if cmp (xs ! (base + root)) (xs ! (base + (2 * root + 1))) < 0 then 2 * root + 1 else root"
  have first: "cmp (xs ! (base + k)) (xs ! (base + ?first)) \<le> 0" if "k = root \<or> k = 2 * root + 1" for k
    using that cmp_refl cmp_flip(3) [of "xs ! (base + (2 * root + 1))" "xs ! (base + root)"] by auto
  show ?thesis
  proof (cases "2 * root + 1 < e \<and> cmp (xs ! (base + ?first)) (xs ! (base + (2 * root + 2))) < 0")
    case True
    then have t: "sift_target cmp base root e xs = 2 * root + 2" by (auto simp: sift_target_def Let_def split: if_splits)
    show ?thesis unfolding t
      using assms(2) cmp_refl first [of c] True cmp_trans [of "xs ! (base + c)" "xs ! (base + ?first)" "xs ! (base + (2 * root + 2))"] by auto
  next
    case False
    then have t: "sift_target cmp base root e xs = ?first" by (auto simp: sift_target_def Let_def split: if_splits)
    show ?thesis unfolding t
      using assms first [of c] False cmp_flip(3) [of "xs ! (base + c)" "xs ! (base + ?first)"] by fastforce
  qed
qed

lemma heap_except_swap:
  assumes "base + nel \<le> length xs" "e < nel" "start \<le> root" "2 * root + 1 \<le> e" "heap_except cmp base start root e xs"
    and "t = sift_target cmp base root e xs" "t \<noteq> root"
  shows "heap_except cmp base start t e (xs[base + root := xs ! (base + t), base + t := xs ! (base + root)])" (is "heap_except _ _ _ _ _ ?ys")
proof -
  have t: "t = 2 * root + 1 \<or> t = 2 * root + 2" "t \<le> e"
    using sift_target_cases [where root = root and e = e and cmp = cmp and base = base and xs = xs] assms(4,6,7) by auto
  have nth: "?ys ! (base + k) = (if k = root then xs ! (base + t) else if k = t then xs ! (base + root) else xs ! (base + k))" if "k \<le> e" for k
    using that t assms(1,2,4) by (auto simp: nth_list_update)
  note max = sift_target_max [OF assms(4), where base = base and xs = xs, folded assms(6)]
  note h1 = conjunct1 [OF assms(5) [unfolded heap_except_def], rule_format]
  note h2 = conjunct2 [OF assms(5) [unfolded heap_except_def], rule_format]
  have "cmp (?ys ! (base + c)) (?ys ! (base + i)) \<le> 0" if i: "start \<le> i" "i \<noteq> t" "c = 2 * i + 1 \<or> c = 2 * i + 2" "c \<le> e" for i c
  proof (cases "i = root")
    case True
    have "c \<noteq> root" "root \<le> e" using i True assms(4) by auto
    moreover have "cmp (xs ! (base + root)) (xs ! (base + t)) \<le> 0" using max [of root] assms(4) by simp
    moreover have "cmp (xs ! (base + c)) (xs ! (base + t)) \<le> 0" using max [of c] i(3,4) True by blast
    ultimately show ?thesis unfolding nth [OF i(4)] True nth [OF \<open>root \<le> e\<close>] by simp
  next
    case False
    have "c \<noteq> t" using i(3) t(1) False by presburger
    moreover have "i \<le> e" using i(3,4) by linarith
    moreover have "cmp (xs ! (base + c)) (xs ! (base + i)) \<le> 0" using h1 [of i c] False i by blast
    moreover have "cmp (xs ! (base + t)) (xs ! (base + i)) \<le> 0" if "c = root" using h2 [of i t] that i t by blast
    ultimately show ?thesis using False i(2) unfolding nth [OF i(4)] nth [OF \<open>i \<le> e\<close>] by simp
  qed
  moreover have "cmp (?ys ! (base + c)) (?ys ! (base + p)) \<le> 0"
    if "start \<le> p" "t = 2 * p + 1 \<or> t = 2 * p + 2" "c = 2 * t + 1 \<or> c = 2 * t + 2" "c \<le> e" for p c
  proof -
    have "p = root" using that(2) t(1) by presburger
    moreover have "c \<noteq> root" "c \<noteq> t" "root \<le> e" using that(3) t(1) assms(4) by auto
    moreover have "cmp (xs ! (base + c)) (xs ! (base + t)) \<le> 0" using h1 [of t c] that t assms(3,7) by auto
    ultimately show ?thesis unfolding nth [OF that(4)] \<open>p = root\<close> nth [OF \<open>root \<le> e\<close>] by simp
  qed
  ultimately show ?thesis by (auto simp: heap_except_def)
qed

lemma heap_sift_down_heap:
  assumes "base + nel \<le> length xs" "e < nel" "start \<le> root" "heap_except cmp base start root e xs"
    and "heap_sift_down cmp base root e xs = Returns ys"
  shows "heap_from cmp base start e ys"
  using assms
proof (induction "e + 1 - root" arbitrary: root xs rule: less_induct)
  case less
  let ?t = "sift_target cmp base root e xs"
  note h1 = conjunct1 [OF less.prems(4) [unfolded heap_except_def], rule_format]
  show ?case
  proof (cases "2 * root + 1 \<le> e \<and> ?t \<noteq> root")
    case True
    let ?zs = "xs[base + root := xs ! (base + ?t), base + ?t := xs ! (base + root)]"
    have t: "root < ?t" "?t \<le> e" using True sift_target_cases [where root = root and e = e and cmp = cmp and base = base and xs = xs] by auto
    have dec: "e + 1 - ?t < e + 1 - root" using t by linarith
    have run: "heap_sift_down cmp base ?t e ?zs = Returns ys"
      using less.prems(5) True by (simp add: heap_sift_down_step [OF less.prems(1,2)])
    show ?thesis
      by (rule less.hyps [OF dec _ _ _ heap_except_swap [OF less.prems(1-3) _ less.prems(4) refl] run]) (use True t less.prems in auto)
  next
    case False
    then have "ys = xs" using less.prems(5) by (auto simp: heap_sift_down_step [OF less.prems(1,2)] split: if_splits)
    moreover have "cmp (xs ! (base + c)) (xs ! (base + i)) \<le> 0" if "start \<le> i" "c = 2 * i + 1 \<or> c = 2 * i + 2" "c \<le> e" for i c
    proof (cases "i = root")
      case True
      then show ?thesis using sift_target_max [of root e c xs base] False that by auto
    qed (use h1 that in blast)
    ultimately show ?thesis by (auto simp: heap_from_def)
  qed
qed

end

context consistent_comparison
begin

lemma heapify_heap:
  assumes "base + nel \<le> length xs" "2 \<le> nel" "heapify cmp base nel xs = Returns ys"
  shows "heap_from cmp base 0 (nel - 1) ys"
proof -
  let ?f = "\<lambda>start xs. obind (usub nel 1) (\<lambda>e. heap_sift_down cmp base start e xs)"
  have f: "?f k zs = heap_sift_down cmp base k (nel - 1) zs" for k zs using assms(2) by (simp add: usub_def)
  have "heap_from cmp base 0 (nel - 1) us"
    if "base + nel \<le> length zs" "heap_from cmp base k (nel - 1) zs" "ofold ?f (rev [0..<k]) zs = Returns us" for k zs us
    using that
  proof (induction k arbitrary: zs)
    case (Suc k)
    obtain vs where vs: "heap_sift_down cmp base k (nel - 1) zs = Returns vs" "permuted base nel zs vs"
      using heap_sift_down_ok [OF Suc.prems(1), of "nel - 1" cmp k] assms(2) by auto
    have "heap_except cmp base k k (nel - 1) zs"
      using Suc.prems(2) unfolding heap_from_def heap_except_def by (auto simp: Suc_le_eq)
    then have "heap_from cmp base k (nel - 1) vs"
      by (intro heap_sift_down_heap [OF Suc.prems(1) _ order.refl _ vs(1)]) (use assms(2) in auto)
    moreover have "ofold ?f (rev [0..<k]) vs = Returns us" using Suc.prems(3) vs(1) f [of k zs] by simp
    ultimately show ?case using Suc.IH [of vs] Suc.prems(1) permuted_length [OF vs(2)] by simp
  qed simp
  moreover have "heap_from cmp base ((nel - 2) div 2 + 1) (nel - 1) xs"
    unfolding heap_from_def using assms(2) by auto
  ultimately show ?thesis using assms unfolding heapify_def usub_def [of nel 2] Let_def by auto
qed

lemma heap_root_max:
  assumes "heap_from cmp base 0 e xs" "k \<le> e"
  shows "cmp (xs ! (base + k)) (xs ! base) \<le> 0"
  using assms(2)
proof (induction k rule: less_induct)
  case (less k)
  show ?case
  proof (cases "k = 0")
    case False
    let ?p = "(k - 1) div 2"
    have p: "?p < k" "k = 2 * ?p + 1 \<or> k = 2 * ?p + 2" using False by auto
    have "cmp (xs ! (base + k)) (xs ! (base + ?p)) \<le> 0"
      using assms(1) p(2) less.prems unfolding heap_from_def by blast
    then show ?thesis using cmp_trans less.IH [OF p(1)] p(1) less.prems by (meson le_trans less_imp_le)
  qed (simp add: cmp_refl)
qed

lemma heapsort_loop_sorted:
  assumes "base + nel \<le> length xs" "e < nel" "heap_from cmp base 0 e xs"
    and "sorted_on cmp (base + (e + 1)) (nel - (e + 1)) xs"
    and "\<And>a b. a \<le> e \<Longrightarrow> e < b \<Longrightarrow> b < nel \<Longrightarrow> cmp (xs ! (base + a)) (xs ! (base + b)) \<le> 0"
    and "heapsort_loop cmp base e xs = Returns ys"
  shows "sorted_on cmp base nel ys"
  using assms
proof (induction e arbitrary: xs)
  case 0
  have "cmp (xs ! a) (xs ! b) \<le> 0" if "base \<le> a" "a < b" "b < base + nel" for a b
    using that sorted_onD [OF "0.prems"(4), of a b] "0.prems"(5) [of 0 "b - base"] by (cases "a = base") auto
  then show ?case using "0.prems"(6) by (simp add: sorted_on_def)
next
  case (Suc e)
  let ?ys = "xs[base + Suc e := xs ! base, base := xs ! (base + Suc e)]"
  note le = Suc.prems(1,2)
  have sw: "swap_at (base + Suc e) base xs = Returns ?ys" using le by (simp add: swap_at_def)
  have nth: "?ys ! (base + k) = (if k = 0 then xs ! (base + Suc e) else if k = Suc e then xs ! base else xs ! (base + k))" for k
    using le by (auto simp: nth_list_update)
  have ly: "base + (e + 1) \<le> length ?ys" using le by simp
  obtain zs where zs: "heap_sift_down cmp base 0 e ?ys = Returns zs" "permuted base (e + 1) ?ys zs"
    using heap_sift_down_ok [OF ly, of e cmp 0] by auto
  have "heap_except cmp base 0 0 e ?ys"
    using Suc.prems(3) unfolding heap_from_def heap_except_def nth by auto
  then have heap: "heap_from cmp base 0 e zs"
    by (intro heap_sift_down_heap [OF ly _ order.refl _ zs(1)]) auto
  have outside: "zs ! (base + b) = (if b = Suc e then xs ! base else xs ! (base + b))" if "e < b" "b < nel" for b
    using permuted_outside [OF zs(2), of "base + b"] that le nth [of b] by auto
  have bound: "cmp (zs ! (base + a)) (zs ! (base + b)) \<le> 0" if ab: "a \<le> e" "e < b" "b < nel" for a b
  proof -
    obtain a' where a': "base \<le> a'" "a' < base + (e + 1)" "zs ! (base + a) = ?ys ! a'"
      by (rule permuted_member [OF zs(2) ly, of "base + a"]) (use ab in auto)
    define k where "k = (if a' = base then Suc e else a' - base)"
    have k: "k \<le> Suc e" "zs ! (base + a) = xs ! (base + k)" using a' nth [of "a' - base"] by (auto simp: k_def)
    show ?thesis
      using k outside [OF ab(2,3)] heap_root_max [OF Suc.prems(3) k(1)] Suc.prems(5) [of k b] ab by auto
  qed
  have "cmp (zs ! a) (zs ! b) \<le> 0" if ab: "base + (e + 1) \<le> a" "a < b" "b < base + (e + 1) + (nel - (e + 1))" for a b
    using outside [of "a - base"] outside [of "b - base"] ab sorted_onD [OF Suc.prems(4), of a b] Suc.prems(5) [of 0 "b - base"] le by auto
  then have "sorted_on cmp (base + (e + 1)) (nel - (e + 1)) zs" by (auto simp: sorted_on_def)
  then show ?case
    using Suc.IH [of zs] bound heap le permuted_length [OF zs(2)] Suc.prems(6) sw zs(1) by simp
qed

lemma heapsort_sorted:
  assumes "base + nel \<le> length xs" "2 \<le> nel" "heapsort cmp base nel xs = Returns ys"
  shows "sorted_on cmp base nel ys"
proof -
  obtain zs where zs: "heapify cmp base nel xs = Returns zs" "permuted base nel xs zs" using heapify_ok [OF assms(1,2)] by blast
  have run: "heapsort_loop cmp base (nel - 1) zs = Returns ys" using assms(2,3) zs(1) by (simp add: heapsort_def usub_def)
  show ?thesis
    by (rule heapsort_loop_sorted [OF _ _ heapify_heap [OF assms(1,2) zs(1)] _ _ run])
      (use assms(1,2) permuted_length [OF zs(2)] in \<open>auto simp: sorted_on_def\<close>)
qed

end

text \<open>The three classes of a partition around the value \<open>v\<close>: less before \<open>i\<close>, equal before \<open>j\<close> and greater after \<open>n\<close>.\<close>

definition classes :: "'a comparison \<Rightarrow> nat \<Rightarrow> nat \<Rightarrow> 'a \<Rightarrow> nat \<Rightarrow> nat \<Rightarrow> nat \<Rightarrow> 'a list \<Rightarrow> bool" where
  "classes cmp base nel v i j n xs \<longleftrightarrow>
     (\<forall>k. 1 \<le> k \<and> k < i \<longrightarrow> cmp (xs ! (base + k)) v < 0) \<and> (\<forall>k. i \<le> k \<and> k < j \<longrightarrow> cmp (xs ! (base + k)) v = 0) \<and>
     (\<forall>k. n < k \<and> k + 1 < nel \<longrightarrow> cmp (xs ! (base + k)) v > 0)"

lemma classes_less:
  assumes "classes cmp base nel v i j n xs" "base + nel \<le> length xs" "1 \<le> i" "i \<le> j" "j \<le> n" "n + 2 \<le> nel" "cmp (xs ! (base + j)) v < 0"
  shows "classes cmp base nel v (i + 1) (j + 1) n (xs[base + i := xs ! (base + j), base + j := xs ! (base + i)])"
  using assms by (auto simp: classes_def nth_list_update less_Suc_eq)

lemma classes_greater:
  assumes "classes cmp base nel v i j n xs" "base + nel \<le> length xs" "1 \<le> i" "i \<le> j" "j \<le> n" "n + 2 \<le> nel" "cmp (xs ! (base + j)) v > 0"
  shows "classes cmp base nel v i j (n - 1) (xs[base + j := xs ! (base + n), base + n := xs ! (base + j)])"
proof -
  have "cmp (xs ! (base + k)) v > 0 \<or> k = n" if "n - 1 < k" "k + 1 < nel" for k
    using assms(1,5) that unfolding classes_def by (cases "k = n") auto
  then show ?thesis using assms by (auto simp: classes_def nth_list_update)
qed

context consistent_comparison
begin

lemma partition_loop_classes:
  assumes "base + nel \<le> length xs" "1 \<le> i" "i \<le> j" "j \<le> n + 1" "n + 2 \<le> nel" "i \<le> pivot" "pivot \<le> n"
    and "xs ! (base + pivot) = v" "classes cmp base nel v i j n xs"
    and "partition_loop cmp base pivot i j n xs = Returns ((i', n'), ys)"
  shows "classes cmp base nel v i' (n' + 1) n' ys \<and> permuted (base + 1) (nel - 2) xs ys \<and> i' \<le> n'"
  using assms
proof (induction "n + 1 - j" arbitrary: pivot i j n xs rule: less_induct)
  case less
  note ix = less.prems(1-7)
  show ?case
  proof (cases "j \<le> n")
    case True
    let ?c = "cmp (xs ! (base + j)) v"
    have c: "compare_at cmp (base + j) (base + pivot) xs = Returns ?c" using ix True less.prems(8) by (simp add: compare_at_def)
    have ne: "j \<noteq> pivot" if "?c \<noteq> 0" using that less.prems(8) cmp_refl by auto
    let ?lo = "xs[base + i := xs ! (base + j), base + j := xs ! (base + i)]"
    let ?hi = "xs[base + j := xs ! (base + n), base + n := xs ! (base + j)]"
    have lo: "swap_at (base + i) (base + j) xs = Returns ?lo" "permuted (base + 1) (nel - 2) xs ?lo"
      using ix True by (auto simp: swap_at_def intro!: permuted_swap)
    have hi: "swap_at (base + j) (base + n) xs = Returns ?hi" "permuted (base + 1) (nel - 2) xs ?hi"
      using ix True by (auto simp: swap_at_def intro!: permuted_swap)
    have n1: "usub n 1 = Returns (n - 1)" using ix True by (simp add: usub_def)
    consider "?c < 0" | "?c > 0" | "?c = 0" by linarith
    then show ?thesis
    proof cases
      case 1
      have run: "partition_loop cmp base (if i = pivot then j else pivot) (i + 1) (j + 1) n ?lo = Returns ((i', n'), ys)"
        using less.prems(10) by (subst (asm) partition_loop.simps) (use True c lo 1 in simp)
      have "?lo ! (base + (if i = pivot then j else pivot)) = v" using less.prems(8) ne 1 ix True by (auto simp: nth_list_update)
      then show ?thesis
        using less.hyps [OF _ _ _ _ _ _ _ _ _ classes_less [OF less.prems(9) ix(1-3) True ix(5) 1] run] ix True ne 1 permuted_trans [OF lo(2)]
        by force
    next
      case 2
      have run: "partition_loop cmp base (if n = pivot then j else pivot) i j (n - 1) ?hi = Returns ((i', n'), ys)"
        using less.prems(10) by (subst (asm) partition_loop.simps) (use True c hi n1 2 in simp)
      have "?hi ! (base + (if n = pivot then j else pivot)) = v" using less.prems(8) ne 2 ix True by (auto simp: nth_list_update)
      then show ?thesis
        using less.hyps [OF _ _ _ _ _ _ _ _ _ classes_greater [OF less.prems(9) ix(1-3) True ix(5) 2] run] ix True ne 2 permuted_trans [OF hi(2)]
        by force
    next
      case 3
      have run: "partition_loop cmp base pivot i (j + 1) n xs = Returns ((i', n'), ys)"
        using less.prems(10) by (subst (asm) partition_loop.simps) (use True c 3 in simp)
      have cl: "classes cmp base nel v i (j + 1) n xs" using less.prems(9) 3 by (auto simp: classes_def less_Suc_eq)
      show ?thesis using less.hyps [OF _ _ _ _ _ _ _ _ less.prems(8) cl run] ix True by force
    qed
  next
    case False
    then have j: "j = n + 1" using ix by linarith
    have "i' = i \<and> n' = n \<and> ys = xs" using less.prems(10) False by (subst (asm) partition_loop.simps) simp
    then show ?thesis using less.prems(9) ix unfolding j by auto
  qed
qed

end

text \<open>A partition: at most \<open>v\<close> before \<open>i\<close>, equal to \<open>v\<close> up to \<open>n\<close> and at least \<open>v\<close> after.\<close>

definition split_at :: "'a comparison \<Rightarrow> nat \<Rightarrow> nat \<Rightarrow> 'a \<Rightarrow> nat \<Rightarrow> nat \<Rightarrow> 'a list \<Rightarrow> bool" where
  "split_at cmp base nel v i n xs \<longleftrightarrow>
     (\<forall>k < nel. (k \<le> n \<longrightarrow> cmp (xs ! (base + k)) v \<le> 0) \<and> (i \<le> k \<longrightarrow> cmp v (xs ! (base + k)) \<le> 0))"

context consistent_comparison
begin

lemma median_of_three_ordered:
  assumes "base + nel \<le> length xs" "3 \<le> nel" "median_of_three cmp base nel xs = Returns (m, ys)"
  shows "m = nel div 2 \<and> cmp (ys ! base) (ys ! (base + m)) \<le> 0 \<and> cmp (ys ! (base + m)) (ys ! (base + (nel - 1))) \<le> 0"
proof -
  have i: "0 < nel div 2" "nel div 2 < nel - 1" "nel - 1 < nel" "nel div 2 \<noteq> nel - 1" using assms(2) by auto
  define ys1 where "ys1 = (if cmp (xs ! (base + nel div 2)) (xs ! base) < 0
    then xs[base + nel div 2 := xs ! base, base := xs ! (base + nel div 2)] else xs)"
  define zs where "zs = ys1[base + nel div 2 := ys1 ! (base + (nel - 1)), base + (nel - 1) := ys1 ! (base + nel div 2)]"
  define us where "us = (if cmp (zs ! (base + nel div 2)) (zs ! base) < 0
    then zs[base + nel div 2 := zs ! base, base := zs ! (base + nel div 2)] else zs)"
  have len: "length ys1 = length xs" "length zs = length xs" by (simp_all add: ys1_def zs_def)
  have "median_of_three cmp base nel xs = Returns (nel div 2, if cmp (ys1 ! (base + (nel - 1))) (ys1 ! (base + nel div 2)) < 0 then us else ys1)"
    by (rule median_of_three_run [OF assms(1,2) ys1_def zs_def us_def])
  then have run: "m = nel div 2" "ys = (if cmp (ys1 ! (base + (nel - 1))) (ys1 ! (base + nel div 2)) < 0 then us else ys1)"
    using assms(3) by auto
  have o1: "cmp (ys1 ! base) (ys1 ! (base + nel div 2)) \<le> 0"
    using i assms(1) cmp_flip(3) [of "xs ! base" "xs ! (base + nel div 2)"] by (auto simp: ys1_def nth_list_update)
  show ?thesis
  proof (cases "cmp (ys1 ! (base + (nel - 1))) (ys1 ! (base + nel div 2)) < 0")
    case False
    then show ?thesis using run o1 cmp_flip(3) [of "ys1 ! (base + nel div 2)" "ys1 ! (base + (nel - 1))"] by simp
  next
    case True
    have z: "zs ! base = ys1 ! base" "zs ! (base + nel div 2) = ys1 ! (base + (nel - 1))" "zs ! (base + (nel - 1)) = ys1 ! (base + nel div 2)"
      using i assms(1) len by (simp_all add: zs_def)
    have u: "us ! (base + (nel - 1)) = ys1 ! (base + nel div 2)" using z i assms(1) len by (simp add: us_def)
    show ?thesis
    proof (cases "cmp (zs ! (base + nel div 2)) (zs ! base) < 0")
      case swap: True
      then have "us ! base = zs ! (base + nel div 2)" "us ! (base + nel div 2) = zs ! base" using i assms(1) len by (simp_all add: us_def)
      then show ?thesis using run True u swap z o1 by simp
    next
      case noswap: False
      then have "us = zs" by (simp add: us_def)
      then show ?thesis using run True u noswap z cmp_flip(3) [of "zs ! base" "zs ! (base + nel div 2)"] by simp
    qed
  qed
qed

lemma partition_elems_split:
  assumes "base + nel \<le> length xs" "4 \<le> nel" "partition_elems cmp base nel xs = Returns ((i, n), ys)"
  shows "\<exists>v. split_at cmp base nel v i n ys" "i \<le> n"
proof -
  obtain zs where zs: "median_of_three cmp base nel xs = Returns (nel div 2, zs)" "permuted base nel xs zs"
    using median_of_three_ok [OF assms(1), of cmp] assms(2) by auto
  have lz: "base + nel \<le> length zs" using assms(1) permuted_length [OF zs(2)] by simp
  let ?v = "zs ! (base + nel div 2)"
  have ends: "cmp (zs ! base) ?v \<le> 0" "cmp ?v (zs ! (base + (nel - 1))) \<le> 0"
    using median_of_three_ordered [OF assms(1) _ zs(1)] assms(2) by auto
  have run: "partition_loop cmp base (nel div 2) 1 1 (nel - 2) zs = Returns ((i, n), ys)"
    using assms(2,3) zs(1) by (simp add: partition_elems_def usub_def)
  have res: "classes cmp base nel ?v i (n + 1) n ys \<and> permuted (base + 1) (nel - 2) zs ys \<and> i \<le> n"
    by (rule partition_loop_classes [OF lz _ _ _ _ _ _ refl _ run]) (use assms(2) in \<open>auto simp: classes_def\<close>)
  then have cl: "classes cmp base nel ?v i (n + 1) n ys" and pm: "permuted (base + 1) (nel - 2) zs ys" and "i \<le> n" by blast+
  have "ys ! base = zs ! base" using permuted_outside [OF pm, of base] lz assms(2) by auto
  moreover have "ys ! (base + (nel - 1)) = zs ! (base + (nel - 1))" 
    by (rule permuted_outside [OF pm]) (use lz assms(2) in linarith)+
  moreover have ix: "n + 2 \<le> nel" "1 \<le> i" using partition_elems_ok [OF assms(1), of cmp] assms(2,3) by auto
  moreover have inner: "cmp (ys ! (base + k)) ?v < 0 \<and> k < i \<or> cmp (ys ! (base + k)) ?v = 0 \<and> i \<le> k \<and> k \<le> n \<or> cmp (ys ! (base + k)) ?v > 0 \<and> n < k"
    if "1 \<le> k" "k + 1 < nel" for k
    using cl that unfolding classes_def by (cases "k < i"; cases "k \<le> n") auto
  moreover have "(k \<le> n \<longrightarrow> cmp (ys ! (base + k)) ?v \<le> 0) \<and> (i \<le> k \<longrightarrow> cmp ?v (ys ! (base + k)) \<le> 0)" if "k < nel" for k
  proof -
    consider "k = 0" | "k = nel - 1" | "1 \<le> k" "k + 1 < nel" using \<open>k < nel\<close> by linarith
    then show ?thesis
    proof cases
      case 1
      then show ?thesis using ends(1) \<open>ys ! base = zs ! base\<close> \<open>1 \<le> i\<close> by simp
    next
      case 2
      then have "\<not> k \<le> n" using \<open>n + 2 \<le> nel\<close> by linarith
      then show ?thesis using ends(2) \<open>ys ! (base + (nel - 1)) = zs ! (base + (nel - 1))\<close> 2 by simp
    next
      case 3
      then show ?thesis using inner [OF 3] cmp_flip(3) [of ?v "ys ! (base + k)"] by auto
    qed
  qed
  ultimately show "\<exists>v. split_at cmp base nel v i n ys" "i \<le> n" using \<open>i \<le> n\<close> by (auto simp: split_at_def)
qed

text \<open>Sorting both outer parts of a partition sorts the whole.\<close>

lemma split_sorted:
  assumes "split_at cmp base nel v i n ys" "i \<le> n" "n < nel"
    and "sorted_on cmp base i us" "sorted_on cmp (base + (n + 1)) (nel - (n + 1)) us"
    and left: "\<And>a. base \<le> a \<Longrightarrow> a < base + i \<Longrightarrow> \<exists>a'. base \<le> a' \<and> a' < base + i \<and> us ! a = ys ! a'"
    and middle: "\<And>a. base + i \<le> a \<Longrightarrow> a \<le> base + n \<Longrightarrow> us ! a = ys ! a"
    and right: "\<And>a. base + n < a \<Longrightarrow> a < base + nel \<Longrightarrow> \<exists>a'. base + n < a' \<and> a' < base + nel \<and> us ! a = ys ! a'"
  shows "sorted_on cmp base nel us"
proof -
  have lo: "cmp (us ! a) v \<le> 0" if a: "base \<le> a" "a \<le> base + n" for a
  proof -
    obtain a' where "base \<le> a'" "a' \<le> base + n" "us ! a = ys ! a'" using left [of a] middle [of a] a assms(2) by (cases "a < base + i") fastforce+
    then show ?thesis using assms(1,3) unfolding split_at_def by (auto dest!: spec [of _ "a' - base"])
  qed
  have hi: "cmp v (us ! a) \<le> 0" if a: "base + i \<le> a" "a < base + nel" for a
  proof -
    have "\<exists>a'. base + i \<le> a' \<and> a' < base + nel \<and> us ! a = ys ! a'"
    proof (cases "a \<le> base + n")
      case False
      then obtain a' where "base + n < a'" "a' < base + nel" "us ! a = ys ! a'" using right [of a] a(2) by auto
      then show ?thesis using assms(2) by (intro exI [of _ a']) simp
    qed (use middle [of a] a in blast)
    then obtain a' where "base + i \<le> a'" "a' < base + nel" "us ! a = ys ! a'" by blast
    then show ?thesis using assms(1) unfolding split_at_def by (auto dest!: spec [of _ "a' - base"])
  qed
  have "cmp (us ! a) (us ! b) \<le> 0" if ab: "base \<le> a" "a < b" "b < base + nel" for a b
  proof -
    consider "b < base + i" | "base + n < a" | "a \<le> base + n" "base + i \<le> b" using assms(2) by linarith
    then show ?thesis
    proof cases
      case 1
      then show ?thesis using sorted_onD [OF assms(4)] ab by simp
    next
      case 2
      then show ?thesis using sorted_onD [OF assms(5), of a b] ab assms(3) by simp
    next
      case 3
      then show ?thesis using cmp_trans [OF lo hi] ab by simp
    qed
  qed
  then show ?thesis by (simp add: sorted_on_def)
qed

end

context consistent_comparison
begin

lemma sorted_on_outside:
  assumes "sorted_on cmp b n xs" "permuted b' n' xs ys" "b + n \<le> b' \<or> b' + n' \<le> b" "b + n \<le> length xs"
  shows "sorted_on cmp b n ys"
proof -
  have "ys ! k = xs ! k" if "b \<le> k" "k < b + n" for k by (rule permuted_outside [OF assms(2)]) (use that assms(3,4) in auto)
  then show ?thesis using assms(1) by (auto simp: sorted_on_def)
qed

lemma two_parts_sorted:
  assumes "split_at cmp base nel v i n ys" "i \<le> n" "n + 2 \<le> nel" "base + nel \<le> length ys"
    and "permuted base i ys zs \<and> sorted_on cmp base i zs \<and>
        permuted (base + (n + 1)) (nel - (n + 1)) zs us \<and> sorted_on cmp (base + (n + 1)) (nel - (n + 1)) us \<or>
      permuted (base + (n + 1)) (nel - (n + 1)) ys zs \<and> sorted_on cmp (base + (n + 1)) (nel - (n + 1)) zs \<and>
        permuted base i zs us \<and> sorted_on cmp base i us"
  shows "sorted_on cmp base nel us"
proof (rule split_sorted [OF assms(1,2)])
  let ?r = "base + (n + 1)" and ?m = "nel - (n + 1)"
  have len: "length zs = length ys" using assms(5) by (auto dest: permuted_length)
  have rl: "?r + ?m = base + nel" using assms(3) by simp
  show "sorted_on cmp base i us" "sorted_on cmp ?r ?m us"
    using assms(5) sorted_on_outside [of base i zs ?r ?m us] sorted_on_outside [of ?r ?m zs base i us] assms(2,4) len rl by auto
  show "\<exists>a'. base \<le> a' \<and> a' < base + i \<and> us ! a = ys ! a'" if a: "base \<le> a" "a < base + i" for a
    using assms(5)
  proof (elim disjE conjE)
    assume p: "permuted base i ys zs" and q: "permuted ?r ?m zs us"
    have "us ! a = zs ! a" using permuted_outside [OF q, of a] a assms(2-4) len by auto
    moreover obtain a' where "base \<le> a'" "a' < base + i" "zs ! a = ys ! a'" by (rule permuted_member [OF p _ a]) (use assms(2-4) in auto)
    ultimately show ?thesis by auto
  next
    assume p: "permuted ?r ?m ys zs" and q: "permuted base i zs us"
    obtain a' where "base \<le> a'" "a' < base + i" "us ! a = zs ! a'" by (rule permuted_member [OF q _ a]) (use assms(2-4) len in auto)
    moreover have "zs ! a' = ys ! a'" using permuted_outside [OF p, of a'] \<open>a' < base + i\<close> assms(2-4) by auto
    ultimately show ?thesis by auto
  qed
  show "us ! a = ys ! a" if "base + i \<le> a" "a \<le> base + n" for a
    using assms(5) that assms(3,4) len permuted_outside [of base i ys zs a] permuted_outside [of ?r ?m zs us a]
      permuted_outside [of ?r ?m ys zs a] permuted_outside [of base i zs us a] by auto
  show "\<exists>a'. base + n < a' \<and> a' < base + nel \<and> us ! a = ys ! a'" if a: "base + n < a" "a < base + nel" for a
    using assms(5)
  proof (elim disjE conjE)
    assume p: "permuted base i ys zs" and q: "permuted ?r ?m zs us"
    obtain a' where "?r \<le> a'" "a' < ?r + ?m" "us ! a = zs ! a'" by (rule permuted_member [OF q, of a]) (use a assms(2-4) len rl in auto)
    moreover have "zs ! a' = ys ! a'" using permuted_outside [OF p, of a'] \<open>?r \<le> a'\<close> \<open>a' < ?r + ?m\<close> assms(2-4) rl by auto
    ultimately show ?thesis using rl by (intro exI [of _ a']) auto
  next
    assume p: "permuted ?r ?m ys zs" and q: "permuted base i zs us"
    have "us ! a = zs ! a" using permuted_outside [OF q, of a] a assms(2-4) len by auto
    moreover obtain a' where "?r \<le> a'" "a' < ?r + ?m" "zs ! a = ys ! a'" by (rule permuted_member [OF p, of a]) (use a assms(2-4) rl in auto)
    ultimately show ?thesis using rl by (intro exI [of _ a']) auto
  qed
qed (use assms(3) in simp)

lemma introsort_helper_sorted:
  "base + nel \<le> length xs \<Longrightarrow> introsort_helper cmp base nel d xs = Returns ys \<Longrightarrow> sorted_on cmp base nel ys"
proof (induction d arbitrary: base nel xs ys)
  case 0
  show ?case
  proof (cases "nel < 8")
    case True
    then show ?thesis using insertion_sort_sorted [OF "0.prems"(1)] "0.prems"(2) by (subst (asm) introsort_helper.simps) (simp add: THRESHOLD_def)
  next
    case False
    then show ?thesis using heapsort_sorted [OF "0.prems"(1)] "0.prems"(2) by (subst (asm) introsort_helper.simps) (simp add: THRESHOLD_def)
  qed
next
  case (Suc d)
  show ?case
  proof (cases "nel < 8")
    case True
    then show ?thesis using insertion_sort_sorted [OF Suc.prems(1)] Suc.prems(2) by (subst (asm) introsort_helper.simps) (simp add: THRESHOLD_def)
  next
    case False
    then obtain i n zs where p: "partition_elems cmp base nel xs = Returns ((i, n), zs)" "permuted base nel xs zs" "1 \<le> i" "n + 2 \<le> nel"
      using partition_elems_ok [OF Suc.prems(1), of cmp] by auto
    obtain v where v: "split_at cmp base nel v i n zs" "i \<le> n" using partition_elems_split [OF Suc.prems(1) _ p(1)] False by auto
    have lz: "base + nel \<le> length zs" using Suc.prems(1) permuted_length [OF p(2)] by simp
    let ?L = "introsort_helper cmp base i d" and ?R = "introsort_helper cmp (base + (n + 1)) (nel - (n + 1)) d"
    have left: "\<exists>us. ?L ws = Returns us \<and> permuted base i ws us \<and> sorted_on cmp base i us" if "length ws = length zs" for ws
      using introsort_helper_ok [of base i ws cmp d] Suc.IH [of base i ws] that lz v(2) p(4) by auto
    have right: "\<exists>us. ?R ws = Returns us \<and> permuted (base + (n + 1)) (nel - (n + 1)) ws us \<and> sorted_on cmp (base + (n + 1)) (nel - (n + 1)) us"
      if "length ws = length zs" for ws
      using introsort_helper_ok [of "base + (n + 1)" "nel - (n + 1)" ws cmp d] Suc.IH [of "base + (n + 1)" "nel - (n + 1)" ws] that lz p(4) by auto
    have run: "Returns ys = (if i < nel - n then obind (?L zs) ?R else obind (?R zs) ?L)"
      using Suc.prems(2) False introsort_helper_Suc [OF _ p(1,4), of d] by simp
    show ?thesis
    proof (cases "i < nel - n")
      case True
      obtain us where us: "?L zs = Returns us" "permuted base i zs us" "sorted_on cmp base i us" using left [OF refl] by blast
      have "?R us = Returns ys" using run True us(1) by simp
      then have "permuted (base + (n + 1)) (nel - (n + 1)) us ys \<and> sorted_on cmp (base + (n + 1)) (nel - (n + 1)) ys"
        using right [of us] permuted_length [OF us(2)] by auto
      then show ?thesis using two_parts_sorted [OF v p(4) lz] us by blast
    next
      case False
      obtain us where us: "?R zs = Returns us" "permuted (base + (n + 1)) (nel - (n + 1)) zs us" "sorted_on cmp (base + (n + 1)) (nel - (n + 1)) us"
        using right [OF refl] by blast
      have "?L us = Returns ys" using run False us(1) by simp
      then have "permuted base i us ys \<and> sorted_on cmp base i ys" using left [of us] permuted_length [OF us(2)] by auto
      then show ?thesis using two_parts_sorted [OF v p(4) lz] us by blast
    qed
  qed
qed

end

text \<open>C19. With a comparison function that is consistent, \<open>qsort\<close> returns the array sorted: every element of the part
  is at most each later one, the part is a permutation of what it was, and the rest of the array is unchanged.  The
  insertion sort of short parts, the partition into three classes around the median of three and the heap sort at the
  depth limit all contribute.\<close>

theorem qsort_sorts:
  assumes "consistent_comparison cmp" "base + nel \<le> length xs" "nel < 2 ^ 64"
  shows "\<exists>ys. qsort (Some cmp) base nel xs = Returns ys \<and> sorted_wrt (\<lambda>x y. cmp x y \<le> 0) (take nel (drop base ys)) \<and>
    mset (take nel (drop base ys)) = mset (take nel (drop base xs)) \<and>
    take base ys = take base xs \<and> drop (base + nel) ys = drop (base + nel) xs"
proof (cases "nel = 0")
  case True
  then show ?thesis by (simp add: qsort_def)
next
  case False
  then obtain d where run: "qsort (Some cmp) base nel xs = introsort_helper cmp base nel d xs" using qsort_run [OF _ assms(3)] by blast
  obtain ys where ys: "introsort_helper cmp base nel d xs = Returns ys" "permuted base nel xs ys" using introsort_helper_ok [OF assms(2)] by blast
  have len: "length ys = length xs" by (rule permuted_length [OF ys(2)])
  have "sorted_on cmp base nel ys" by (rule consistent_comparison.introsort_helper_sorted [OF assms(1,2) ys(1)])
  then have "sorted_wrt (\<lambda>x y. cmp x y \<le> 0) (take nel (drop base ys))"
    using assms(2) len by (auto simp: sorted_wrt_iff_nth_less sorted_on_def)
  then show ?thesis using run ys permuted_parts [OF ys(2) assms(2)] by auto
qed

section \<open>Exchanging elements in memory\<close>

definition BUFSIZE :: nat where "BUFSIZE = 128"

text \<open>\<open>copy_from_nonoverlapping\<close>, from memory and from the buffer.\<close>

definition copy_bytes :: "nat \<Rightarrow> nat \<Rightarrow> nat \<Rightarrow> (nat \<Rightarrow> u8) \<Rightarrow> nat \<Rightarrow> u8" where
  "copy_bytes dst src n mem = (\<lambda>a. if dst \<le> a \<and> a < dst + n then mem (src + (a - dst)) else mem a)"

definition copy_buffer :: "nat \<Rightarrow> u8 list \<Rightarrow> (nat \<Rightarrow> u8) \<Rightarrow> nat \<Rightarrow> u8" where
  "copy_buffer dst buf mem = (\<lambda>a. if dst \<le> a \<and> a < dst + length buf then buf ! (a - dst) else mem a)"

function swap_bytes :: "nat \<Rightarrow> nat \<Rightarrow> nat \<Rightarrow> (nat \<Rightarrow> u8) \<Rightarrow> nat \<Rightarrow> u8" where
  "swap_bytes ptr1 ptr2 width mem =
     (if width > 0 then
        let copy_size = min BUFSIZE width;
            buf = map (\<lambda>k. mem (ptr1 + k)) [0..<copy_size];
            mem = copy_bytes ptr1 ptr2 copy_size mem;
            mem = copy_buffer ptr2 buf mem in
        swap_bytes (ptr1 + copy_size) (ptr2 + copy_size) (width - copy_size) mem
      else mem)"
  by pat_completeness auto

termination
  by (relation "measure (\<lambda>(ptr1, ptr2, width, mem). width)") (auto simp: BUFSIZE_def)

declare swap_bytes.simps [simp del]

text \<open>The elements of an array in memory.\<close>

definition elements :: "nat \<Rightarrow> nat \<Rightarrow> nat \<Rightarrow> (nat \<Rightarrow> u8) \<Rightarrow> u8 list list" where
  "elements base width nel mem = map (\<lambda>i. map (\<lambda>k. mem (base + i * width + k)) [0..<width]) [0..<nel]"

lemma swap_bytes_blocks:
  assumes "p + width \<le> q \<or> q + width \<le> p \<or> p = q"
  shows "swap_bytes p q width mem = (\<lambda>a. if p \<le> a \<and> a < p + width then mem (q + (a - p))
    else if q \<le> a \<and> a < q + width then mem (p + (a - q)) else mem a)"
  using assms
proof (induction width arbitrary: p q mem rule: less_induct)
  case (less width)
  show ?case
  proof (cases "width = 0")
    case True
    then show ?thesis by (subst swap_bytes.simps) (auto simp: fun_eq_iff)
  next
    case False
    define n where "n = min BUFSIZE width"
    have n: "0 < n" "n \<le> width" using False by (auto simp: n_def BUFSIZE_def)
    define mem' where "mem' = copy_buffer q (map (\<lambda>k. mem (p + k)) [0..<n]) (copy_bytes p q n mem)"
    have run: "swap_bytes p q width mem = swap_bytes (p + n) (q + n) (width - n) mem'"
      using False by (subst swap_bytes.simps) (simp add: Let_def n_def mem'_def)
    have at: "mem' a = (if q \<le> a \<and> a < q + n then mem (p + (a - q)) else if p \<le> a \<and> a < p + n then mem (q + (a - p)) else mem a)" for a
    proof (cases "q \<le> a \<and> a < q + n")
      case True
      then have "a - q < n" by linarith
      then show ?thesis using True unfolding mem'_def copy_buffer_def by simp
    next
      case False
      then show ?thesis unfolding mem'_def copy_buffer_def copy_bytes_def by auto
    qed
    have disj: "p + n + (width - n) \<le> q + n \<or> q + n + (width - n) \<le> p + n \<or> p + n = q + n" using n less.prems by linarith
    have tail: "mem' (y + n + (a - (x + n))) = mem (y + (a - x))" if "x = p \<and> y = q \<or> x = q \<and> y = p" "x + n \<le> a" "a < x + width" for x y a
    proof -
      have off: "y + n + (a - (x + n)) = y + (a - x)" "n \<le> a - x" "a - x < width" using that(2,3) by linarith+
      have "\<not> (p \<le> y + (a - x) \<and> y + (a - x) < p + n)" "\<not> (q \<le> y + (a - x) \<and> y + (a - x) < q + n)"
        using that(1) less.prems n off(2,3) by linarith+
      then show ?thesis unfolding off(1) at by (simp only: if_False)
    qed
    have IH: "swap_bytes (p + n) (q + n) (width - n) mem' a = (if p + n \<le> a \<and> a < p + n + (width - n) then mem' (q + n + (a - (p + n)))
        else if q + n \<le> a \<and> a < q + n + (width - n) then mem' (p + n + (a - (q + n))) else mem' a)" for a
      using less.IH [OF _ disj, of mem'] n by simp
    show ?thesis
    proof
      fix a
      consider "p + n \<le> a" "a < p + width" | "q + n \<le> a" "a < q + width" "\<not> (p + n \<le> a \<and> a < p + width)"
        | "\<not> (p + n \<le> a \<and> a < p + width)" "\<not> (q + n \<le> a \<and> a < q + width)" by blast
      then show "swap_bytes p q width mem a = (if p \<le> a \<and> a < p + width then mem (q + (a - p))
          else if q \<le> a \<and> a < q + width then mem (p + (a - q)) else mem a)"
      proof cases
        case 1
        then show ?thesis using n tail [of p q a] unfolding run IH by simp
      next
        case 2
        have "\<not> (p \<le> a \<and> a < p + width)" using 2 less.prems n by linarith
        then show ?thesis using 2 n tail [of q p a] unfolding run IH by auto
      next
        case 3
        have "swap_bytes p q width mem a = mem' a" using 3 n unfolding run IH by auto
        moreover have "q \<le> a \<and> a < q + n \<longleftrightarrow> q \<le> a \<and> a < q + width" "p \<le> a \<and> a < p + n \<longleftrightarrow> p \<le> a \<and> a < p + width" using 3 n by linarith+
        moreover have "\<not> (p \<le> a \<and> a < p + width \<and> q \<le> a \<and> a < q + width) \<or> p = q" using less.prems by linarith
        ultimately show ?thesis unfolding at by auto
      qed
    qed
  qed
qed

lemma block_of: "i * width \<le> m * width + k \<and> m * width + k < i * width + width \<longleftrightarrow> m = i" if "k < width" for i m k width :: nat
proof
  assume "i * width \<le> m * width + k \<and> m * width + k < i * width + width"
  then obtain l where "m * width + k = i * width + l" "l < width" by (metis le_add_diff_inverse nat_add_left_cancel_less)
  then show "m = i" using that by (metis div_mult_self3 div_less add.commute add.right_neutral mult.commute not_less_zero less_nat_zero_code
      div_mult_self1 gr_implies_not0)
qed (use that in simp)

text \<open>Exchanging two elements byte by byte through the buffer of 128 bytes is exchanging them in the array: for
  elements of every width, also when an element is exchanged with itself, and no other byte of memory changes.\<close>

lemma swap_exchanges_elements:
  assumes "i < nel" "j < nel"
  shows "swap_at i j (elements base width nel mem) =
      Returns (elements base width nel (swap_bytes (base + i * width) (base + j * width) width mem)) \<and>
    (\<forall>a. a < base \<or> base + nel * width \<le> a \<longrightarrow> swap_bytes (base + i * width) (base + j * width) width mem a = mem a)"
proof -
  let ?p = "base + i * width" and ?q = "base + j * width"
  have "i * width + width \<le> j * width \<or> j * width + width \<le> i * width \<or> i = j"
    by (metis add.commute less_le_not_le linorder_neqE_nat mult_Suc mult_le_mono1 not_less_eq_eq)
  then have "?p + width \<le> ?q \<or> ?q + width \<le> ?p \<or> ?p = ?q" by auto
  note swap = swap_bytes_blocks [OF this, of mem]
  have inside: "i * width + width \<le> nel * width" "j * width + width \<le> nel * width"
    using assms mult_le_mono1 [of "Suc i" nel width] mult_le_mono1 [of "Suc j" nel width] by auto
  have at: "swap_bytes ?p ?q width mem (base + m * width + k) =
      mem (base + (if m = i then j else if m = j then i else m) * width + k)" if "k < width" for m k
    using block_of [OF that, of i m] block_of [OF that, of j m] unfolding swap by auto
  have "(elements base width nel mem)[i := elements base width nel mem ! j, j := elements base width nel mem ! i] =
      elements base width nel (swap_bytes ?p ?q width mem)"
    by (rule nth_equalityI) (use assms at in \<open>auto simp: elements_def nth_list_update\<close>)
  moreover have "swap_bytes ?p ?q width mem a = mem a" if "a < base \<or> base + nel * width \<le> a" for a
    using that inside unfolding swap by auto
  ultimately show ?thesis using assms by (simp add: swap_at_def elements_def)
qed

section \<open>Binary search\<close>

text \<open>\<open>rd\<close> reads the signed 32 bit integer at the start of an element; the difference is computed with the overflow check.\<close>

definition void_cmp :: "('a \<Rightarrow> int) \<Rightarrow> 'a \<Rightarrow> 'a \<Rightarrow> int outcome" where
  "void_cmp rd a b = (let d = rd a - rd b in if - (2 ^ 31) \<le> d \<and> d < 2 ^ 31 then Returns d else Panics)"

function bsearch_loop :: "('a \<Rightarrow> 'a \<Rightarrow> int outcome) \<Rightarrow> 'a \<Rightarrow> nat \<Rightarrow> nat \<Rightarrow> 'a list \<Rightarrow> nat option outcome" where
  "bsearch_loop cmp_fn key start len xs =
     (if len > 0 then
        let med = start + len div 2 in
        if med < length xs then
          obind (cmp_fn key (xs ! med)) (\<lambda>diff.
          if diff = 0 then Returns (Some med)
          else if diff > 0 then bsearch_loop cmp_fn key (med + 1) ((len - 1) div 2) xs
          else bsearch_loop cmp_fn key start (len div 2) xs)
        else Panics
      else Returns None)"
  by pat_completeness auto

termination by (relation "measure (\<lambda>(cmp_fn, key, start, len, xs). len)") auto

declare bsearch_loop.simps [simp del]

definition bsearch :: "('a \<Rightarrow> int) \<Rightarrow> 'a comparison option \<Rightarrow> 'a \<Rightarrow> nat \<Rightarrow> nat \<Rightarrow> 'a list \<Rightarrow> nat option outcome" where
  "bsearch rd compar key base nel xs =
     bsearch_loop (case compar of Some cmp \<Rightarrow> (\<lambda>a b. Returns (cmp a b)) | None \<Rightarrow> void_cmp rd) key base nel xs"

context consistent_comparison
begin

lemma bsearch_loop_finds:
  assumes "start + len \<le> length xs" "sorted_on cmp start len xs"
  shows "\<exists>r. bsearch_loop (\<lambda>a b. Returns (cmp a b)) key start len xs = Returns r \<and>
    (case r of Some i \<Rightarrow> start \<le> i \<and> i < start + len \<and> cmp key (xs ! i) = 0
     | None \<Rightarrow> \<forall>i. start \<le> i \<and> i < start + len \<longrightarrow> cmp key (xs ! i) \<noteq> 0)"
  using assms
proof (induction len arbitrary: start rule: less_induct)
  case (less len)
  let ?f = "\<lambda>a b. Returns (cmp a b)" and ?med = "start + len div 2"
  have inside: "?med < length xs" if "0 < len" using that less.prems(1) div_less_dividend [of 2 len] by linarith
  consider "len = 0" | "0 < len" "cmp key (xs ! ?med) = 0" | "0 < len" "cmp key (xs ! ?med) > 0" | "0 < len" "cmp key (xs ! ?med) < 0" by linarith
  then show ?case
  proof cases
    case 1
    then show ?thesis by (subst bsearch_loop.simps) simp
  next
    case 2
    then show ?thesis using inside unfolding bsearch_loop.simps [of ?f key start len xs] by (simp add: Let_def)
  next
    case 3
    let ?rest = "(len - 1) div 2"
    have rest: "?rest < len" "?med + 1 + ?rest = start + len" using 3(1) by (simp, arith)
    have run: "bsearch_loop ?f key start len xs = bsearch_loop ?f key (?med + 1) ?rest xs"
      using 3 inside unfolding bsearch_loop.simps [of ?f key start len xs] by (simp add: Let_def)
    have "sorted_on cmp (?med + 1) ?rest xs" using less.prems(2) rest by (simp add: sorted_on_def)
    then obtain r where r: "bsearch_loop ?f key (?med + 1) ?rest xs = Returns r"
        "case r of Some i \<Rightarrow> ?med + 1 \<le> i \<and> i < start + len \<and> cmp key (xs ! i) = 0
         | None \<Rightarrow> \<forall>i. ?med + 1 \<le> i \<and> i < start + len \<longrightarrow> cmp key (xs ! i) \<noteq> 0"
      using less.IH [OF rest(1), of "?med + 1"] less.prems(1) unfolding rest(2) by blast
    have "cmp key (xs ! i) \<noteq> 0" if "start \<le> i" "i \<le> ?med" for i
    proof
      assume "cmp key (xs ! i) = 0"
      moreover have "cmp (xs ! i) (xs ! ?med) \<le> 0"
        using sorted_onD [OF less.prems(2), of i ?med] that 3(1) cmp_refl by (cases "i = ?med") auto
      ultimately show False using cmp_trans [of key "xs ! i" "xs ! ?med"] 3(2) by simp
    qed
    then show ?thesis using r unfolding run by (cases r) (auto simp: not_less_eq_eq [symmetric])
  next
    case 4
    have run: "bsearch_loop ?f key start len xs = bsearch_loop ?f key start (len div 2) xs"
      using 4 inside unfolding bsearch_loop.simps [of ?f key start len xs] by (simp add: Let_def)
    have "len div 2 \<le> len" by simp
    then have "sorted_on cmp start (len div 2) xs" using less.prems(2) unfolding sorted_on_def by (meson add_le_mono1 le_refl add_left_mono order_less_le_trans)
    then obtain r where r: "bsearch_loop ?f key start (len div 2) xs = Returns r"
        "case r of Some i \<Rightarrow> start \<le> i \<and> i < ?med \<and> cmp key (xs ! i) = 0
         | None \<Rightarrow> \<forall>i. start \<le> i \<and> i < ?med \<longrightarrow> cmp key (xs ! i) \<noteq> 0"
      using less.IH [of "len div 2" start] less.prems(1) 4(1) inside [OF 4(1)] by auto
    have "cmp key (xs ! i) \<noteq> 0" if "?med \<le> i" "i < start + len" for i
    proof
      assume "cmp key (xs ! i) = 0"
      then have "cmp (xs ! i) key \<le> 0" using cmp_flip(2) [of key "xs ! i"] by simp
      moreover have "cmp (xs ! ?med) (xs ! i) \<le> 0"
        using sorted_onD [OF less.prems(2), of ?med i] that cmp_refl by (cases "i = ?med") auto
      ultimately have "cmp (xs ! ?med) key \<le> 0" using cmp_trans by blast
      then show False using 4(2) cmp_flip(1) [of key "xs ! ?med"] by simp
    qed
    then show ?thesis using r inside [OF 4(1)] less.prems(1) unfolding run by (cases r) (auto, meson not_le_imp_less)
  qed
qed

end

text \<open>In an array that is sorted by a consistent comparison function, \<open>bsearch\<close> returns an element equal to the key when
  there is one and null otherwise, and it stays inside the array.\<close>

lemma bsearch_finds:
  assumes "consistent_comparison cmp" "base + nel \<le> length xs" "sorted_on cmp base nel xs"
  shows "\<exists>r. bsearch rd (Some cmp) key base nel xs = Returns r \<and>
    (case r of Some i \<Rightarrow> base \<le> i \<and> i < base + nel \<and> cmp key (xs ! i) = 0
     | None \<Rightarrow> \<forall>i. base \<le> i \<and> i < base + nel \<longrightarrow> cmp key (xs ! i) \<noteq> 0)"
  unfolding bsearch_def using consistent_comparison.bsearch_loop_finds [OF assms] by simp

section \<open>Sorting directory entries\<close>

lemma entry_order_consistent: "consistent_comparison (entry_order m)"
proof
  show "sgn (entry_order m y x) = - sgn (entry_order m x y)" for x y
    unfolding entry_order_def string_order_flip [of "entry_name m y" "entry_name m x"] by simp
  show "entry_order m x z \<le> 0" if "entry_order m x y \<le> 0" "entry_order m y z \<le> 0" for x y z
    using that unfolding entry_order_def by (rule string_order_trans [OF entry_name_zero entry_name_zero entry_name_zero])
qed

interpretation entries: consistent_comparison "entry_order m" for m
  by (rule entry_order_consistent)

text \<open>Two entries whose names are \<open>b\<close> and \<open>a\<close>, at 0 and at 21.\<close>

definition two_entries :: memory where
  "two_entries = replicate 19 0 @ [98, 0] @ replicate 19 0 @ [97, 0]"

theorem qsort_returns_witness:
  "\<exists>ys. qsort (Some (\<lambda>x y. 1)) 0 3 [5, 6, 7 :: nat] = Returns ys \<and> mset ys = mset [5, 6, 7]"
  using qsort_returns [of 0 3 "[5, 6, 7 :: nat]" "Some (\<lambda>x y. 1)"] by auto

theorem qsort_sorts_witness:
  "\<exists>ys. qsort (Some (entry_order two_entries)) 0 2 [0, 21] = Returns ys \<and>
     sorted_wrt (\<lambda>x y. entry_order two_entries x y \<le> 0) (take 2 ys) \<and> mset (take 2 ys) = mset [0, 21]"
  using qsort_sorts [OF entry_order_consistent, of 0 2 "[0, 21]" two_entries] by auto

lemma swap_exchanges_elements_example:
  "swap_at 0 1 [[1, 2], [3, 4]] = Returns (elements 0 2 2 (swap_bytes 0 2 2 (\<lambda>a. of_nat (a + 1))))"
proof -
  have "elements 0 2 2 (\<lambda>a. of_nat (a + 1)) = [[1, 2], [3, 4]]" by (simp add: elements_def upt_rec)
  then show ?thesis using swap_exchanges_elements [of 0 2 1 0 2 "\<lambda>a. of_nat (a + 1)"] by (simp add: numeral_2_eq_2)
qed

end
