(* ===== verification/Futex.thy ===== *)
theory Futex
  imports Prelude
begin

text \<open>The locks of the C library that sleep on a futex: \<open>relibc/src/sync/mod.rs\<close>, \<open>mutex.rs\<close>, \<open>once.rs\<close> and
  \<open>semaphore.rs\<close> under \<open>relibc/src/sync\<close>.

  The state of a lock is its atomic word and, for each thread, the place in the code at which the thread is.  A step
  lets one thread execute its next atomic operation; the steps of the threads interleave freely.  The weak
  compare-and-exchange may fail for no reason, and a sleeping thread may wake for no reason; both are choices of the
  step.  The memory orderings are those of sequential consistency.

  The lemmas show that a mutex is held by one thread at most, that a thread sleeps on it only while another one is going
  to wake it, and that a value initialised once is the same for every thread.\<close>

section \<open>Atomic operations\<close>

text \<open>The flag says that a weak operation fails for no reason.  The result is \<open>Inr\<close> with the old value on success.\<close>

definition compare_exchange_weak :: "bool \<Rightarrow> int \<Rightarrow> int \<Rightarrow> int \<Rightarrow> int \<times> (int + int)" where
  "compare_exchange_weak spurious current new w = (if w = current \<and> \<not> spurious then (new, Inr w) else (w, Inl w))"

definition compare_exchange :: "int \<Rightarrow> int \<Rightarrow> int \<Rightarrow> int \<times> (int + int)" where
  "compare_exchange current new w = compare_exchange_weak False current new w"

definition unwrap_or_err :: "int + int \<Rightarrow> int" where
  "unwrap_or_err r = (case r of Inl e \<Rightarrow> e | Inr v \<Rightarrow> v)"

section \<open>Waiting for a word\<close>

datatype attempt_status = Desired | Waiting | Other

type_synonym attempt = "bool \<Rightarrow> int \<Rightarrow> int \<times> attempt_status"

text \<open>The places of \<open>wait_until_generic\<close>: one of the 999 first attempts (with the number left), the attempt that sets
  \<open>previous\<close>, the head of the loop with the value of \<open>previous\<close>, the call of \<open>futex_wait\<close>, asleep, and returned.\<close>

datatype wait_place = Spin nat | Attempt | Decide attempt_status | Park | Parked | Finished

definition wait_until_generic :: wait_place where
  "wait_until_generic = Spin 999"

fun wait_step :: "attempt \<Rightarrow> attempt \<Rightarrow> int \<Rightarrow> bool \<Rightarrow> int \<Rightarrow> wait_place \<Rightarrow> int \<times> wait_place" where
  "wait_step attempt mark_long long spurious w (Spin 0) = (w, Attempt)"
| "wait_step attempt mark_long long spurious w (Spin (Suc k)) =
     (let (w, status) = attempt spurious w in (w, if status = Desired then Finished else Spin k))"
| "wait_step attempt mark_long long spurious w Attempt =
     (let (w, status) = attempt spurious w in (w, Decide status))"
| "wait_step attempt mark_long long spurious w (Decide previous) =
     (if previous = Desired then (w, Finished)
      else if previous = Waiting then (w, Park)
      else let (w, status) = mark_long spurious w in (w, if status \<noteq> Desired then Park else Attempt))"
| "wait_step attempt mark_long long spurious w Park = (w, if w = long then Parked else Attempt)"
| "wait_step attempt mark_long long spurious w Parked = (w, Attempt)"
| "wait_step attempt mark_long long spurious w Finished = (w, Finished)"

text \<open>Waking every thread that sleeps on the word.\<close>

definition wake_place :: "wait_place \<Rightarrow> wait_place" where
  "wake_place p = (if p = Parked then Attempt else p)"

section \<open>Mutex\<close>

definition UNLOCKED :: int where "UNLOCKED = 0"
definition LOCKED :: int where "LOCKED = 1"
definition WAITING :: int where "WAITING = 2"

lemmas mutex_words = UNLOCKED_def LOCKED_def WAITING_def

definition lock_attempt :: attempt where
  "lock_attempt spurious w =
     (case compare_exchange_weak spurious UNLOCKED LOCKED w of
        (w, Inr _) \<Rightarrow> (w, Desired)
      | (w, Inl e) \<Rightarrow> (w, if e = WAITING then Waiting else Other))"

definition lock_mark_long :: attempt where
  "lock_mark_long spurious w =
     (case compare_exchange_weak spurious LOCKED WAITING w of
        (w, r) \<Rightarrow> (w, let e = unwrap_or_err r in if e = UNLOCKED then Desired else if e = WAITING then Waiting else Other))"

definition manual_try_lock_generic :: "int \<Rightarrow> int \<times> bool" where
  "manual_try_lock_generic w = (case compare_exchange UNLOCKED LOCKED w of (w, Inr _) \<Rightarrow> (w, True) | (w, Inl _) \<Rightarrow> (w, False))"

text \<open>A thread does not use the lock, is inside \<open>manual_lock_generic\<close>, holds the lock, or is about to wake the others.\<close>

datatype mutex_place = Unused | Locking wait_place | Held | Waking

record 't mutex =
  mutex_word :: int
  mutex_at :: "'t \<Rightarrow> mutex_place"

definition mutex_new :: "'t mutex" where
  "mutex_new = \<lparr>mutex_word = UNLOCKED, mutex_at = (\<lambda>t. Unused)\<rparr>"

definition manual_lock_generic :: "'t \<Rightarrow> 't mutex \<Rightarrow> 't mutex" where
  "manual_lock_generic t s = s\<lparr>mutex_at := (mutex_at s)(t := Locking wait_until_generic)\<rparr>"

definition manual_lock_step :: "bool \<Rightarrow> 't \<Rightarrow> wait_place \<Rightarrow> 't mutex \<Rightarrow> 't mutex" where
  "manual_lock_step spurious t p s =
     (let (w, p) = wait_step lock_attempt lock_mark_long WAITING spurious (mutex_word s) p in
      s\<lparr>mutex_word := w, mutex_at := (mutex_at s)(t := if p = Finished then Held else Locking p)\<rparr>)"

definition manual_try_lock :: "'t \<Rightarrow> 't mutex \<Rightarrow> 't mutex" where
  "manual_try_lock t s =
     (let (w, ok) = manual_try_lock_generic (mutex_word s) in
      s\<lparr>mutex_word := w, mutex_at := (mutex_at s)(t := if ok then Held else Unused)\<rparr>)"

definition manual_unlock_generic :: "'t \<Rightarrow> 't mutex \<Rightarrow> 't mutex" where
  "manual_unlock_generic t s =
     s\<lparr>mutex_word := UNLOCKED, mutex_at := (mutex_at s)(t := if mutex_word s = WAITING then Waking else Unused)\<rparr>"

definition unlock_wake :: "'t \<Rightarrow> 't mutex \<Rightarrow> 't mutex" where
  "unlock_wake t s =
     s\<lparr>mutex_at := (\<lambda>u. if u = t then Unused else case mutex_at s u of Locking p \<Rightarrow> Locking (wake_place p) | q \<Rightarrow> q)\<rparr>"

text \<open>A thread unlocks the mutex only when it holds it, which is what the guard of \<open>lock\<close> and \<open>try_lock\<close> does when it
  is dropped.  A sleeping thread leaves its place when it is woken or for no reason.\<close>

inductive mutex_step :: "'t mutex \<Rightarrow> 't mutex \<Rightarrow> bool" where
  lock: "mutex_at s t = Unused \<Longrightarrow> mutex_step s (manual_lock_generic t s)"
| try_lock: "mutex_at s t = Unused \<Longrightarrow> mutex_step s (manual_try_lock t s)"
| locking: "mutex_at s t = Locking p \<Longrightarrow> mutex_step s (manual_lock_step spurious t p s)"
| unlock: "mutex_at s t = Held \<Longrightarrow> mutex_step s (manual_unlock_generic t s)"
| wake: "mutex_at s t = Waking \<Longrightarrow> mutex_step s (unlock_wake t s)"

section \<open>A mutex has one owner\<close>

text \<open>A thread owns the lock from the compare-and-exchange that took it to the swap that gives it back.\<close>

fun owns :: "mutex_place \<Rightarrow> bool" where
  "owns Held = True"
| "owns (Locking p) = (p = Decide Desired)"
| "owns _ = False"

definition mutex_inv :: "'t mutex \<Rightarrow> bool" where
  "mutex_inv s \<longleftrightarrow>
     mutex_word s \<in> {UNLOCKED, LOCKED, WAITING} \<and>
     (mutex_word s = UNLOCKED \<longleftrightarrow> (\<forall>t. \<not> owns (mutex_at s t))) \<and>
     (\<forall>t u. owns (mutex_at s t) \<and> owns (mutex_at s u) \<longrightarrow> t = u) \<and>
     (\<forall>t. mutex_at s t \<noteq> Locking Finished) \<and>
     (\<forall>t. mutex_at s t = Locking Parked \<longrightarrow> mutex_word s = WAITING \<or> (\<exists>u. mutex_at s u = Waking))"

lemma mutex_invI:
  assumes "mutex_word s \<in> {UNLOCKED, LOCKED, WAITING}" "mutex_word s = UNLOCKED \<longleftrightarrow> (\<forall>t. \<not> owns (mutex_at s t))"
    and "\<And>t u. owns (mutex_at s t) \<Longrightarrow> owns (mutex_at s u) \<Longrightarrow> t = u" "\<And>t. mutex_at s t \<noteq> Locking Finished"
    and "\<And>t. mutex_at s t = Locking Parked \<Longrightarrow> mutex_word s = WAITING \<or> (\<exists>u. mutex_at s u = Waking)"
  shows "mutex_inv s"
  using assms unfolding mutex_inv_def by blast

lemma mutex_invD:
  assumes "mutex_inv s"
  shows "mutex_word s \<in> {UNLOCKED, LOCKED, WAITING}" "mutex_word s = UNLOCKED \<longleftrightarrow> (\<forall>t. \<not> owns (mutex_at s t))"
    and "owns (mutex_at s t) \<Longrightarrow> owns (mutex_at s u) \<Longrightarrow> t = u" "mutex_at s t \<noteq> Locking Finished"
    and "mutex_at s t = Locking Parked \<Longrightarrow> mutex_word s = WAITING \<or> (\<exists>u. mutex_at s u = Waking)"
  using assms unfolding mutex_inv_def by blast+

lemma mutex_inv_new: "mutex_inv mutex_new"
  by (simp add: mutex_inv_def mutex_new_def)

lemma lock_step_cases:
  assumes "wait_step lock_attempt lock_mark_long WAITING spurious w p = (w', p')" "p \<noteq> Finished" "w \<in> {UNLOCKED, LOCKED, WAITING}"
  shows "(w = UNLOCKED \<and> w' = LOCKED \<and> p' \<in> {Finished, Decide Desired} \<and> p \<noteq> Decide Desired) \<or>
    (w' = w \<and> (p = Decide Desired \<longleftrightarrow> p' = Finished) \<and> p' \<noteq> Decide Desired \<and> (p' = Parked \<longrightarrow> w = WAITING)) \<or>
    (w = LOCKED \<and> w' = WAITING \<and> p' = Park \<and> p = Decide Other)"
proof (cases p)
  case (Spin k)
  then show ?thesis using assms by (cases k) (auto simp: lock_attempt_def compare_exchange_weak_def mutex_words split: if_splits)
next
  case (Decide st)
  then show ?thesis using assms
    by (cases st) (auto simp: lock_mark_long_def compare_exchange_weak_def unwrap_or_err_def mutex_words Let_def split: if_splits)
qed (use assms in \<open>auto simp: lock_attempt_def compare_exchange_weak_def mutex_words split: if_splits\<close>)

text \<open>What a step may do to the word, to the owner and to the sleepers, and still keep the invariant.\<close>

lemma mutex_inv_keep:
  assumes inv: "mutex_inv s" and "mutex_word s' = mutex_word s" "\<And>u. owns (mutex_at s' u) \<longleftrightarrow> owns (mutex_at s u)"
    and "\<And>u. mutex_at s' u \<noteq> Locking Finished"
    and "\<And>u. mutex_at s' u = Locking Parked \<Longrightarrow> mutex_word s = WAITING \<or> mutex_at s u = Locking Parked"
    and "\<And>u. mutex_at s u = Waking \<Longrightarrow> mutex_at s' u = Waking \<or> (\<forall>v. mutex_at s' v \<noteq> Locking Parked)"
  shows "mutex_inv s'"
proof (rule mutex_invI)
  show "mutex_word s' = WAITING \<or> (\<exists>u. mutex_at s' u = Waking)" if "mutex_at s' t = Locking Parked" for t
    using assms(5) [OF that] mutex_invD(5) [OF inv, of t] assms(2,6) that by metis
qed (use assms mutex_invD [OF inv] in metis)+

lemma mutex_inv_take:
  assumes inv: "mutex_inv s" and "mutex_word s = UNLOCKED" "mutex_at s t \<noteq> Waking" "owns q" "q \<noteq> Locking Finished"
  shows "mutex_inv (s\<lparr>mutex_word := LOCKED, mutex_at := (mutex_at s)(t := q)\<rparr>)"
proof (rule mutex_invI)
  have free: "\<not> owns (mutex_at s u)" for u using mutex_invD(2) [OF inv] assms(2) by blast
  let ?s = "s\<lparr>mutex_word := LOCKED, mutex_at := (mutex_at s)(t := q)\<rparr>"
  show "mutex_word ?s = UNLOCKED \<longleftrightarrow> (\<forall>t. \<not> owns (mutex_at ?s t))" using assms(4) by (auto simp: mutex_words)
  show "u = v" if "owns (mutex_at ?s u)" "owns (mutex_at ?s v)" for u v using that free by (auto split: if_splits)
  show "mutex_at ?s u \<noteq> Locking Finished" for u using mutex_invD(4) [OF inv] assms(5) by simp
  show "mutex_word ?s = WAITING \<or> (\<exists>u. mutex_at ?s u = Waking)" if "mutex_at ?s v = Locking Parked" for v
  proof -
    have "mutex_at s v = Locking Parked" using that assms(4) by (auto split: if_splits)
    then obtain u where "mutex_at s u = Waking" using mutex_invD(5) [OF inv] assms(2) by (auto simp: mutex_words)
    then have "mutex_at ?s u = Waking" using assms(3) by auto
    then show ?thesis by blast
  qed
qed simp

lemma mutex_inv_locking:
  assumes "mutex_inv s" "mutex_at s t = Locking p"
  shows "mutex_inv (manual_lock_step spurious t p s)"
proof -
  obtain w' p' where step: "wait_step lock_attempt lock_mark_long WAITING spurious (mutex_word s) p = (w', p')" by fastforce
  let ?q = "if p' = Finished then Held else Locking p'"
  have run: "manual_lock_step spurious t p s = s\<lparr>mutex_word := w', mutex_at := (mutex_at s)(t := ?q)\<rparr>"
    by (simp add: manual_lock_step_def step)
  have "p \<noteq> Finished" using assms mutex_invD(4) by metis
  from lock_step_cases [OF step this mutex_invD(1) [OF assms(1)]] show ?thesis
  proof (elim disjE conjE)
    assume "mutex_word s = UNLOCKED" "w' = LOCKED" "p' \<in> {Finished, Decide Desired}" "p \<noteq> Decide Desired"
    then show ?thesis unfolding run using mutex_inv_take [OF assms(1), of t ?q] assms(2) by auto
  next
    assume "w' = mutex_word s" "(p = Decide Desired) = (p' = Finished)" "p' \<noteq> Decide Desired" "p' = Parked \<longrightarrow> mutex_word s = WAITING"
    then show ?thesis unfolding run using assms mutex_invD(4) [OF assms(1)]
      by (intro mutex_inv_keep [OF assms(1)]) (auto split: if_splits)
  next
    assume w: "mutex_word s = LOCKED" "w' = WAITING" "p' = Park" "p = Decide Other"
    then have "owns (((mutex_at s)(t := ?q)) u) \<longleftrightarrow> owns (mutex_at s u)" for u using assms(2) by auto
    then show ?thesis unfolding run using w mutex_invD [OF assms(1)] by (intro mutex_invI) (auto simp: mutex_words)
  qed
qed

lemma mutex_inv_step: "mutex_step s s' \<Longrightarrow> mutex_inv s \<Longrightarrow> mutex_inv s'"
proof (induction rule: mutex_step.induct)
  case (lock s t)
  then show ?case unfolding manual_lock_generic_def wait_until_generic_def using mutex_invD(4) [OF lock.prems]
    by (intro mutex_inv_keep [OF lock.prems]) (auto split: if_splits)
next
  case (try_lock s t)
  show ?case
  proof (cases "mutex_word s = UNLOCKED")
    case True
    then show ?thesis using mutex_inv_take [OF try_lock.prems True, of t Held] try_lock.hyps
      by (simp add: manual_try_lock_def manual_try_lock_generic_def compare_exchange_def compare_exchange_weak_def)
  next
    case False
    then have "manual_try_lock t s = s" using try_lock.hyps
      by (simp add: manual_try_lock_def manual_try_lock_generic_def compare_exchange_def compare_exchange_weak_def fun_upd_idem)
    then show ?thesis using try_lock.prems by simp
  qed
next
  case (locking s t p spurious)
  then show ?case by (intro mutex_inv_locking)
next
  case (unlock s t)
  note inv = mutex_invD [OF unlock.prems]
  have alone: "\<not> owns (mutex_at s u)" if "u \<noteq> t" for u using inv(3) [of t u] unlock.hyps that by auto
  have wakers: "\<exists>u. mutex_at (manual_unlock_generic t s) u = Waking" if "mutex_at s v = Locking Parked" for v
    using inv(5) [OF that]
  proof
    assume "\<exists>u. mutex_at s u = Waking"
    then obtain u where u: "mutex_at s u = Waking" by blast
    then have "u \<noteq> t" using unlock.hyps by auto
    then show ?thesis using u by (auto simp: manual_unlock_generic_def)
  qed (auto simp: manual_unlock_generic_def)
  show ?case
  proof (rule mutex_invI)
    show "mutex_word (manual_unlock_generic t s) = WAITING \<or> (\<exists>u. mutex_at (manual_unlock_generic t s) u = Waking)"
      if "mutex_at (manual_unlock_generic t s) v = Locking Parked" for v
      using wakers [of v] that by (auto simp: manual_unlock_generic_def split: if_splits)
  qed (use inv(4) alone in \<open>auto simp: manual_unlock_generic_def split: if_splits\<close>)
next
  case (wake s t)
  then show ?case unfolding unlock_wake_def using mutex_invD(4) [OF wake.prems]
    by (intro mutex_inv_keep [OF wake.prems]) (auto simp: wake_place_def split: mutex_place.splits if_splits)
qed

lemma mutex_reachable: "mutex_step\<^sup>*\<^sup>* mutex_new s \<Longrightarrow> mutex_inv s"
  by (induction rule: rtranclp_induct) (auto intro: mutex_inv_new mutex_inv_step)

text \<open>C17. In every interleaving of threads that lock, try to lock and unlock a mutex, spurious failures and wake-ups
  included, at most one thread holds it.  A thread that sleeps on the mutex is never forgotten: another thread owns the
  mutex while its word says that somebody waits, so that unlocking it goes on to wake the sleepers, or a thread that has
  unlocked it is about to.\<close>

theorem mutex_exclusive_and_waking:
  assumes "mutex_step\<^sup>*\<^sup>* mutex_new s"
  shows "(\<forall>t u. mutex_at s t = Held \<and> mutex_at s u = Held \<longrightarrow> t = u) \<and>
    (\<forall>t. mutex_at s t = Locking Parked \<longrightarrow>
       (\<exists>u. owns (mutex_at s u) \<and> mutex_word s = WAITING \<and>
          (mutex_at s u = Held \<longrightarrow> mutex_at (manual_unlock_generic u s) u = Waking)) \<or>
       (\<exists>u. mutex_at s u = Waking \<and> mutex_at (unlock_wake u s) t = Locking Attempt))"
proof -
  note inv = mutex_invD [OF mutex_reachable [OF assms]]
  have one: "t = u" if "mutex_at s t = Held" "mutex_at s u = Held" for t u using inv(3) [of t u] that by simp
  have waker: "(\<exists>u. owns (mutex_at s u) \<and> mutex_word s = WAITING \<and>
          (mutex_at s u = Held \<longrightarrow> mutex_at (manual_unlock_generic u s) u = Waking)) \<or>
       (\<exists>u. mutex_at s u = Waking \<and> mutex_at (unlock_wake u s) t = Locking Attempt)" if t: "mutex_at s t = Locking Parked" for t
    using inv(5) [OF t]
  proof
    assume w: "mutex_word s = WAITING"
    then obtain u where "owns (mutex_at s u)" using inv(2) by (auto simp: mutex_words)
    then show ?thesis using w by (auto simp: manual_unlock_generic_def)
  next
    assume "\<exists>u. mutex_at s u = Waking"
    then obtain u where u: "mutex_at s u = Waking" by blast
    then have "t \<noteq> u" using t by auto
    with u show ?thesis using t by (auto simp: unlock_wake_def wake_place_def intro!: exI [of _ u])
  qed
  show ?thesis using one waker by blast
qed

text \<open>Thread 0 holds the mutex and thread 1, after its 999 attempts, sleeps on it.\<close>

definition contended :: "nat mutex" where
  "contended = \<lparr>mutex_word = WAITING, mutex_at = (\<lambda>t. Unused)(0 := Held, 1 := Locking Parked)\<rparr>"

lemma spin_out: "w \<noteq> UNLOCKED \<Longrightarrow> f t = Locking (Spin k) \<Longrightarrow>
    mutex_step\<^sup>*\<^sup>* \<lparr>mutex_word = w, mutex_at = f\<rparr> \<lparr>mutex_word = w, mutex_at = f(t := Locking Attempt)\<rparr>"
proof (induction k arbitrary: f)
  case 0
  then show ?case using mutex_step.locking [of "\<lparr>mutex_word = w, mutex_at = f\<rparr>" t "Spin 0" False] by (simp add: manual_lock_step_def r_into_rtranclp del: fun_upd_apply)
next
  case (Suc k)
  have "mutex_step \<lparr>mutex_word = w, mutex_at = f\<rparr> \<lparr>mutex_word = w, mutex_at = f(t := Locking (Spin k))\<rparr>"
    using mutex_step.locking [of "\<lparr>mutex_word = w, mutex_at = f\<rparr>" t "Spin (Suc k)" False] Suc.prems
    by (cases "w = WAITING") (simp_all add: manual_lock_step_def lock_attempt_def compare_exchange_weak_def)
  then show ?case by (rule converse_rtranclp_into_rtranclp) (use Suc.IH [OF Suc.prems(1), of "f(t := Locking (Spin k))"] in \<open>simp only: fun_upd_same fun_upd_upd\<close>)
qed

lemma contended_reachable: "mutex_step\<^sup>*\<^sup>* mutex_new contended"
proof -
  let ?f = "(\<lambda>t. Unused)(0 := Held) :: nat \<Rightarrow> mutex_place"
  let ?s = "\<lambda>w p. \<lparr>mutex_word = w, mutex_at = ?f(1 := Locking p)\<rparr>"
  have "mutex_step mutex_new \<lparr>mutex_word = LOCKED, mutex_at = ?f\<rparr>"
    using mutex_step.try_lock [of mutex_new "0 :: nat"]
    by (simp add: mutex_new_def manual_try_lock_def manual_try_lock_generic_def compare_exchange_def compare_exchange_weak_def)
  moreover have "mutex_step \<lparr>mutex_word = LOCKED, mutex_at = ?f\<rparr> (?s LOCKED (Spin 999))"
    using mutex_step.lock [of "\<lparr>mutex_word = LOCKED, mutex_at = ?f\<rparr>" 1] by (simp add: manual_lock_generic_def wait_until_generic_def)
  moreover have "mutex_step\<^sup>*\<^sup>* (?s LOCKED (Spin 999)) (?s LOCKED Attempt)"
    using spin_out [of LOCKED "?f(1 := Locking (Spin 999))" 1 999] by (simp add: mutex_words)
  moreover have "mutex_step (?s LOCKED Attempt) (?s LOCKED (Decide Other))"
    using mutex_step.locking [of "?s LOCKED Attempt" 1 Attempt False]
    by (simp add: manual_lock_step_def lock_attempt_def compare_exchange_weak_def mutex_words)
  moreover have "mutex_step (?s LOCKED (Decide Other)) (?s WAITING Park)"
    using mutex_step.locking [of "?s LOCKED (Decide Other)" 1 "Decide Other" False]
    by (simp add: manual_lock_step_def lock_mark_long_def compare_exchange_weak_def unwrap_or_err_def mutex_words)
  moreover have "mutex_step (?s WAITING Park) contended"
    using mutex_step.locking [of "?s WAITING Park" 1 Park False] by (simp add: manual_lock_step_def contended_def)
  ultimately show ?thesis by (meson r_into_rtranclp rtranclp_trans)
qed

theorem mutex_exclusive_and_waking_witness:
  "mutex_at contended 1 = Locking Parked \<and> (\<exists>u. owns (mutex_at contended u) \<and> mutex_word contended = WAITING)"
proof -
  have "mutex_at contended 1 = Locking Parked" "\<And>u. mutex_at contended u \<noteq> Waking" by (auto simp: contended_def)
  then show ?thesis using mutex_exclusive_and_waking [OF contended_reachable] by blast
qed

section \<open>Once\<close>

definition UNINITIALIZED :: int where "UNINITIALIZED = 0"
definition INITIALIZING :: int where "INITIALIZING = 1"
definition ONCE_WAITING :: int where "ONCE_WAITING = 2"
definition INITIALIZED :: int where "INITIALIZED = 3"

lemmas once_words = UNINITIALIZED_def INITIALIZING_def ONCE_WAITING_def INITIALIZED_def

definition once_attempt :: attempt where
  "once_attempt spurious w = (w, if w = ONCE_WAITING then Waiting else if w = INITIALIZED then Desired else Other)"

definition once_mark_long :: attempt where
  "once_mark_long spurious w =
     (case compare_exchange_weak spurious INITIALIZING ONCE_WAITING w of
        (w, r) \<Rightarrow> (w, let e = unwrap_or_err r in if e = ONCE_WAITING then Waiting else if e = INITIALIZED then Desired else Other))"

text \<open>The places of \<open>call_once\<close>: before the compare-and-exchange, calling the constructor, before the swap, before waking
  the others, waiting for the thread that runs the constructor, before reading the value, and returned with it.  A value
  that is not initialised is \<open>None\<close>, and reading it is undefined behaviour.  \<open>Unreachable\<close> is the panic in the last arm.\<close>

datatype 'a once_place = Calling | Constructing | Storing | Notifying | AwaitingOnce wait_place | Reading | Returned "'a option" | Unreachable

text \<open>\<open>once_runs\<close> counts the calls of the constructor.\<close>

record ('t, 'a) once =
  once_status :: int
  once_data :: "'a option"
  once_at :: "'t \<Rightarrow> 'a once_place"
  once_runs :: nat

definition once_new :: "('t, 'a) once" where
  "once_new = \<lparr>once_status = UNINITIALIZED, once_data = None, once_at = (\<lambda>t. Calling), once_runs = 0\<rparr>"

definition once_wake :: "('t \<Rightarrow> 'a once_place) \<Rightarrow> 't \<Rightarrow> 'a once_place" where
  "once_wake f u = (case f u of AwaitingOnce p \<Rightarrow> AwaitingOnce (wake_place p) | q \<Rightarrow> q)"

text \<open>One atomic operation of \<open>call_once\<close> by thread \<open>t\<close>, whose constructor gives \<open>construct t\<close>.\<close>

definition call_once :: "('t \<Rightarrow> 'a) \<Rightarrow> bool \<Rightarrow> 't \<Rightarrow> ('t, 'a) once \<Rightarrow> ('t, 'a) once" where
  "call_once construct spurious t s =
     (let goto = (\<lambda>q s. s\<lparr>once_at := (once_at s)(t := q)\<rparr>) in
      case once_at s t of
        Calling \<Rightarrow>
          (case compare_exchange UNINITIALIZED INITIALIZING (once_status s) of
             (w, Inr _) \<Rightarrow> goto Constructing (s\<lparr>once_status := w\<rparr>)
           | (w, Inl e) \<Rightarrow>
               if e = INITIALIZING \<or> e = ONCE_WAITING then goto (AwaitingOnce wait_until_generic) s
               else if e = INITIALIZED then goto Reading s
               else goto Unreachable s)
      | Constructing \<Rightarrow> goto Storing (s\<lparr>once_data := Some (construct t), once_runs := once_runs s + 1\<rparr>)
      | Storing \<Rightarrow> goto (if once_status s = ONCE_WAITING then Notifying else Reading) (s\<lparr>once_status := INITIALIZED\<rparr>)
      | Notifying \<Rightarrow> goto Reading (s\<lparr>once_at := once_wake (once_at s)\<rparr>)
      | AwaitingOnce p \<Rightarrow>
          (let (w, p) = wait_step once_attempt once_mark_long ONCE_WAITING spurious (once_status s) p in
           goto (if p = Finished then Reading else AwaitingOnce p) (s\<lparr>once_status := w\<rparr>))
      | Reading \<Rightarrow> goto (Returned (once_data s)) s
      | Returned r \<Rightarrow> s
      | Unreachable \<Rightarrow> s)"

inductive once_step :: "('t \<Rightarrow> 'a) \<Rightarrow> ('t, 'a) once \<Rightarrow> ('t, 'a) once \<Rightarrow> bool" where
  "once_step construct s (call_once construct spurious t s)"

section \<open>A value is initialised once\<close>

fun once_place_ok :: "int \<Rightarrow> 'a option \<Rightarrow> 'a once_place \<Rightarrow> bool" where
  "once_place_ok w d Calling = True"
| "once_place_ok w d Constructing = ((w = INITIALIZING \<or> w = ONCE_WAITING) \<and> d = None)"
| "once_place_ok w d Storing = ((w = INITIALIZING \<or> w = ONCE_WAITING) \<and> d \<noteq> None)"
| "once_place_ok w d Notifying = (w = INITIALIZED)"
| "once_place_ok w d (AwaitingOnce p) = (w \<noteq> UNINITIALIZED \<and> p \<noteq> Finished \<and> (p = Decide Desired \<longrightarrow> w = INITIALIZED))"
| "once_place_ok w d Reading = (w = INITIALIZED)"
| "once_place_ok w d (Returned r) = (w = INITIALIZED \<and> r = d)"
| "once_place_ok w d Unreachable = False"

definition once_inv :: "('t, 'a) once \<Rightarrow> bool" where
  "once_inv s \<longleftrightarrow>
     once_status s \<in> {UNINITIALIZED, INITIALIZING, ONCE_WAITING, INITIALIZED} \<and>
     (once_status s = UNINITIALIZED \<longrightarrow> once_data s = None) \<and> (once_status s = INITIALIZED \<longrightarrow> once_data s \<noteq> None) \<and>
     once_runs s = (if once_data s = None then 0 else 1) \<and>
     (\<forall>t. once_place_ok (once_status s) (once_data s) (once_at s t)) \<and>
     (\<forall>t u. once_at s t \<in> {Constructing, Storing} \<and> once_at s u \<in> {Constructing, Storing} \<longrightarrow> t = u) \<and>
     (once_status s \<in> {INITIALIZING, ONCE_WAITING} \<longrightarrow> (\<exists>t. once_at s t \<in> {Constructing, Storing})) \<and>
     (\<forall>t. once_at s t = AwaitingOnce Parked \<longrightarrow> once_status s = ONCE_WAITING \<or> (\<exists>u. once_at s u = Notifying))"

lemma once_inv_new: "once_inv once_new"
  by (simp add: once_inv_def once_new_def once_words)

lemma once_invI:
  assumes "once_status s \<in> {UNINITIALIZED, INITIALIZING, ONCE_WAITING, INITIALIZED}"
    and "once_status s = UNINITIALIZED \<Longrightarrow> once_data s = None" "once_status s = INITIALIZED \<Longrightarrow> once_data s \<noteq> None"
    and "once_runs s = (if once_data s = None then 0 else 1)"
    and "\<And>t. once_place_ok (once_status s) (once_data s) (once_at s t)"
    and "\<And>t u. once_at s t \<in> {Constructing, Storing} \<Longrightarrow> once_at s u \<in> {Constructing, Storing} \<Longrightarrow> t = u"
    and "once_status s \<in> {INITIALIZING, ONCE_WAITING} \<Longrightarrow> \<exists>t. once_at s t \<in> {Constructing, Storing}"
    and "\<And>t. once_at s t = AwaitingOnce Parked \<Longrightarrow> once_status s = ONCE_WAITING \<or> (\<exists>u. once_at s u = Notifying)"
  shows "once_inv s"
  using assms unfolding once_inv_def by blast

lemma once_invD:
  assumes "once_inv s"
  shows "once_status s \<in> {UNINITIALIZED, INITIALIZING, ONCE_WAITING, INITIALIZED}"
    and "once_status s = UNINITIALIZED \<Longrightarrow> once_data s = None" "once_status s = INITIALIZED \<Longrightarrow> once_data s \<noteq> None"
    and "once_runs s = (if once_data s = None then 0 else 1)"
    and "once_place_ok (once_status s) (once_data s) (once_at s t)"
    and "once_at s t \<in> {Constructing, Storing} \<Longrightarrow> once_at s u \<in> {Constructing, Storing} \<Longrightarrow> t = u"
    and "once_status s \<in> {INITIALIZING, ONCE_WAITING} \<Longrightarrow> \<exists>t. once_at s t \<in> {Constructing, Storing}"
    and "once_at s t = AwaitingOnce Parked \<Longrightarrow> once_status s = ONCE_WAITING \<or> (\<exists>u. once_at s u = Notifying)"
  using assms unfolding once_inv_def by blast+

text \<open>The conditions under which thread \<open>t\<close> may go to place \<open>q\<close> with a new status and value.\<close>

lemma once_inv_goto:
  assumes inv: "once_inv s"
    and w: "w \<in> {UNINITIALIZED, INITIALIZING, ONCE_WAITING, INITIALIZED}"
    and d: "w = UNINITIALIZED \<Longrightarrow> d = None" "w = INITIALIZED \<Longrightarrow> d \<noteq> None" "n = (if d = None then 0 else 1)"
    and ok: "once_place_ok w d q" "\<And>u. u \<noteq> t \<Longrightarrow> once_place_ok w d (once_at s u)"
    and one: "\<And>u. q \<in> {Constructing, Storing} \<Longrightarrow> u \<noteq> t \<Longrightarrow> once_at s u \<notin> {Constructing, Storing}"
    and some: "w \<in> {INITIALIZING, ONCE_WAITING} \<Longrightarrow> q \<in> {Constructing, Storing} \<or> (\<exists>u. u \<noteq> t \<and> once_at s u \<in> {Constructing, Storing})"
    and awake: "q = AwaitingOnce Parked \<Longrightarrow> w = ONCE_WAITING"
      "\<And>v. once_at s v = AwaitingOnce Parked \<Longrightarrow> w = ONCE_WAITING \<or> q = Notifying \<or> (\<exists>u. u \<noteq> t \<and> once_at s u = Notifying)"
  shows "once_inv (s\<lparr>once_status := w, once_data := d, once_at := (once_at s)(t := q), once_runs := n\<rparr>)"
proof -
  let ?f = "(once_at s)(t := q)" and ?s = "s\<lparr>once_status := w, once_data := d, once_at := (once_at s)(t := q), once_runs := n\<rparr>"
  have sel: "once_status ?s = w" "once_data ?s = d" "once_at ?s = ?f" "once_runs ?s = n" by simp_all
  have one': "u = v" if "?f u \<in> {Constructing, Storing}" "?f v \<in> {Constructing, Storing}" for u v
    using that one once_invD(6) [OF inv, of u v] by (cases "u = t"; cases "v = t") (auto split: if_splits)
  have some': "\<exists>u. ?f u \<in> {Constructing, Storing}" if "w \<in> {INITIALIZING, ONCE_WAITING}"
    using some [OF that] by (metis fun_upd_apply)
  have awake': "w = ONCE_WAITING \<or> (\<exists>u. ?f u = Notifying)" if "?f v = AwaitingOnce Parked" for v
    using awake that by (metis fun_upd_apply)
  have ok': "once_place_ok w d (?f u)" for u using ok by simp
  show ?thesis by (rule once_invI; unfold sel) (fact w d one' some' awake' ok')+
qed

lemma once_wait_cases:
  assumes "wait_step once_attempt once_mark_long ONCE_WAITING spurious w p = (w', p')" "p \<noteq> Finished"
    and "w \<in> {INITIALIZING, ONCE_WAITING, INITIALIZED}" "p = Decide Desired \<Longrightarrow> w = INITIALIZED"
  shows "(w' = w \<or> w = INITIALIZING \<and> w' = ONCE_WAITING) \<and> (p' = Finished \<or> p' = Decide Desired \<longrightarrow> w' = INITIALIZED) \<and>
    (p' = Parked \<longrightarrow> w' = ONCE_WAITING)"
proof (cases p)
  case (Spin k)
  then show ?thesis using assms by (cases k) (auto simp: once_attempt_def once_words split: if_splits)
next
  case (Decide st)
  then show ?thesis using assms
    by (cases st) (auto simp: once_mark_long_def compare_exchange_weak_def unwrap_or_err_def once_words Let_def split: if_splits)
qed (use assms in \<open>auto simp: once_attempt_def once_words split: if_splits\<close>)

lemma once_place_ok_mark:
  "w = INITIALIZING \<Longrightarrow> once_place_ok w d q \<Longrightarrow> once_place_ok ONCE_WAITING d q"
  by (cases q) (auto simp: once_words)

lemma once_inv_awaiting:
  assumes inv: "once_inv s" and t: "once_at s t = AwaitingOnce p"
  shows "once_inv (call_once construct spurious t s)"
proof -
  obtain w' p' where step: "wait_step once_attempt once_mark_long ONCE_WAITING spurious (once_status s) p = (w', p')" by fastforce
  let ?q = "if p' = Finished then Reading else AwaitingOnce p'"
  have run: "call_once construct spurious t s =
      s\<lparr>once_status := w', once_data := once_data s, once_at := (once_at s)(t := ?q), once_runs := once_runs s\<rparr>"
    by (cases s) (use t step in \<open>simp add: call_once_def\<close>)
  note I = once_invD [OF inv]
  have p: "p \<noteq> Finished" "once_status s \<in> {INITIALIZING, ONCE_WAITING, INITIALIZED}" "p = Decide Desired \<Longrightarrow> once_status s = INITIALIZED"
    using I(5) [of t] I(1) t by auto
  note c = once_wait_cases [OF step p]
  have w: "w' \<noteq> UNINITIALIZED" "w' = INITIALIZED \<longleftrightarrow> once_status s = INITIALIZED"
      "w' \<in> {INITIALIZING, ONCE_WAITING} \<Longrightarrow> once_status s \<in> {INITIALIZING, ONCE_WAITING}"
    using c p(2) by (auto simp: once_words)
  show ?thesis unfolding run
  proof (rule once_inv_goto [OF inv])
    show "w' \<in> {UNINITIALIZED, INITIALIZING, ONCE_WAITING, INITIALIZED}" using c p(2) by auto
    show "once_place_ok w' (once_data s) ?q" using c w by auto
    show "once_place_ok w' (once_data s) (once_at s u)" for u using c I(5) [of u] once_place_ok_mark by metis
    show "?q \<in> {Constructing, Storing} \<or> (\<exists>u. u \<noteq> t \<and> once_at s u \<in> {Constructing, Storing})" if busy: "w' \<in> {INITIALIZING, ONCE_WAITING}"
    proof -
      obtain u where u: "once_at s u \<in> {Constructing, Storing}" using I(7) [OF w(3) [OF busy]] by blast
      then have "u \<noteq> t" using t by auto
      with u show ?thesis by blast
    qed
    show "w' = ONCE_WAITING \<or> ?q = Notifying \<or> (\<exists>u. u \<noteq> t \<and> once_at s u = Notifying)" if "once_at s v = AwaitingOnce Parked" for v
      using I(8) [OF that]
    proof
      assume "\<exists>u. once_at s u = Notifying"
      then obtain u where u: "once_at s u = Notifying" by blast
      then have "u \<noteq> t" using t by auto
      with u show ?thesis by blast
    qed (use c in \<open>auto simp: once_words\<close>)
  qed (use c w I(2-4) in \<open>auto split: if_splits\<close>)
qed

lemma once_sleepers_keep:
  assumes "once_inv s" "once_at s t \<noteq> Notifying" "once_at s v = AwaitingOnce Parked"
  shows "once_status s = ONCE_WAITING \<or> (\<exists>u. u \<noteq> t \<and> once_at s u = Notifying)"
  using once_invD(8) [OF assms(1,3)] assms(2) by metis

lemma once_inv_calling:
  assumes inv: "once_inv s" and t: "once_at s t = Calling"
  shows "once_inv (call_once construct spurious t s)"
proof -
  note I = once_invD [OF inv]
  consider "once_status s = UNINITIALIZED" | "once_status s = INITIALIZING \<or> once_status s = ONCE_WAITING" | "once_status s = INITIALIZED"
    using I(1) by blast
  then show ?thesis
  proof cases
    case 1
    have run: "call_once construct spurious t s =
        s\<lparr>once_status := INITIALIZING, once_data := None, once_at := (once_at s)(t := Constructing), once_runs := 0\<rparr>"
      by (cases s) (use t 1 I(2,4) in \<open>simp add: call_once_def compare_exchange_def compare_exchange_weak_def\<close>)
    have fresh: "once_at s u = Calling" for u using I(5) [of u] 1 by (cases "once_at s u") (auto simp: once_words)
    show ?thesis unfolding run by (rule once_inv_goto [OF inv]) (auto simp: fresh once_words)
  next
    case 2
    have run: "call_once construct spurious t s = s\<lparr>once_status := once_status s, once_data := once_data s,
        once_at := (once_at s)(t := AwaitingOnce wait_until_generic), once_runs := once_runs s\<rparr>"
      by (cases s) (use t 2 in \<open>auto simp: call_once_def compare_exchange_def compare_exchange_weak_def once_words\<close>)
    have writer: "\<exists>u. u \<noteq> t \<and> once_at s u \<in> {Constructing, Storing}"
      using I(7) 2 t by (metis insertCI insertE once_place.distinct(1,3) singletonD)
    show ?thesis unfolding run
      by (rule once_inv_goto [OF inv])
        (use I(1,4) I(5) 2 writer once_sleepers_keep [OF inv, of t] t in \<open>auto simp: wait_until_generic_def once_words\<close>)
  next
    case 3
    have run: "call_once construct spurious t s =
        s\<lparr>once_status := once_status s, once_data := once_data s, once_at := (once_at s)(t := Reading), once_runs := once_runs s\<rparr>"
      by (cases s) (use t 3 in \<open>auto simp: call_once_def compare_exchange_def compare_exchange_weak_def once_words\<close>)
    show ?thesis unfolding run
      by (rule once_inv_goto [OF inv]) (use I(3,4) I(5) 3 once_sleepers_keep [OF inv, of t] t in \<open>auto simp: once_words\<close>)
  qed
qed

lemma once_inv_constructing:
  assumes inv: "once_inv s" and t: "once_at s t = Constructing"
  shows "once_inv (call_once construct spurious t s)"
proof -
  note I = once_invD [OF inv]
  have w: "once_status s = INITIALIZING \<or> once_status s = ONCE_WAITING" "once_data s = None" using I(5) [of t] t by auto
  have run: "call_once construct spurious t s = s\<lparr>once_status := once_status s, once_data := Some (construct t),
      once_at := (once_at s)(t := Storing), once_runs := 1\<rparr>"
    by (cases s) (use t w I(4) in \<open>simp add: call_once_def\<close>)
  have ok: "once_place_ok (once_status s) (Some (construct t)) (once_at s u)" if "u \<noteq> t" for u
    using I(5) [of u] I(6) [of u t] t that w by (cases "once_at s u") (auto simp: once_words)
  show ?thesis unfolding run
    by (rule once_inv_goto [OF inv]) (use I(1) I(6) [of _ t] ok w t once_sleepers_keep [OF inv, of t] in \<open>auto simp: once_words\<close>)
qed

lemma once_inv_storing:
  assumes inv: "once_inv s" and t: "once_at s t = Storing"
  shows "once_inv (call_once construct spurious t s)"
proof -
  note I = once_invD [OF inv]
  let ?q = "if once_status s = ONCE_WAITING then Notifying else Reading"
  have w: "once_status s = INITIALIZING \<or> once_status s = ONCE_WAITING" "once_data s \<noteq> None" using I(5) [of t] t by auto
  have run: "call_once construct spurious t s = s\<lparr>once_status := INITIALIZED, once_data := once_data s,
      once_at := (once_at s)(t := ?q), once_runs := once_runs s\<rparr>"
    by (cases s) (use t in \<open>simp add: call_once_def\<close>)
  have ok: "once_place_ok INITIALIZED (once_data s) (once_at s u)" if "u \<noteq> t" for u
    using I(5) [of u] I(6) [of u t] t that w by (cases "once_at s u") (auto simp: once_words)
  show ?thesis unfolding run
    by (rule once_inv_goto [OF inv]) (use I(4) ok w t once_sleepers_keep [OF inv, of t] in \<open>auto simp: once_words split: if_splits\<close>)
qed

lemma once_inv_notifying:
  assumes inv: "once_inv s" and t: "once_at s t = Notifying"
  shows "once_inv (call_once construct spurious t s)"
proof -
  note I = once_invD [OF inv]
  let ?f = "(once_wake (once_at s))(t := Reading)"
  have w: "once_status s = INITIALIZED" using I(5) [of t] t by simp
  have run: "call_once construct spurious t s = s\<lparr>once_at := ?f\<rparr>" by (cases s) (use t in \<open>simp add: call_once_def\<close>)
  have ok: "once_place_ok INITIALIZED (once_data s) (once_wake (once_at s) u)" for u
    using I(5) [of u] w by (cases "once_at s u") (auto simp: once_wake_def wake_place_def)
  have writers: "once_wake (once_at s) u \<notin> {Constructing, Storing}" for u
    using ok [of u] by (auto simp: once_words)
  have "once_wake (once_at s) u \<noteq> AwaitingOnce Parked" for u
    by (cases "once_at s u") (auto simp: once_wake_def wake_place_def)
  then show ?thesis unfolding run using I(1-4) w ok writers by (intro once_invI) (auto simp: once_words split: if_splits)
qed

lemma once_inv_reading:
  assumes inv: "once_inv s" and t: "once_at s t = Reading"
  shows "once_inv (call_once construct spurious t s)"
proof -
  note I = once_invD [OF inv]
  have w: "once_status s = INITIALIZED" using I(5) [of t] t by simp
  have run: "call_once construct spurious t s = s\<lparr>once_status := once_status s, once_data := once_data s,
      once_at := (once_at s)(t := Returned (once_data s)), once_runs := once_runs s\<rparr>"
    by (cases s) (use t in \<open>simp add: call_once_def\<close>)
  show ?thesis unfolding run
    by (rule once_inv_goto [OF inv]) (use I(3,4) I(5) w t once_sleepers_keep [OF inv, of t] in \<open>auto simp: once_words\<close>)
qed

lemma once_inv_step: "once_step construct s s' \<Longrightarrow> once_inv s \<Longrightarrow> once_inv s'"
proof (induction rule: once_step.induct)
  case (1 construct s spurious t)
  show ?case
  proof (cases "once_at s t")
    case (Returned r)
    then show ?thesis using 1 by (simp add: call_once_def)
  next
    case Unreachable
    then show ?thesis using once_invD(5) [OF 1, of t] by simp
  qed (use 1 once_inv_calling once_inv_constructing once_inv_storing once_inv_notifying once_inv_awaiting once_inv_reading in metis)+
qed

lemma once_reachable: "(once_step construct)\<^sup>*\<^sup>* once_new s \<Longrightarrow> once_inv s"
  by (induction rule: rtranclp_induct) (auto intro: once_inv_new once_inv_step)

text \<open>C32. In every interleaving of threads that call \<open>call_once\<close>, the constructor runs at most once, the panic for an
  invalid status is never reached, and every call that has returned has returned the same initialised value.  A thread
  that sleeps is woken: another thread is still constructing the value while the status says that somebody waits, or is
  about to wake the sleepers.\<close>

theorem once_initialises_once:
  assumes "(once_step construct)\<^sup>*\<^sup>* once_new s"
  shows "once_runs s \<le> 1 \<and> (\<forall>t. once_at s t \<noteq> Unreachable) \<and>
    (\<forall>t u r r'. once_at s t = Returned r \<and> once_at s u = Returned r' \<longrightarrow> r \<noteq> None \<and> r' = r) \<and>
    (\<forall>t. once_at s t = AwaitingOnce Parked \<longrightarrow>
       (\<exists>u. once_at s u \<in> {Constructing, Storing} \<and> once_status s = ONCE_WAITING) \<or> (\<exists>u. once_at s u = Notifying))"
proof -
  note I = once_invD [OF once_reachable [OF assms]]
  have "once_runs s \<le> 1" using I(4) by simp
  moreover have "once_at s t \<noteq> Unreachable" for t using I(5) [of t] by auto
  moreover have "r \<noteq> None \<and> r' = r" if "once_at s t = Returned r" "once_at s u = Returned r'" for t u r r'
    using I(5) [of t] I(5) [of u] I(3) that by simp
  moreover have "(\<exists>u. once_at s u \<in> {Constructing, Storing} \<and> once_status s = ONCE_WAITING) \<or> (\<exists>u. once_at s u = Notifying)"
    if "once_at s t = AwaitingOnce Parked" for t
    using I(8) [OF that] I(7) by blast
  ultimately show ?thesis by blast
qed

text \<open>Thread 0 initialises the value while nobody else calls, then thread 1 reads it.\<close>

lemma once_steps: "(once_step construct)\<^sup>*\<^sup>* s (fold (\<lambda>t. call_once construct False t) ts s)"
proof (induction ts arbitrary: s)
  case (Cons t ts)
  then show ?case using once_step.intros [of construct s False t] by (simp add: converse_rtranclp_into_rtranclp)
qed simp

theorem once_initialises_once_witness:
  "\<exists>s :: (nat, nat) once. once_runs s \<le> 1 \<and> once_at s 0 = Returned (Some 10) \<and> once_at s 1 = Returned (Some 10)"
proof -
  let ?c = "\<lambda>t. t + 10 :: nat"
  let ?s = "fold (\<lambda>t. call_once ?c False t) [0, 0, 0, 0, 1, 1] once_new"
  have "once_at ?s 0 = Returned (Some 10)" "once_at ?s 1 = Returned (Some 10)"
    by (simp_all add: call_once_def once_new_def compare_exchange_def compare_exchange_weak_def once_words)
  moreover have "once_runs ?s \<le> 1" by (rule conjunct1 [OF once_initialises_once [OF once_steps]])
  ultimately show ?thesis by blast
qed

section \<open>Semaphore\<close>

text \<open>The count is a 32 bit word.  The list says which of the next compare-and-exchanges fail for no reason.\<close>

fun sem_try_wait :: "bool list \<Rightarrow> u32 \<Rightarrow> u32 \<times> u32" where
  "sem_try_wait spurious count =
     (let value = count in
      if value = 0 then (0, count)
      else case spurious of
        True # spurious \<Rightarrow> sem_try_wait spurious count
      | _ \<Rightarrow> (value, value - 1))"

declare sem_try_wait.simps [simp del]

lemma sem_try_wait_run: "sem_try_wait spurious count = (if count = 0 then (0, 0) else (count, count - 1))"
proof (induction spurious)
  case (Cons b spurious)
  then show ?case by (cases b; subst sem_try_wait.simps) (auto simp: Let_def)
qed (subst sem_try_wait.simps, auto)

definition sem_post :: "u32 \<Rightarrow> u32 \<Rightarrow> u32" where
  "sem_post n count = count + n"

text \<open>The time left, from an absolute time with seconds and nanoseconds.\<close>

function borrow_second :: "int \<times> int \<Rightarrow> int \<Rightarrow> int \<times> int" where
  "borrow_second relative nsec =
     (if snd relative < nsec then borrow_second (fst relative - 1, snd relative + 1000000000) nsec else relative)"
  by pat_completeness auto

termination by (relation "measure (\<lambda>(relative, nsec). nat (nsec - snd relative))") auto

declare borrow_second.simps [simp del]

definition relative_time :: "int \<times> int \<Rightarrow> int \<times> int \<Rightarrow> int \<times> int" where
  "relative_time timeout time =
     (let relative = borrow_second timeout (snd time) in (fst relative - fst time, snd relative - snd time))"

text \<open>\<open>wait\<close> while no other thread uses the semaphore: the count has just been lowered, so that \<open>futex_wait\<close> with the old
  value returns at once.  \<open>clock k\<close> is the time at the \<open>k\<close>th turn of the loop; \<open>False\<close> is the error of a timeout.\<close>

function sem_wait :: "(nat \<Rightarrow> int \<times> int) \<Rightarrow> (int \<times> int) option \<Rightarrow> nat \<Rightarrow> u32 \<Rightarrow> bool \<times> u32" where
  "sem_wait clock timeout_opt k count =
     (let (value, count) = sem_try_wait [] count in
      if value = 0 then (True, count)
      else case timeout_opt of
        Some timeout \<Rightarrow>
          let time = clock k in
          if fst time > fst timeout \<or> (fst time = fst timeout \<and> snd time \<ge> snd timeout) then (False, count)
          else sem_wait clock timeout_opt (k + 1) count
      | None \<Rightarrow> sem_wait clock timeout_opt (k + 1) count)"
  by pat_completeness auto

termination
proof (relation "measure (\<lambda>(clock, timeout_opt, k, count). unat count)")
qed (auto simp: sem_try_wait_run unat_minus_one unat_gt_0 split: if_splits)

declare sem_wait.simps [simp del]

lemma borrow_second_value: "0 \<le> n \<Longrightarrow> snd (borrow_second r n) \<ge> n \<and>
    fst (borrow_second r n) * 1000000000 + snd (borrow_second r n) = fst r * 1000000000 + snd r"
proof (induction r n rule: borrow_second.induct)
  case (1 r n)
  then show ?case by (subst (1 2 3) borrow_second.simps) auto
qed

text \<open>The time left is the difference of the two times, with nanoseconds that are not negative.\<close>

lemma relative_time_value:
  assumes "0 \<le> snd time"
  shows "snd (relative_time timeout time) \<ge> 0 \<and>
    fst (relative_time timeout time) * 1000000000 + snd (relative_time timeout time) =
      (fst timeout * 1000000000 + snd timeout) - (fst time * 1000000000 + snd time)"
  using borrow_second_value [OF assms, of timeout] by (auto simp: relative_time_def Let_def algebra_simps)

text \<open>The test of the result of \<open>try_wait\<close> is the wrong way round: 0 means that the count was 0 and nothing was taken.
  A wait that takes a unit goes on, until it has taken them all, and a wait on a semaphore at 0 returns at once instead
  of waiting.\<close>

lemma sem_wait_drains: "sem_wait clock None k count = (True, 0)"
proof (induction clock "None :: (int \<times> int) option" k count rule: sem_wait.induct)
  case (1 clock k count)
  then show ?case by (subst sem_wait.simps) (simp add: sem_try_wait_run)
qed

end
