(* ===== verification/Rwlock.thy ===== *)
theory Rwlock
  imports Prelude
begin

text \<open>The readers-writer lock of the C library, \<open>relibc/src/sync/rwlock.rs\<close>.

  The state of the lock is its 32 bit word and the place in the code of each thread, with the local variables that are
  live there.  A step lets one thread execute its next atomic operation.  A weak compare-and-exchange may fail and a
  sleeping thread may wake for no reason, or at its deadline, whose result the code ignores.

  The lemmas show that a writer excludes readers and other writers, that the word counts the readers, and that a thread
  sleeps only while the lock is held or somebody is about to wake it.\<close>

section \<open>The lock word\<close>

definition WAITING_WR :: u32 where "WAITING_WR = push_bit 31 1"
definition COUNT_MASK :: u32 where "COUNT_MASK = WAITING_WR - 1"
definition EXCLUSIVE :: u32 where "EXCLUSIVE = COUNT_MASK"

definition rw_compare_exchange_weak :: "bool \<Rightarrow> u32 \<Rightarrow> u32 \<Rightarrow> u32 \<Rightarrow> u32 \<times> bool" where
  "rw_compare_exchange_weak spurious current new w = (if w = current \<and> \<not> spurious then (new, True) else (w, False))"

section \<open>Threads\<close>

text \<open>The flag \<open>nb\<close> tells \<open>try_acquire_write_lock\<close> and \<open>try_acquire_read_lock\<close>, which return instead of sleeping, from the
  calls that sleep.  The places of a writer: before the compare-and-exchange with the value of \<open>waiting_wr\<close>, before
  \<open>fetch_or\<close> with the value of \<open>actual\<close>, before \<open>futex_wait\<close> with the value of \<open>expected\<close>, asleep, and holding the lock;
  those of a reader are similar.  \<open>StoreZero\<close> and \<open>FetchSub\<close> are in \<open>unlock\<close> after its load, \<open>WakeAll\<close> is before its
  \<open>futex_wake\<close>, and \<open>TooMany\<close> is the panic of the assertion on the number of readers.\<close>

datatype rw_place = NoLock | WriteCas bool u32 | FetchOr u32 | WriteWait u32 | WriteAsleep u32 | Writing
  | ReadLoad | ReadCas bool u32 | ReadWait u32 | ReadAsleep | Reading | StoreZero | FetchSub | WakeAll | TooMany

record 't rwlock =
  rw_state :: u32
  rw_at :: "'t \<Rightarrow> rw_place"

definition rwlock_new :: "'t rwlock" where
  "rwlock_new = \<lparr>rw_state = 0, rw_at = (\<lambda>t. NoLock)\<rparr>"

definition goto :: "'t \<Rightarrow> rw_place \<Rightarrow> 't rwlock \<Rightarrow> 't rwlock" where
  "goto t q s = s\<lparr>rw_at := (rw_at s)(t := q)\<rparr>"

text \<open>The loads that the four ways of acquiring the lock, and \<open>unlock\<close>, start with.\<close>

definition acquire_write_start :: "bool \<Rightarrow> 't \<Rightarrow> 't rwlock \<Rightarrow> 't rwlock" where
  "acquire_write_start nb t s = goto t (WriteCas nb (rw_state s AND WAITING_WR)) s"

definition acquire_read_start :: "bool \<Rightarrow> 't \<Rightarrow> 't rwlock \<Rightarrow> 't rwlock" where
  "acquire_read_start nb t s = goto t (ReadCas nb (rw_state s)) s"

definition unlock_start :: "'t \<Rightarrow> 't rwlock \<Rightarrow> 't rwlock" where
  "unlock_start t s = goto t (if rw_state s AND COUNT_MASK = EXCLUSIVE then StoreZero else FetchSub) s"

text \<open>One turn of the loop of \<open>acquire_write_lock\<close> or \<open>try_acquire_write_lock\<close>.\<close>

definition write_cas :: "bool \<Rightarrow> bool \<Rightarrow> u32 \<Rightarrow> 't \<Rightarrow> 't rwlock \<Rightarrow> 't rwlock" where
  "write_cas spurious nb waiting_wr t s =
     (let actual = rw_state s; (w, ok) = rw_compare_exchange_weak spurious waiting_wr EXCLUSIVE actual in
      if ok then goto t Writing (s\<lparr>rw_state := w\<rparr>)
      else if nb then
        if actual AND COUNT_MASK > 0 then goto t NoLock s else goto t (WriteCas True (actual AND WAITING_WR)) s
      else if actual AND COUNT_MASK \<noteq> EXCLUSIVE then goto t (FetchOr actual) s
      else goto t (WriteWait actual) s)"

text \<open>After \<open>fetch_or\<close> the thread sleeps when \<open>actual\<close> had readers and retries otherwise.\<close>

definition write_fetch_or :: "u32 \<Rightarrow> 't \<Rightarrow> 't rwlock \<Rightarrow> 't rwlock" where
  "write_fetch_or actual t s =
     (let expected = actual OR WAITING_WR; s = s\<lparr>rw_state := rw_state s OR WAITING_WR\<rparr> in
      if actual AND COUNT_MASK > 0 then goto t (WriteWait expected) s
      else goto t (WriteCas False (expected AND WAITING_WR)) s)"

definition write_wait :: "u32 \<Rightarrow> 't \<Rightarrow> 't rwlock \<Rightarrow> 't rwlock" where
  "write_wait expected t s =
     goto t (if rw_state s = expected then WriteAsleep expected else WriteCas False (expected AND WAITING_WR)) s"

text \<open>One turn of the loop of \<open>try_acquire_read_lock\<close>, from which \<open>acquire_read_lock\<close> goes to sleep on an error.\<close>

definition read_cas :: "bool \<Rightarrow> bool \<Rightarrow> u32 \<Rightarrow> 't \<Rightarrow> 't rwlock \<Rightarrow> 't rwlock" where
  "read_cas spurious nb cached t s =
     (let waiting_wr = cached AND WAITING_WR;
          old = (if cached AND COUNT_MASK = EXCLUSIVE then 0 else cached AND COUNT_MASK);
          new = old + 1 in
      if new AND COUNT_MASK = EXCLUSIVE then goto t TooMany s
      else
        let value = rw_state s;
            (w, ok) = rw_compare_exchange_weak spurious ((old AND COUNT_MASK) OR waiting_wr) (new OR waiting_wr) value in
        if ok then goto t Reading (s\<lparr>rw_state := w\<rparr>)
        else if value AND COUNT_MASK = EXCLUSIVE then goto t (if nb then NoLock else ReadWait value) s
        else goto t (ReadCas nb value) s)"

text \<open>After \<open>futex_wait\<close> the loop of \<open>acquire_read_lock\<close> calls \<open>try_acquire_read_lock\<close>, which loads the state again.\<close>

definition read_wait :: "u32 \<Rightarrow> 't \<Rightarrow> 't rwlock \<Rightarrow> 't rwlock" where
  "read_wait old t s = goto t (if rw_state s = old then ReadAsleep else ReadLoad) s"

definition unlock_store :: "'t \<Rightarrow> 't rwlock \<Rightarrow> 't rwlock" where
  "unlock_store t s = goto t WakeAll (s\<lparr>rw_state := 0\<rparr>)"

definition unlock_fetch_sub :: "'t \<Rightarrow> 't rwlock \<Rightarrow> 't rwlock" where
  "unlock_fetch_sub t s =
     goto t (if rw_state s AND COUNT_MASK = 1 then WakeAll else NoLock) (s\<lparr>rw_state := rw_state s - 1\<rparr>)"

text \<open>A thread that is woken goes on as after \<open>futex_wait\<close>.\<close>

definition rw_woken :: "rw_place \<Rightarrow> rw_place" where
  "rw_woken p = (case p of WriteAsleep expected \<Rightarrow> WriteCas False (expected AND WAITING_WR) | ReadAsleep \<Rightarrow> ReadLoad | q \<Rightarrow> q)"

definition unlock_wake_all :: "'t \<Rightarrow> 't rwlock \<Rightarrow> 't rwlock" where
  "unlock_wake_all t s = s\<lparr>rw_at := (\<lambda>u. if u = t then NoLock else rw_woken (rw_at s u))\<rparr>"

inductive rw_step :: "'t rwlock \<Rightarrow> 't rwlock \<Rightarrow> bool" where
  acquire_write: "rw_at s t = NoLock \<Longrightarrow> rw_step s (acquire_write_start nb t s)"
| acquire_read: "rw_at s t = NoLock \<Longrightarrow> rw_step s (acquire_read_start nb t s)"
| write_cas: "rw_at s t = WriteCas nb v \<Longrightarrow> rw_step s (write_cas spurious nb v t s)"
| fetch_or: "rw_at s t = FetchOr actual \<Longrightarrow> rw_step s (write_fetch_or actual t s)"
| write_wait: "rw_at s t = WriteWait expected \<Longrightarrow> rw_step s (write_wait expected t s)"
| read_load: "rw_at s t = ReadLoad \<Longrightarrow> rw_step s (acquire_read_start False t s)"
| read_cas: "rw_at s t = ReadCas nb cached \<Longrightarrow> rw_step s (read_cas spurious nb cached t s)"
| read_wait: "rw_at s t = ReadWait old \<Longrightarrow> rw_step s (read_wait old t s)"
| spurious_wake: "rw_at s t \<in> {WriteAsleep e, ReadAsleep} \<Longrightarrow> rw_step s (goto t (rw_woken (rw_at s t)) s)"
| unlock: "rw_at s t \<in> {Writing, Reading} \<Longrightarrow> rw_step s (unlock_start t s)"
| store_zero: "rw_at s t = StoreZero \<Longrightarrow> rw_step s (unlock_store t s)"
| fetch_sub: "rw_at s t = FetchSub \<Longrightarrow> rw_step s (unlock_fetch_sub t s)"
| wake_all: "rw_at s t = WakeAll \<Longrightarrow> rw_step s (unlock_wake_all t s)"

section \<open>The count in the lock word\<close>

definition count_of :: "u32 \<Rightarrow> nat" where
  "count_of w = unat (w AND COUNT_MASK)"

lemma COUNT_MASK_mask: "COUNT_MASK = mask 31"
  by (simp add: COUNT_MASK_def WAITING_WR_def mask_eq_exp_minus_1 push_bit_eq_mult)

lemma count_of_mod: "count_of w = unat w mod 2 ^ 31"
proof -
  have "count_of w = take_bit 31 (unat w)" unfolding count_of_def COUNT_MASK_mask take_bit_eq_mask [symmetric] by (rule unsigned_take_bit_eq)
  then show ?thesis by (simp only: take_bit_eq_mod)
qed

lemma count_of_exclusive: "count_of EXCLUSIVE = 2 ^ 31 - 1"
  by (simp add: count_of_mod EXCLUSIVE_def COUNT_MASK_def WAITING_WR_def)

lemma is_exclusive: "w AND COUNT_MASK = EXCLUSIVE \<longleftrightarrow> count_of w = 2 ^ 31 - 1"
proof -
  have "EXCLUSIVE AND COUNT_MASK = EXCLUSIVE" by (simp add: EXCLUSIVE_def)
  then show ?thesis using count_of_exclusive by (simp add: count_of_def word_unat_eq_iff)
qed

lemma is_positive: "w AND COUNT_MASK > 0 \<longleftrightarrow> count_of w > 0" "w AND COUNT_MASK = 1 \<longleftrightarrow> count_of w = 1"
  by (simp_all add: count_of_def word_less_nat_alt word_unat_eq_iff)

lemma count_of_less: "count_of w < 2 ^ 31" by (simp add: count_of_mod)

lemma bit_single: "bit (push_bit m (1 :: u32)) n \<longleftrightarrow> n = m \<and> m < 32"
  by (auto simp: bit_simps)

lemma count_of_waiting: "count_of (w AND WAITING_WR) = 0" "count_of (w OR WAITING_WR) = count_of w"
proof -
  have "bit ((w AND WAITING_WR) AND COUNT_MASK) n \<longleftrightarrow> bit (0 :: u32) n" "bit ((w OR WAITING_WR) AND COUNT_MASK) n \<longleftrightarrow> bit (w AND COUNT_MASK) n" for n
    unfolding COUNT_MASK_mask WAITING_WR_def bit_and_iff bit_or_iff bit_mask_iff bit_single by auto
  then have "(w AND WAITING_WR) AND COUNT_MASK = 0" "(w OR WAITING_WR) AND COUNT_MASK = w AND COUNT_MASK" by (auto intro: bit_word_eqI)
  then show "count_of (w AND WAITING_WR) = 0" "count_of (w OR WAITING_WR) = count_of w" by (simp_all add: count_of_def)
qed

lemma count_of_WAITING_WR [simp]: "count_of WAITING_WR = 0"
  using count_of_waiting(1) [of WAITING_WR] by simp

lemma count_of_minus_one: "0 < count_of w \<Longrightarrow> count_of (w - 1) = count_of w - 1"
proof -
  assume pos: "0 < count_of w"
  then have "0 < unat w" by (metis count_of_mod gr0I mod_0 less_irrefl)
  then have "unat (w - 1) = unat w - 1" by (simp add: unat_minus_one unat_gt_0)
  then show ?thesis using pos unfolding count_of_mod by (metis Suc_pred' mod_Suc not_gr_zero Suc_diff_1 diff_Suc_1 \<open>0 < unat w\<close>)
qed

lemma count_of_reader:
  assumes "count_of old = unat old" "count_of old + 1 < 2 ^ 31"
  shows "count_of ((old AND COUNT_MASK) OR (x AND WAITING_WR)) = count_of old" "count_of ((old + 1) OR (x AND WAITING_WR)) = count_of old + 1"
proof -
  have dist: "(a OR (x AND WAITING_WR)) AND COUNT_MASK = a AND COUNT_MASK" for a
    by (rule bit_word_eqI) (unfold COUNT_MASK_mask WAITING_WR_def bit_and_iff bit_or_iff bit_mask_iff bit_single, auto)
  have "unat (old + 1) = unat old + 1" using assms by (simp add: unat_word_ariths)
  then show "count_of ((old + 1) OR (x AND WAITING_WR)) = count_of old + 1"
    using assms unfolding count_of_def [of "_ OR _"] dist by (simp add: count_of_mod flip: count_of_def)
  show "count_of ((old AND COUNT_MASK) OR (x AND WAITING_WR)) = count_of old" unfolding count_of_def dist by simp
qed

section \<open>A writer excludes readers\<close>

definition writers :: "'t rwlock \<Rightarrow> 't set" where
  "writers s = {t. rw_at s t \<in> {Writing, StoreZero}}"

definition readers :: "'t rwlock \<Rightarrow> 't set" where
  "readers s = {t. rw_at s t \<in> {Reading, FetchSub}}"

definition sleeping :: "rw_place \<Rightarrow> bool" where
  "sleeping p \<longleftrightarrow> (case p of WriteAsleep e \<Rightarrow> True | ReadAsleep \<Rightarrow> True | _ \<Rightarrow> False)"

fun rw_place_ok :: "rw_place \<Rightarrow> bool" where
  "rw_place_ok (WriteCas nb v) = (count_of v = 0)"
| "rw_place_ok (WriteWait e) = (count_of e > 0)"
| "rw_place_ok (ReadWait v) = (count_of v > 0)"
| "rw_place_ok _ = True"

definition rw_inv :: "'t rwlock \<Rightarrow> bool" where
  "rw_inv s \<longleftrightarrow> finite (readers s) \<and>
     (if count_of (rw_state s) = 2 ^ 31 - 1 then readers s = {} \<and> (\<exists>t. writers s = {t})
      else writers s = {} \<and> count_of (rw_state s) = card (readers s)) \<and>
     (\<forall>t. rw_place_ok (rw_at s t)) \<and>
     ((\<exists>t. sleeping (rw_at s t)) \<longrightarrow> count_of (rw_state s) > 0 \<or> (\<exists>u. rw_at s u = WakeAll))"

lemma rw_inv_new: "rw_inv rwlock_new"
  by (simp add: rw_inv_def rwlock_new_def readers_def writers_def sleeping_def count_of_mod)

lemma rw_goto_sets:
  "readers (s\<lparr>rw_state := w, rw_at := (rw_at s)(t := q)\<rparr>) = (if q \<in> {Reading, FetchSub} then insert t (readers s) else readers s - {t})"
  "writers (s\<lparr>rw_state := w, rw_at := (rw_at s)(t := q)\<rparr>) = (if q \<in> {Writing, StoreZero} then insert t (writers s) else writers s - {t})"
  by (auto simp: readers_def writers_def)

lemma rw_invD:
  assumes "rw_inv s"
  shows "finite (readers s)" "count_of (rw_state s) = 2 ^ 31 - 1 \<Longrightarrow> readers s = {}" "count_of (rw_state s) = 2 ^ 31 - 1 \<Longrightarrow> \<exists>t. writers s = {t}"
    and "count_of (rw_state s) \<noteq> 2 ^ 31 - 1 \<Longrightarrow> writers s = {}" "count_of (rw_state s) \<noteq> 2 ^ 31 - 1 \<Longrightarrow> count_of (rw_state s) = card (readers s)"
    and "rw_place_ok (rw_at s t)" "sleeping (rw_at s t) \<Longrightarrow> count_of (rw_state s) > 0 \<or> (\<exists>u. rw_at s u = WakeAll)"
  using assms unfolding rw_inv_def by (auto split: if_splits)

lemma rw_invI:
  assumes "finite (readers s)" "count_of (rw_state s) = 2 ^ 31 - 1 \<Longrightarrow> readers s = {} \<and> (\<exists>t. writers s = {t})"
    and "count_of (rw_state s) \<noteq> 2 ^ 31 - 1 \<Longrightarrow> writers s = {} \<and> count_of (rw_state s) = card (readers s)"
    and "\<And>t. rw_place_ok (rw_at s t)" "\<And>t. sleeping (rw_at s t) \<Longrightarrow> count_of (rw_state s) > 0 \<or> (\<exists>u. rw_at s u = WakeAll)"
  shows "rw_inv s"
  using assms unfolding rw_inv_def by (cases "count_of (rw_state s) = 2 ^ 31 - 1") auto

text \<open>A thread that neither takes nor gives back the lock and does not wake others.\<close>

lemma rw_inv_move:
  assumes inv: "rw_inv s" and w: "count_of w = count_of (rw_state s)"
    and q: "rw_place_ok q" "q \<in> {Reading, FetchSub} \<longleftrightarrow> rw_at s t \<in> {Reading, FetchSub}"
      "q \<in> {Writing, StoreZero} \<longleftrightarrow> rw_at s t \<in> {Writing, StoreZero}" "rw_at s t \<noteq> WakeAll" "sleeping q \<Longrightarrow> count_of w > 0"
  shows "rw_inv (s\<lparr>rw_state := w, rw_at := (rw_at s)(t := q)\<rparr>)" (is "rw_inv ?s")
proof -
  have sets: "readers ?s = readers s" "writers ?s = writers s" using q(2,3) by (auto simp: readers_def writers_def)
  have sel: "rw_state ?s = w" "rw_at ?s = (rw_at s)(t := q)" by simp_all
  show ?thesis
  proof (rule rw_invI; unfold sets sel w)
    show "count_of (rw_state s) > 0 \<or> (\<exists>u. ((rw_at s)(t := q)) u = WakeAll)" if "sleeping (((rw_at s)(t := q)) v)" for v
    proof (cases "v = t")
      case False
      then have "count_of (rw_state s) > 0 \<or> (\<exists>u. rw_at s u = WakeAll)" using rw_invD(7) [OF inv, of v] that by simp
      then show ?thesis using q(4) by (metis fun_upd_apply)
    qed (use that q(5) w in auto)
  qed (use rw_invD [OF inv] q(1) in auto)
qed

lemma rw_inv_take_write:
  assumes inv: "rw_inv s" and free: "count_of (rw_state s) = 0" and t: "rw_at s t \<noteq> WakeAll"
  shows "rw_inv (s\<lparr>rw_state := EXCLUSIVE, rw_at := (rw_at s)(t := Writing)\<rparr>)" (is "rw_inv ?s")
proof -
  have "readers s = {}" "writers s = {}" using rw_invD(1,4,5) [OF inv] free by auto
  then show ?thesis by (intro rw_invI) (use rw_invD(6) [OF inv] in \<open>auto simp: rw_goto_sets count_of_exclusive\<close>)
qed

lemma rw_inv_take_read:
  assumes inv: "rw_inv s" and w: "count_of w = count_of (rw_state s) + 1" "count_of w < 2 ^ 31 - 1" and t: "t \<notin> readers s"
  shows "rw_inv (s\<lparr>rw_state := w, rw_at := (rw_at s)(t := Reading)\<rparr>)"
proof -
  have "count_of (rw_state s) \<noteq> 2 ^ 31 - 1" using w by simp
  then have "writers s = {}" "count_of (rw_state s) = card (readers s)" using rw_invD(4,5) [OF inv] by auto
  then show ?thesis by (intro rw_invI) (use rw_invD(1,6) [OF inv] w t in \<open>auto simp: rw_goto_sets\<close>)
qed

lemma rw_inv_release_write:
  assumes inv: "rw_inv s" and t: "rw_at s t = StoreZero"
  shows "rw_inv (s\<lparr>rw_state := 0, rw_at := (rw_at s)(t := WakeAll)\<rparr>)"
proof -
  have "t \<in> writers s" using t by (simp add: writers_def)
  then have "readers s = {}" "writers s = {t}" using rw_invD(2,3,4) [OF inv] by (cases "count_of (rw_state s) = 2 ^ 31 - 1"; auto)+
  then show ?thesis by (intro rw_invI) (use rw_invD(6) [OF inv] in \<open>auto simp: rw_goto_sets count_of_mod\<close>)
qed

lemma rw_reader_count: "rw_inv s \<Longrightarrow> t \<in> readers s \<Longrightarrow> count_of (rw_state s) \<noteq> 2 ^ 31 - 1 \<and> count_of (rw_state s) > 0"
  using rw_invD(1,2,5) [of s] by (metis card_gt_0_iff empty_iff)

lemma rw_inv_release_read:
  assumes inv: "rw_inv s" and t: "rw_at s t = FetchSub"
  shows "rw_inv (s\<lparr>rw_state := rw_state s - 1, rw_at := (rw_at s)(t := if rw_state s AND COUNT_MASK = 1 then WakeAll else NoLock)\<rparr>)"
    (is "rw_inv ?s")
proof -
  let ?q = "if rw_state s AND COUNT_MASK = 1 then WakeAll else NoLock"
  have r: "t \<in> readers s" using t by (simp add: readers_def)
  note c = rw_reader_count [OF inv r]
  have less: "count_of (rw_state s - 1) = count_of (rw_state s) - 1" using c by (intro count_of_minus_one) simp
  have n: "writers s = {}" "count_of (rw_state s) = card (readers s)" "finite (readers s)" using rw_invD(1,4,5) [OF inv] c by auto
  have sets: "readers ?s = readers s - {t}" "writers ?s = {}" using n(1) by (auto simp: rw_goto_sets)
  have sel: "rw_state ?s = rw_state s - 1" "rw_at ?s = (rw_at s)(t := ?q)" by simp_all
  show ?thesis
  proof (rule rw_invI; unfold sets sel less)
    show "rw_place_ok (((rw_at s)(t := ?q)) u)" for u using rw_invD(6) [OF inv, of u] by simp
    show "0 < count_of (rw_state s) - 1 \<or> (\<exists>u. ((rw_at s)(t := ?q)) u = WakeAll)" for v
    proof (cases "count_of (rw_state s) = 1")
      case True
      then have "((rw_at s)(t := ?q)) t = WakeAll" by (simp add: is_positive)
      then show ?thesis by blast
    qed (use c in linarith)
  qed (use n r c count_of_less [of "rw_state s"] in auto)
qed

lemma rw_woken_class: "rw_woken p \<in> {Reading, FetchSub} \<longleftrightarrow> p \<in> {Reading, FetchSub}" "rw_woken p \<in> {Writing, StoreZero} \<longleftrightarrow> p \<in> {Writing, StoreZero}"
  by (cases p; simp add: rw_woken_def)+

lemma rw_inv_wake:
  assumes inv: "rw_inv s" and t: "rw_at s t = WakeAll"
  shows "rw_inv (unlock_wake_all t s)" (is "rw_inv ?s")
proof -
  have sets: "readers ?s = readers s" "writers ?s = writers s"
    using t unfolding readers_def writers_def unlock_wake_all_def by (auto simp: rw_woken_class [simplified])
  have ok: "rw_place_ok (rw_at ?s u)" "\<not> sleeping (rw_at ?s u)" for u
    using rw_invD(6) [OF inv, of u]
    by (cases "rw_at s u"; auto simp: unlock_wake_all_def rw_woken_def sleeping_def count_of_waiting)+
  show ?thesis by (rule rw_invI; (unfold sets)?) (use rw_invD(1-5) [OF inv] ok in \<open>auto simp: unlock_wake_all_def\<close>)
qed

text \<open>The steps that only move a thread to another place.\<close>

lemma rw_inv_goto:
  assumes "rw_inv s" "rw_place_ok q" "q \<in> {Reading, FetchSub} \<longleftrightarrow> rw_at s t \<in> {Reading, FetchSub}"
    and "q \<in> {Writing, StoreZero} \<longleftrightarrow> rw_at s t \<in> {Writing, StoreZero}" "rw_at s t \<noteq> WakeAll" "sleeping q \<Longrightarrow> count_of (rw_state s) > 0"
  shows "rw_inv (goto t q s)"
  using rw_inv_move [OF assms(1) refl assms(2-5)] assms(6) by (simp add: goto_def)

lemma rw_inv_write_cas:
  assumes inv: "rw_inv s" and t: "rw_at s t = WriteCas nb v"
  shows "rw_inv (write_cas spurious nb v t s)"
proof -
  have v: "count_of v = 0" using rw_invD(6) [OF inv, of t] t by simp
  show ?thesis
  proof (cases "rw_state s = v \<and> \<not> spurious")
    case True
    then show ?thesis using rw_inv_take_write [OF inv, of t] v t by (simp add: write_cas_def rw_compare_exchange_weak_def goto_def)
  next
    case False
    have "\<exists>q. write_cas spurious nb v t s = s\<lparr>rw_state := rw_state s, rw_at := (rw_at s)(t := q)\<rparr> \<and> rw_place_ok q \<and>
        q \<notin> {Reading, FetchSub, Writing, StoreZero} \<and> \<not> sleeping q"
      using False by (cases s) (auto simp: write_cas_def rw_compare_exchange_weak_def goto_def Let_def sleeping_def count_of_waiting is_exclusive)
    then obtain q where run: "write_cas spurious nb v t s = s\<lparr>rw_state := rw_state s, rw_at := (rw_at s)(t := q)\<rparr>"
      and q: "rw_place_ok q" "q \<notin> {Reading, FetchSub, Writing, StoreZero}" "\<not> sleeping q" by blast
    show ?thesis unfolding run by (rule rw_inv_move [OF inv]) (use q t in auto)
  qed
qed

lemma rw_inv_read_cas:
  assumes inv: "rw_inv s" and t: "rw_at s t = ReadCas nb cached"
  shows "rw_inv (read_cas spurious nb cached t s)"
proof -
  define old where "old = (if cached AND COUNT_MASK = EXCLUSIVE then 0 else cached AND COUNT_MASK)"
  let ?wr = "cached AND WAITING_WR"
  have old: "count_of old = unat old" unfolding old_def count_of_def by simp
  show ?thesis
  proof (cases "(old + 1) AND COUNT_MASK \<noteq> EXCLUSIVE \<and> rw_state s = (old AND COUNT_MASK) OR ?wr \<and> \<not> spurious")
    case True
    have less: "count_of old + 1 < 2 ^ 31 - 1"
    proof -
      have "count_of old + 1 < 2 ^ 31" unfolding old_def using count_of_less [of cached]
        by (auto simp: is_exclusive count_of_def count_of_mod [unfolded count_of_def])
      moreover from this have "count_of (old + 1) = count_of old + 1" using old by (simp add: count_of_mod unat_word_ariths)
      ultimately show ?thesis using True by (simp add: is_exclusive)
    qed
    have w: "count_of (rw_state s) = count_of old" "count_of ((old + 1) OR ?wr) = count_of old + 1"
      using True count_of_reader [OF old, of cached] less by auto
    have run: "read_cas spurious nb cached t s = s\<lparr>rw_state := (old + 1) OR ?wr, rw_at := (rw_at s)(t := Reading)\<rparr>"
      using True by (simp add: read_cas_def old_def [symmetric] rw_compare_exchange_weak_def goto_def Let_def)
    show ?thesis unfolding run by (rule rw_inv_take_read [OF inv]) (use w less t in \<open>auto simp: readers_def\<close>)
  next
    case False
    define q where "q = (if (old + 1) AND COUNT_MASK = EXCLUSIVE then TooMany
      else if rw_state s AND COUNT_MASK = EXCLUSIVE then if nb then NoLock else ReadWait (rw_state s) else ReadCas nb (rw_state s))"
    have run: "read_cas spurious nb cached t s = goto t q s"
      using False unfolding read_cas_def old_def [symmetric] Let_def by (auto simp: rw_compare_exchange_weak_def q_def)
    have "rw_place_ok q" "q \<notin> {Reading, FetchSub, Writing, StoreZero}" "\<not> sleeping q"
      unfolding q_def by (auto simp: is_exclusive sleeping_def)
    then show ?thesis unfolding run using t by (intro rw_inv_goto [OF inv]) auto
  qed
qed

lemma rw_inv_unlock:
  assumes inv: "rw_inv s" and t: "rw_at s t \<in> {Writing, Reading}"
  shows "rw_inv (unlock_start t s)"
proof -
  have "t \<in> writers s \<or> t \<in> readers s" using t by (auto simp: writers_def readers_def)
  then have "rw_at s t = Writing \<longleftrightarrow> rw_state s AND COUNT_MASK = EXCLUSIVE"
    using rw_invD(2,4) [OF inv] t by (auto simp: is_exclusive writers_def readers_def)
  then show ?thesis unfolding unlock_start_def using t by (intro rw_inv_goto [OF inv]) (auto simp: sleeping_def)
qed

lemma rw_inv_step: "rw_step s s' \<Longrightarrow> rw_inv s \<Longrightarrow> rw_inv s'"
proof (induction rule: rw_step.induct)
  case (acquire_write s t nb)
  then show ?case unfolding acquire_write_start_def by (intro rw_inv_goto) (auto simp: count_of_waiting sleeping_def)
next
  case (acquire_read s t nb)
  then show ?case unfolding acquire_read_start_def by (intro rw_inv_goto) (auto simp: sleeping_def)
next
  case (fetch_or s t actual)
  let ?q = "if actual AND COUNT_MASK > 0 then WriteWait (actual OR WAITING_WR) else WriteCas False ((actual OR WAITING_WR) AND WAITING_WR)"
  have run: "write_fetch_or actual t s = s\<lparr>rw_state := rw_state s OR WAITING_WR, rw_at := (rw_at s)(t := ?q)\<rparr>"
    by (simp add: write_fetch_or_def goto_def Let_def)
  show ?case unfolding run
    by (rule rw_inv_move [OF fetch_or.prems]) (use fetch_or.hyps in \<open>auto simp: count_of_waiting sleeping_def is_positive split: if_splits\<close>)
next
  case (write_wait s t expected)
  then show ?case using rw_invD(6) [OF write_wait.prems, of t] unfolding write_wait_def
    by (intro rw_inv_goto) (auto simp: count_of_waiting sleeping_def split: if_splits)
next
  case (read_load s t)
  then show ?case unfolding acquire_read_start_def by (intro rw_inv_goto) (auto simp: sleeping_def)
next
  case (read_wait s t old)
  then show ?case using rw_invD(6) [OF read_wait.prems, of t] unfolding read_wait_def
    by (intro rw_inv_goto) (auto simp: sleeping_def split: if_splits)
next
  case (spurious_wake s t e)
  then show ?case by (intro rw_inv_goto) (auto simp: rw_woken_def sleeping_def count_of_waiting)
next
  case (store_zero s t)
  then show ?case using rw_inv_release_write [of s t] by (simp add: unlock_store_def goto_def)
next
  case (fetch_sub s t)
  then show ?case using rw_inv_release_read [of s t] by (simp add: unlock_fetch_sub_def goto_def)
qed (simp_all add: rw_inv_write_cas rw_inv_read_cas rw_inv_unlock rw_inv_wake)

lemma rw_reachable: "rw_step\<^sup>*\<^sup>* rwlock_new s \<Longrightarrow> rw_inv s"
  by (induction rule: rtranclp_induct) (auto intro: rw_inv_new rw_inv_step)

text \<open>C29. In every interleaving of threads that take the lock for reading or writing, try to, and give it back, a thread
  that writes is the only one that holds the lock, and the low 31 bits of the word are the number of readers, or all set
  while there is a writer.  A thread that sleeps is not forgotten: some thread holds the lock, and the last one to give
  it back wakes the sleepers, or a thread that has given it back is about to.\<close>

theorem rwlock_excludes:
  assumes "rw_step\<^sup>*\<^sup>* rwlock_new s"
  shows "(\<forall>t u. rw_at s t = Writing \<and> rw_at s u \<in> {Writing, Reading} \<longrightarrow> t = u) \<and>
    count_of (rw_state s) = (if writers s = {} then card (readers s) else 2 ^ 31 - 1) \<and>
    (\<forall>t. sleeping (rw_at s t) \<longrightarrow> writers s \<union> readers s \<noteq> {} \<or> (\<exists>u. rw_at s u = WakeAll))"
proof -
  note I = rw_invD [OF rw_reachable [OF assms]]
  have one: "t = u" if "rw_at s t = Writing" "rw_at s u \<in> {Writing, Reading}" for t u
  proof -
    have t: "t \<in> writers s" using that(1) by (simp add: writers_def)
    then have "count_of (rw_state s) = 2 ^ 31 - 1" using I(4) by auto
    moreover have "u \<in> writers s \<or> u \<in> readers s" using that(2) by (auto simp: writers_def readers_def)
    ultimately show ?thesis using I(2,3) t by auto
  qed
  have count: "count_of (rw_state s) = (if writers s = {} then card (readers s) else 2 ^ 31 - 1)" using I(3,4,5) by fastforce
  have awake: "writers s \<union> readers s \<noteq> {} \<or> (\<exists>u. rw_at s u = WakeAll)" if "sleeping (rw_at s t)" for t
    using I(7) [OF that] count by auto
  show ?thesis using one count awake by blast
qed

theorem rwlock_excludes_witness:
  "\<exists>s :: nat rwlock. rw_at s 0 = Writing \<and> (\<forall>u. rw_at s u \<in> {Writing, Reading} \<longrightarrow> u = 0) \<and>
     count_of (rw_state s) = (if writers s = {} then card (readers s) else 2 ^ 31 - 1)"
proof -
  let ?s0 = "rwlock_new :: nat rwlock"
  let ?s1 = "acquire_write_start False 0 ?s0"
  let ?s2 = "write_cas False False 0 0 ?s1"
  have s1: "rw_at ?s1 0 = WriteCas False 0" "rw_state ?s1 = 0" by (simp_all add: acquire_write_start_def goto_def rwlock_new_def)
  have s2: "rw_at ?s2 0 = Writing"
    unfolding write_cas_def Let_def s1(2) by (simp add: rw_compare_exchange_weak_def goto_def)
  have "rw_step ?s0 ?s1" by (rule rw_step.acquire_write) (simp add: rwlock_new_def)
  moreover have "rw_step ?s1 ?s2" by (rule rw_step.write_cas [OF s1(1)])
  ultimately have "rw_step\<^sup>*\<^sup>* ?s0 ?s2" by (meson r_into_rtranclp rtranclp_trans)
  from rwlock_excludes [OF this] s2 show ?thesis by blast
qed

end
