(* ===== verification/RlctMutex.thy ===== *)
theory RlctMutex
  imports Prelude
begin

text \<open>The mutex of the thread functions of the C library, \<open>relibc/src/sync/pthread_mutex.rs\<close>: the four types of mutex,
  with recursive locking and error checking.

  The locking word holds the thread that owns the mutex, or 0.  The count of a recursive mutex is read and written only
  by the owner, so that each operation of the owner on it is one step with the atomic operation that goes before it.  A
  turn of the loop of \<open>lock_inner\<close> is one step, \<open>unlock\<close> is one, and the steps of the threads interleave freely.

  The lemmas show that at most one thread has the mutex, that the count of a recursive mutex is the number of times its
  owner has locked it, and that only the last unlock sets it free.\<close>

section \<open>The mutex\<close>

datatype mutex_ty = Normal | Def | Errck | Recursive

record rlct_mutex =
  inner :: u32
  recursive_count :: u32
  rl_ty :: mutex_ty
  robust :: bool

definition STATE_UNLOCKED :: u32 where "STATE_UNLOCKED = 0"
definition WAITING_BIT :: u32 where "WAITING_BIT = push_bit 31 1"
definition INDEX_MASK :: u32 where "INDEX_MASK = NOT WAITING_BIT"
definition RECURSIVE_COUNT_MAX_INCLUSIVE :: u32 where "RECURSIVE_COUNT_MAX_INCLUSIVE = - 1"

datatype lock_errno = EPERM | EAGAIN | EBUSY | EINVAL | EDEADLK | ETIMEDOUT

text \<open>The attributes for robustness and for the type are integers of the caller.\<close>

definition rlct_new :: "int \<Rightarrow> int \<Rightarrow> lock_errno + rlct_mutex" where
  "rlct_new attr_robust attr_ty =
     (case (if attr_robust = 1 then Some False else if attr_robust = 0 then Some True else None) of
        None \<Rightarrow> Inl EINVAL
      | Some r \<Rightarrow>
          (case (if attr_ty = 0 then Some Def else if attr_ty = 1 then Some Errck else if attr_ty = 3 then Some Recursive
                 else if attr_ty = 2 then Some Normal else None) of
             None \<Rightarrow> Inl EINVAL
           | Some k \<Rightarrow> Inr \<lparr>inner = STATE_UNLOCKED, recursive_count = 0, rl_ty = k, robust = r\<rparr>))"

definition increment_recursive_count :: "rlct_mutex \<Rightarrow> rlct_mutex \<times> (lock_errno + unit)" where
  "increment_recursive_count m =
     (if recursive_count m = RECURSIVE_COUNT_MAX_INCLUSIVE then (m, Inl EAGAIN)
      else (m\<lparr>recursive_count := recursive_count m + 1\<rparr>, Inr ()))"

text \<open>A turn of \<open>lock_inner\<close> returns, goes round again at once, or calls \<open>futex_wait\<close> with the value it has seen.  A wait
  that times out returns \<open>ETIMEDOUT\<close>, every other one goes round again.\<close>

datatype lock_turn = TurnReturns "lock_errno + unit" | TurnRetries | TurnWaits u32

definition lock_inner :: "bool \<Rightarrow> u32 \<Rightarrow> rlct_mutex \<Rightarrow> rlct_mutex \<times> lock_turn" where
  "lock_inner spurious this_thread m =
     (if inner m = STATE_UNLOCKED \<and> \<not> spurious then
        let m = m\<lparr>inner := this_thread\<rparr> in
        if rl_ty m = Recursive then (let (m, r) = increment_recursive_count m in (m, TurnReturns r)) else (m, TurnReturns (Inr ()))
      else
        let thread = inner m in
        if thread AND INDEX_MASK = this_thread \<and> rl_ty m = Recursive then
          (let (m, r) = increment_recursive_count m in (m, TurnReturns r))
        else if thread AND INDEX_MASK = this_thread \<and> rl_ty m = Errck then (m, TurnReturns (Inl EAGAIN))
        else if thread AND INDEX_MASK = 0 then (m, TurnRetries)
        else (m, TurnWaits thread))"

definition lock_wait :: "bool \<Rightarrow> lock_turn" where
  "lock_wait timed_out = (if timed_out then TurnReturns (Inl ETIMEDOUT) else TurnRetries)"

definition rlct_try_lock :: "u32 \<Rightarrow> rlct_mutex \<Rightarrow> rlct_mutex \<times> (lock_errno + unit)" where
  "rlct_try_lock this_thread m =
     (let ok = (inner m = STATE_UNLOCKED); index = inner m; m = (if ok then m\<lparr>inner := this_thread\<rparr> else m) in
      if rl_ty m = Recursive then
        if \<not> ok \<and> index AND INDEX_MASK \<noteq> this_thread then (m, Inl EBUSY) else increment_recursive_count m
      else if ok then (m, Inr ())
      else if index AND INDEX_MASK = this_thread \<and> rl_ty m = Errck then (m, Inl EDEADLK)
      else (m, Inl EBUSY))"

text \<open>\<open>unlock\<close> wakes the threads that wait after it has set the word to 0.\<close>

definition rlct_unlock :: "u32 \<Rightarrow> rlct_mutex \<Rightarrow> rlct_mutex \<times> (lock_errno + unit)" where
  "rlct_unlock this_thread m =
     (if (robust m \<or> rl_ty m \<in> {Recursive, Errck}) \<and> inner m AND INDEX_MASK \<noteq> this_thread then (m, Inl EPERM)
      else if rl_ty m = Recursive then
        let next = recursive_count m - 1; m = m\<lparr>recursive_count := next\<rparr> in
        if next > 0 then (m, Inr ()) else (m\<lparr>inner := STATE_UNLOCKED\<rparr>, Inr ())
      else (m\<lparr>inner := STATE_UNLOCKED\<rparr>, Inr ()))"

section \<open>Threads that lock and unlock\<close>

text \<open>A thread identifier is not 0 and leaves the highest bit free.  \<open>depth\<close> counts the locks a thread has taken and not
  given back.  A thread gives back a lock it has; what an error-checking or recursive mutex answers otherwise is a
  step as well.\<close>

definition valid_tid :: "u32 \<Rightarrow> bool" where
  "valid_tid t \<longleftrightarrow> t \<noteq> 0 \<and> t AND INDEX_MASK = t"

record lock_system =
  lock_mutex :: rlct_mutex
  depth :: "u32 \<Rightarrow> nat"

definition took :: "u32 \<Rightarrow> bool \<Rightarrow> lock_system \<Rightarrow> rlct_mutex \<Rightarrow> lock_system" where
  "took t ok s m = s\<lparr>lock_mutex := m, depth := (depth s)(t := depth s t + (if ok then 1 else 0))\<rparr>"

definition gave :: "u32 \<Rightarrow> bool \<Rightarrow> lock_system \<Rightarrow> rlct_mutex \<Rightarrow> lock_system" where
  "gave t ok s m = s\<lparr>lock_mutex := m, depth := (depth s)(t := depth s t - (if ok then 1 else 0))\<rparr>"

inductive lock_step :: "lock_system \<Rightarrow> lock_system \<Rightarrow> bool" where
  lock: "valid_tid t \<Longrightarrow> lock_inner spurious t (lock_mutex s) = (m, r) \<Longrightarrow> lock_step s (took t (r = TurnReturns (Inr ())) s m)"
| try_lock: "valid_tid t \<Longrightarrow> rlct_try_lock t (lock_mutex s) = (m, r) \<Longrightarrow> lock_step s (took t (r = Inr ()) s m)"
| unlock: "valid_tid t \<Longrightarrow> depth s t > 0 \<or> rl_ty (lock_mutex s) \<in> {Recursive, Errck} \<Longrightarrow>
    rlct_unlock t (lock_mutex s) = (m, r) \<Longrightarrow> lock_step s (gave t (r = Inr ()) s m)"

definition lock_new :: "rlct_mutex \<Rightarrow> lock_system" where
  "lock_new m = \<lparr>lock_mutex = m, depth = (\<lambda>t. 0)\<rparr>"

definition lock_inv :: "lock_system \<Rightarrow> bool" where
  "lock_inv s \<longleftrightarrow> (let m = lock_mutex s in
     (\<forall>t. t \<noteq> inner m \<longrightarrow> depth s t = 0) \<and> (inner m = 0 \<longrightarrow> depth s 0 = 0) \<and> (inner m \<noteq> 0 \<longrightarrow> valid_tid (inner m) \<and> depth s (inner m) > 0) \<and>
     (rl_ty m = Recursive \<longrightarrow> unat (recursive_count m) = depth s (inner m)) \<and>
     (rl_ty m \<noteq> Recursive \<longrightarrow> depth s (inner m) \<le> 1))"

lemma lock_inv_new: "rlct_new r k = Inr m \<Longrightarrow> lock_inv (lock_new m)"
  by (auto simp: rlct_new_def lock_inv_def lock_new_def STATE_UNLOCKED_def split: if_splits option.splits)

lemma increment_run: "increment_recursive_count m = (if unat (recursive_count m) = 2 ^ 32 - 1 then (m, Inl EAGAIN)
    else (m\<lparr>recursive_count := recursive_count m + 1\<rparr>, Inr ())) \<and>
    (unat (recursive_count m) \<noteq> 2 ^ 32 - 1 \<longrightarrow> unat (recursive_count m + 1) = unat (recursive_count m) + 1)"
proof -
  have "recursive_count m = - 1 \<longleftrightarrow> unat (recursive_count m) = 2 ^ 32 - 1" by (simp add: word_unat_eq_iff unsigned_minus_1_eq_mask mask_eq_exp_minus_1)
  moreover have "unat (recursive_count m) < 2 ^ 32" using unsigned_less [of "recursive_count m"] by simp
  ultimately show ?thesis by (auto simp: increment_recursive_count_def RECURSIVE_COUNT_MAX_INCLUSIVE_def unat_word_ariths)
qed

lemma lock_invD:
  assumes "lock_inv s"
  shows "t \<noteq> inner (lock_mutex s) \<Longrightarrow> depth s t = 0" "inner (lock_mutex s) = 0 \<Longrightarrow> depth s 0 = 0"
    and "inner (lock_mutex s) \<noteq> 0 \<Longrightarrow> valid_tid (inner (lock_mutex s)) \<and> depth s (inner (lock_mutex s)) > 0"
    and "rl_ty (lock_mutex s) = Recursive \<Longrightarrow> unat (recursive_count (lock_mutex s)) = depth s (inner (lock_mutex s))"
    and "rl_ty (lock_mutex s) \<noteq> Recursive \<Longrightarrow> depth s (inner (lock_mutex s)) \<le> 1"
  using assms by (auto simp: lock_inv_def Let_def)

lemma lock_inv_same: "lock_inv s \<Longrightarrow> lock_inv (took t False s (lock_mutex s))" "lock_inv s \<Longrightarrow> lock_inv (gave t False s (lock_mutex s))"
  by (simp_all add: took_def gave_def)

text \<open>Taking a free mutex, and taking a recursive one again.\<close>

lemma lock_inv_acquire:
  assumes inv: "lock_inv s" and t: "valid_tid t" and free: "inner (lock_mutex s) = 0" and m: "m = (lock_mutex s)\<lparr>inner := t\<rparr>"
  shows "rl_ty m \<noteq> Recursive \<Longrightarrow> lock_inv (took t True s m)"
    and "rl_ty m = Recursive \<Longrightarrow> increment_recursive_count m = (m', r) \<Longrightarrow> r = Inr () \<and> lock_inv (took t True s m')"
proof -
  have none: "depth s u = 0" for u using lock_invD(1,2) [OF inv] free by (cases "u = 0") auto
  show "lock_inv (took t True s m)" if "rl_ty m \<noteq> Recursive"
    using t that none by (auto simp: lock_inv_def took_def m valid_tid_def)
  show "r = Inr () \<and> lock_inv (took t True s m')" if rec: "rl_ty m = Recursive" and inc: "increment_recursive_count m = (m', r)"
  proof -
    have "unat (recursive_count m) = 0" using lock_invD(4) [OF inv] rec none by (simp add: m)
    then show ?thesis using inc increment_run [of m] t none rec by (auto simp: lock_inv_def took_def m valid_tid_def split: if_splits)
  qed
qed

lemma lock_inv_again:
  assumes inv: "lock_inv s" and t: "inner (lock_mutex s) = t" "t \<noteq> 0" "rl_ty (lock_mutex s) = Recursive"
    and inc: "increment_recursive_count (lock_mutex s) = (m', r)"
  shows "lock_inv (took t (r = Inr ()) s m')"
proof -
  have d: "depth s t = unat (recursive_count (lock_mutex s))" using lock_invD(4) [OF inv t(3)] t by simp
  show ?thesis using inc increment_run [of "lock_mutex s"] lock_invD(1,3) [OF inv] t d
    by (auto simp: lock_inv_def took_def split: if_splits)
qed

lemma owner_index: "lock_inv s \<Longrightarrow> inner (lock_mutex s) AND INDEX_MASK = inner (lock_mutex s)"
  using lock_invD(3) [of s] by (cases "inner (lock_mutex s) = 0") (auto simp: valid_tid_def)

lemma lock_inv_lock:
  assumes inv: "lock_inv s" and t: "valid_tid t" and run: "lock_inner spurious t (lock_mutex s) = (m, r)"
  shows "lock_inv (took t (r = TurnReturns (Inr ())) s m)"
proof (cases "inner (lock_mutex s) = 0 \<and> \<not> spurious")
  case True
  then show ?thesis using run lock_inv_acquire [OF inv t _ refl]
    by (cases "rl_ty (lock_mutex s) = Recursive") (auto simp: lock_inner_def STATE_UNLOCKED_def Let_def split: prod.splits)
next
  case False
  have t0: "t \<noteq> 0" using t by (simp add: valid_tid_def)
  show ?thesis
  proof (cases "inner (lock_mutex s) = t \<and> rl_ty (lock_mutex s) = Recursive")
    case True
    then show ?thesis using False run t0 lock_inv_again [OF inv, of t] owner_index [OF inv]
      by (auto simp: lock_inner_def STATE_UNLOCKED_def Let_def split: prod.splits)
  next
    case other: False
    then have "m = lock_mutex s" "r \<noteq> TurnReturns (Inr ())" using False run owner_index [OF inv]
      by (auto simp: lock_inner_def STATE_UNLOCKED_def Let_def split: if_splits)
    then show ?thesis using lock_inv_same [OF inv] by simp
  qed
qed

lemma lock_inv_try_lock:
  assumes inv: "lock_inv s" and t: "valid_tid t" and run: "rlct_try_lock t (lock_mutex s) = (m, r)"
  shows "lock_inv (took t (r = Inr ()) s m)"
proof (cases "inner (lock_mutex s) = 0")
  case True
  then show ?thesis using run lock_inv_acquire [OF inv t _ refl]
    by (cases "rl_ty (lock_mutex s) = Recursive") (auto simp: rlct_try_lock_def STATE_UNLOCKED_def Let_def)
next
  case False
  have t0: "t \<noteq> 0" using t by (simp add: valid_tid_def)
  show ?thesis
  proof (cases "inner (lock_mutex s) = t \<and> rl_ty (lock_mutex s) = Recursive")
    case True
    then show ?thesis using False run t0 lock_inv_again [OF inv, of t] owner_index [OF inv]
      by (auto simp: rlct_try_lock_def STATE_UNLOCKED_def Let_def)
  next
    case other: False
    then have "m = lock_mutex s" "r \<noteq> Inr ()" using False run owner_index [OF inv]
      by (auto simp: rlct_try_lock_def STATE_UNLOCKED_def Let_def split: if_splits)
    then show ?thesis using lock_inv_same [OF inv] by simp
  qed
qed

lemma rlct_unlock_run:
  assumes inv: "lock_inv s" and t: "depth s t > 0"
  shows "rlct_unlock t (lock_mutex s) =
    (let m = lock_mutex s; n = (if rl_ty m = Recursive then recursive_count m - 1 else recursive_count m) in
     (m\<lparr>inner := if depth s t = 1 then 0 else t, recursive_count := n\<rparr>, Inr ()))"
    and "rl_ty (lock_mutex s) = Recursive \<Longrightarrow> unat (recursive_count (lock_mutex s) - 1) = depth s t - 1"
proof -
  have own: "inner (lock_mutex s) = t" using lock_invD(1) [OF inv, of t] t by auto
  have count: "unat (recursive_count (lock_mutex s)) = depth s t" if "rl_ty (lock_mutex s) = Recursive"
    using lock_invD(4) [OF inv that] own by simp
  show less: "unat (recursive_count (lock_mutex s) - 1) = depth s t - 1" if "rl_ty (lock_mutex s) = Recursive"
  proof -
    have "recursive_count (lock_mutex s) \<noteq> 0" using count [OF that] t by auto
    then show ?thesis using count [OF that] by (simp add: unat_minus_one)
  qed
  have "recursive_count (lock_mutex s) - 1 > 0 \<longleftrightarrow> depth s t \<noteq> 1" if "rl_ty (lock_mutex s) = Recursive"
    using less [OF that] t by (auto simp: word_less_nat_alt)
  moreover have "depth s t = 1" if "rl_ty (lock_mutex s) \<noteq> Recursive" using lock_invD(5) [OF inv that] own t by simp
  ultimately show "rlct_unlock t (lock_mutex s) =
    (let m = lock_mutex s; n = (if rl_ty m = Recursive then recursive_count m - 1 else recursive_count m) in
     (m\<lparr>inner := if depth s t = 1 then 0 else t, recursive_count := n\<rparr>, Inr ()))"
    using own owner_index [OF inv] by (cases "lock_mutex s") (auto simp: rlct_unlock_def STATE_UNLOCKED_def Let_def)
qed

lemma lock_inv_unlock:
  assumes inv: "lock_inv s" and t: "valid_tid t" and run: "rlct_unlock t (lock_mutex s) = (m, r)"
    and allowed: "depth s t > 0 \<or> rl_ty (lock_mutex s) \<in> {Recursive, Errck}"
  shows "lock_inv (gave t (r = Inr ()) s m)"
proof (cases "depth s t > 0")
  case True
  have own: "inner (lock_mutex s) = t" using lock_invD(1) [OF inv, of t] True by auto
  have m: "m = (let m = lock_mutex s; n = (if rl_ty m = Recursive then recursive_count m - 1 else recursive_count m) in
     m\<lparr>inner := if depth s t = 1 then 0 else t, recursive_count := n\<rparr>)" "r = Inr ()"
    using run rlct_unlock_run(1) [OF inv True] by (auto simp: Let_def)
  have "depth s 0 = 0" if "t \<noteq> 0" using lock_invD(1) [OF inv, of 0] own that by simp
  then show ?thesis unfolding m using rlct_unlock_run(2) [OF inv True] lock_invD [OF inv] own True t
    by (auto simp: lock_inv_def gave_def Let_def valid_tid_def)
next
  case False
  have "inner (lock_mutex s) \<noteq> t" using lock_invD(2,3) [OF inv] False t by (auto simp: valid_tid_def)
  then have "m = lock_mutex s" "r = Inl EPERM" using run allowed False owner_index [OF inv] by (auto simp: rlct_unlock_def)
  then show ?thesis using lock_inv_same [OF inv] by simp
qed

lemma lock_inv_step: "lock_step s s' \<Longrightarrow> lock_inv s \<Longrightarrow> lock_inv s'"
  by (induction rule: lock_step.induct) (auto intro: lock_inv_lock lock_inv_try_lock lock_inv_unlock)

lemma lock_reachable: "lock_step\<^sup>*\<^sup>* (lock_new m) s \<Longrightarrow> rlct_new r k = Inr m \<Longrightarrow> lock_inv s"
  by (induction rule: rtranclp_induct) (auto intro: lock_inv_new lock_inv_step)

text \<open>C34. However threads lock, try to lock and unlock a mutex of any of the four types, at most one thread has it locked
  and the word names that thread.  The count of a recursive mutex is the number of times the thread has locked it, the
  other types are locked once.  Unlocking by the owner succeeds, and sets the mutex free exactly when it gives back the
  last lock; a recursive or error-checking mutex refuses every other thread with \<open>EPERM\<close>.\<close>

theorem rlct_mutex_owned:
  assumes "rlct_new r k = Inr m" "lock_step\<^sup>*\<^sup>* (lock_new m) s"
  shows "(\<forall>t u. depth s t > 0 \<and> depth s u > 0 \<longrightarrow> t = u \<and> inner (lock_mutex s) = t) \<and>
    (\<forall>t. depth s t > 0 \<longrightarrow> depth s t = (if rl_ty (lock_mutex s) = Recursive then unat (recursive_count (lock_mutex s)) else 1) \<and>
       (\<exists>m'. rlct_unlock t (lock_mutex s) = (m', Inr ()) \<and> (inner m' = 0 \<longleftrightarrow> depth s t = 1))) \<and>
    (\<forall>t. valid_tid t \<and> depth s t = 0 \<and> rl_ty (lock_mutex s) \<in> {Recursive, Errck} \<longrightarrow>
       rlct_unlock t (lock_mutex s) = (lock_mutex s, Inl EPERM))"
proof -
  have inv: "lock_inv s" by (rule lock_reachable [OF assms(2,1)])
  have own: "inner (lock_mutex s) = t" if "depth s t > 0" for t using lock_invD(1) [OF inv, of t] that by auto
  have nonzero: "t \<noteq> 0" if "depth s t > 0" for t using own [OF that] lock_invD(2) [OF inv] that by auto
  have "depth s t = (if rl_ty (lock_mutex s) = Recursive then unat (recursive_count (lock_mutex s)) else 1)" if "depth s t > 0" for t
    using lock_invD(4,5) [OF inv] own [OF that] that by auto
  moreover have "\<exists>m'. rlct_unlock t (lock_mutex s) = (m', Inr ()) \<and> (inner m' = 0 \<longleftrightarrow> depth s t = 1)" if "depth s t > 0" for t
    unfolding rlct_unlock_run(1) [OF inv that] using nonzero [OF that] by (simp add: Let_def)
  moreover have "rlct_unlock t (lock_mutex s) = (lock_mutex s, Inl EPERM)"
    if "valid_tid t" "depth s t = 0" "rl_ty (lock_mutex s) \<in> {Recursive, Errck}" for t
  proof -
    have "inner (lock_mutex s) \<noteq> t" using lock_invD(3) [OF inv] that(1,2) by (auto simp: valid_tid_def)
    then show ?thesis using that(3) owner_index [OF inv] by (auto simp: rlct_unlock_def)
  qed
  ultimately show ?thesis using own by blast
qed

text \<open>Thread 1 locks a recursive mutex twice.\<close>

definition twice_locked :: lock_system where
  "twice_locked = \<lparr>lock_mutex = \<lparr>inner = 1, recursive_count = 2, rl_ty = Recursive, robust = False\<rparr>, depth = (\<lambda>t. 0)(1 := 2)\<rparr>"

theorem rlct_mutex_owned_witness:
  "depth twice_locked 1 = 2 \<and> (\<exists>m'. rlct_unlock 1 (lock_mutex twice_locked) = (m', Inr ()) \<and> inner m' \<noteq> 0) \<and>
   rlct_unlock 2 (lock_mutex twice_locked) = (lock_mutex twice_locked, Inl EPERM)"
proof -
  let ?m = "\<lparr>inner = 0, recursive_count = 0, rl_ty = Recursive, robust = False\<rparr>"
  let ?s1 = "\<lparr>lock_mutex = \<lparr>inner = 1, recursive_count = 1, rl_ty = Recursive, robust = False\<rparr>, depth = (\<lambda>t. 0)(1 := 1)\<rparr>"
  have tid: "valid_tid 1" "valid_tid 2" by (simp_all add: valid_tid_def INDEX_MASK_def WAITING_BIT_def)
  have new: "rlct_new 1 3 = Inr ?m" by (simp add: rlct_new_def STATE_UNLOCKED_def)
  have "lock_step (lock_new ?m) ?s1"
    using lock_step.try_lock [OF tid(1), of "lock_new ?m"]
    by (simp add: lock_new_def took_def rlct_try_lock_def increment_recursive_count_def STATE_UNLOCKED_def RECURSIVE_COUNT_MAX_INCLUSIVE_def)
  moreover have "lock_step ?s1 twice_locked"
    using lock_step.lock [OF tid(1), of False ?s1]
    by (simp add: took_def lock_inner_def increment_recursive_count_def STATE_UNLOCKED_def RECURSIVE_COUNT_MAX_INCLUSIVE_def
      INDEX_MASK_def WAITING_BIT_def twice_locked_def numeral_2_eq_2)
  ultimately have "lock_step\<^sup>*\<^sup>* (lock_new ?m) twice_locked" by (meson r_into_rtranclp rtranclp_trans)
  moreover have "depth twice_locked 1 = 2" "depth twice_locked 2 = 0" "rl_ty (lock_mutex twice_locked) = Recursive" by (simp_all add: twice_locked_def)
  ultimately show ?thesis using rlct_mutex_owned [OF new] tid by fastforce
qed

end
