(* ===== verification/Spec2Isabelle.thy ===== *)
theory Spec2Isabelle
  imports MemoryManager BlockCache FileOps Scheduler Vmcs ApicTimer GuestMem Hypervisor Qsort Futex Rwlock RlctMutex
begin

text \<open>
  \<^bold>\<open>A verification development for vmxkernel-os.\<close>

  The repository holds a kernel for x86-64 in Rust (\<open>kernel\<close>) with a hypervisor on Intel VMX (the crate
  \<open>kernel/crates/rvm\<close> and its use in \<open>kernel/src/virt/kvm\<close>), user programs (\<open>apps\<close>, \<open>vstd\<close>, \<open>vsc\<close>), a C library
  (\<open>relibc\<close>) and a program that builds the disk image (\<open>builder\<close>).  The development models the memory management, the
  disks and files, the tasks, the hypervisor and the central parts of the C library.  All paths are relative to
  \<open>src/\<close>.

  \<^bold>\<open>How the parts fit together.\<close>  The frame allocator hands out physical frames.  Page tables, the memory manager and the
  nested page tables of guests take their frames from it.  Disks are read and written by sectors; the block cache turns
  them into files of bytes, which the virtual file system mounts and the file operations of a process open.  The
  scheduler runs the threads of the processes.  The hypervisor builds a guest memory on nested paging, programs the
  control structure of a virtual processor, and answers its exits with the emulated devices and the virtual timer.

  \<^bold>\<open>Representation.\<close>  A function of the source is a function of the theories with the same name, up to a prefix where
  names clash (\<open>fs_open\<close>, \<open>gpm_map_region\<close>, \<open>npt_map\<close>).  A struct is a record and an enum a datatype.  The state that a
  method changes is an argument that is returned.  A function that can panic returns an \<open>outcome\<close>; a \<open>Result\<close> is a sum
  type with the error on the left.  Integers are words where bits or wrap-around matter; addresses and counts are
  natural numbers with the overflow check of the dev profile written out (\<open>uadd\<close>, \<open>usub\<close>, \<open>umul\<close>).  An operation that
  is shown not to panic computes the same in the release profile.  The one place where the profiles differ,
  \<open>MapRegion::new_offset\<close>, has the profile as an argument.  \<open>Arc\<close> and \<open>InodeRef\<close> pointers are numbers with an explicit
  store.

  Code that is not in the repository is a parameter: the crates \<open>x86_64\<close>, \<open>x86\<close>, \<open>bit_field\<close>, \<open>memchr\<close>, \<open>cbitset\<close>,
  \<open>nvme\<close> and \<open>object\<close>, the boot loader, the instructions of the processor and the disk controller.  What the code relies
  on is stated as locales (\<open>bit_field\<close>, \<open>bit_range\<close>, \<open>pte_ops\<close>, \<open>sata_disk\<close>, \<open>vmx_cpu\<close>, \<open>vmx_operation\<close>, \<open>bitset256\<close>)
  or as the predicate \<open>mapper_laws\<close>, each with a concrete instance.  The locales \<open>frame_source\<close>, \<open>block_device\<close>,
  \<open>nested_paging\<close>, \<open>table_copy\<close> and \<open>consistent_comparison\<close> are interfaces between the parts of the repository and are
  discharged for the definitions of the part that provides them.

  \<^bold>\<open>The theories.\<close>

  \<^item> \<open>Prelude\<close>: outcomes, checked arithmetic, ordered maps, bit fields.
  \<^item> \<open>Frame\<close> (\<open>kernel/src/memory/frame.rs\<close>): the bitmap allocator.  \<open>allocate_frames\<close> finds the first run that fits
    behind the cursor; \<open>allocate_frame\<close> returns a free frame under the invariant \<open>fa_inv\<close>.  Outside of it a frame can be
    handed out twice, and giving back a range frees one frame too many.
  \<^item> \<open>PageTable\<close>, \<open>MemoryManager\<close> (\<open>kernel/src/memory\<close>, \<open>kernel/src/task/stack.rs\<close>): copying and freeing page tables
    over a store of tables, mapping ranges, writing through a foreign page table.  The copy has the translations of the
    original; a mapped range is backed by frames of its own; what is written is read back.
  \<^item> \<open>Ahci\<close>, \<open>BlockCache\<close> (\<open>kernel/src/device\<close>, \<open>kernel/src/fs/vfs/cache.rs\<close>, \<open>dev/block.rs\<close>, \<open>dev/partition.rs\<close>):
    commands to a disk, the sector cache.  Reading and writing bytes refine an array of bytes.
  \<^item> \<open>Vfs\<close>, \<open>FileOps\<close> (\<open>kernel/src/fs\<close>): inodes, mounting, paths, descriptors and the operations on them.  A path
    resolves to what was mounted there, and no process changes the descriptors of another.
  \<^item> \<open>Task\<close>, \<open>Scheduler\<close> (\<open>kernel/src/task\<close>, \<open>arch/interrupts.rs\<close>, \<open>syscall/operations.rs\<close>): the ready queue, the timer
    interrupt, starting and ending processes, as a step relation.  In every reachable state no thread is queued twice or
    runs on two processors, all queued threads are alive and the timer interrupt does not panic; a preempted thread
    comes back with its registers.
  \<^item> \<open>Nested\<close>, \<open>GuestMem\<close> (\<open>rvm/src/mm\<close>, \<open>vmx/ept.rs\<close>, \<open>kernel/src/virt/kvm/gpm.rs\<close>): the nested page table refines a
    partial function on pages, and the memory of a guest maps exactly its regions.
  \<^item> \<open>VmxFields\<close>, \<open>Vmcs\<close>, \<open>Vcpu\<close> (\<open>rvm/src/arch/x86_64/vmx\<close>): the encodings of fields, setting controls, injecting
    events, the MSR bitmap and the set-up of a virtual processor, over a processor that obeys \<open>vmx_operation\<close>.
  \<^item> \<open>ApicTimer\<close> (\<open>rvm/src/arch/x86_64/lapic.rs\<close>, \<open>kernel/src/virt/kvm/lapic.rs\<close>): the virtual timer.  The number of
    interrupts is the number of periods that have passed.
  \<^item> \<open>Hypervisor\<close> (\<open>vmx/mod.rs\<close>, \<open>kernel/src/virt/kvm/mod.rs\<close>, \<open>device_emu\<close>): VMX on and off, the exit handlers and the
    emulated devices.
  \<^item> \<open>CMem\<close>, \<open>CString\<close>, \<open>Qsort\<close> (\<open>relibc/src/header/string\<close>, \<open>strings\<close>, \<open>stdlib\<close>): memory and string functions on a list
    of bytes, introsort.  The word by word routines are equivalent to the byte by byte ones, \<open>strtok_r\<close> returns the
    tokens of the string, and the sort ends and sorts.
  \<^item> \<open>Futex\<close>, \<open>Rwlock\<close>, \<open>RlctMutex\<close> (\<open>relibc/src/sync\<close>): the locks of the C library as the atomic steps of any number of
    threads in any order.  They exclude, and a thread sleeps only while another one is going to wake it.

  Properties that span parts are in the theory of the uppermost part.

  \<^bold>\<open>Termination.\<close>  No definition uses fuel.  Loops are structural recursions or have a termination proof, whose measure is
  the rest of the bitmap, the memory, the array or the list they run over; a loop that would leave the memory panics.
  The depth limit of the introsort is the one of the source.  The loops of the locks, which may spin for ever, are step
  relations.

  \<^bold>\<open>What is not modelled.\<close>  The start-up code and the drivers other than the disk driver are input and output on ports
  and registers.  The inline assembly that enters a guest and dispatches system calls is left out, as are log messages.
  The FAT and ext2 adaptors forward to vendored file systems; the virtual file system takes their inodes as method
  tables.  Kernel locks are not modelled, since the modelled operations run with interrupts disabled and the lock held.
  The rest of the C library (formatted input and output, the dynamic linker, the allocator, mathematics, regular
  expressions), the user programs and the image builder are not modelled.  The atomic operations of the locks are
  sequentially consistent, so that nothing is said about their memory orderings.
\<close>

end
